(* ===== verification/Go_Prelude.thy ===== *)
theory Go_Prelude
  imports "HOL-Library.Word"
begin

text \<open>
  The part of the Go language and of its standard library that the edge node uses, and the
  generic lemmas the component theories share:
  \<^item> the outcome of a computation (\<open>go\<close>): a value, a run-time panic, or a goroutine that waits
    on a channel;
  \<^item> byte slices with length and capacity (a re-slice may reach up to the capacity, an index only
    up to the length, as in the language definition);
  \<^item> big-endian integers (\<open>encoding/binary\<close>) and their value as a number;
  \<^item> buffered channels with \<open>close\<close>.
  The collections \<open>go_simps\<close> (unfolding of outcomes and slices) and \<open>wire\<close> (byte layout of
  integers) carry the proofs of the other theories.
\<close>

unbundle bit_operations_syntax

named_theorems go_simps \<open>evaluation of outcomes and of slice operations\<close>
named_theorems wire \<open>numeric value of big-endian byte groups\<close>

type_synonym byte = "8 word"
type_synonym u16 = "16 word"
type_synonym u32 = "32 word"
type_synonym u64 = "64 word"

subsection \<open>Outcomes\<close>

datatype panic = IndexOutOfRange | SliceBounds | NilDeref | TypeAssertion | SendOnClosed
  | CloseOfClosed | DivideByZero | Explicit string

datatype 'a go = Ok 'a | Panic panic | Blocked

definition andthen :: "'a go \<Rightarrow> ('a \<Rightarrow> 'b go) \<Rightarrow> 'b go" where
  "andthen m f = (case m of Ok x \<Rightarrow> f x | Panic e \<Rightarrow> Panic e | Blocked \<Rightarrow> Blocked)"

lemma andthen_simps [simp, go_simps]:
  "andthen (Ok x) f = f x"
  "andthen (Panic e) f = Panic e"
  "andthen Blocked f = Blocked"
  by (simp_all add: andthen_def)

lemma andthen_eq_Ok [go_simps]:
  "andthen m f = Ok y \<longleftrightarrow> (\<exists>x. m = Ok x \<and> f x = Ok y)"
  by (cases m) auto

lemma andthen_cong [fundef_cong]:
  "m = m' \<Longrightarrow> (\<And>x. m' = Ok x \<Longrightarrow> f x = g x) \<Longrightarrow> andthen m f = andthen m' g"
  by (cases m') auto

lemma andthen_assoc: "andthen (andthen m f) g = andthen m (\<lambda>x. andthen (f x) g)"
  by (cases m) auto

primrec is_ok :: "'a go \<Rightarrow> bool" where
  "is_ok (Ok x) = True"
| "is_ok (Panic e) = False"
| "is_ok Blocked = False"

lemma is_ok_iff: "is_ok m \<longleftrightarrow> (\<exists>x. m = Ok x)"
  by (cases m) auto

text \<open>
  Partial correctness of one step: what holds of the value if the step returns one. The rules
  follow the composition of steps.
\<close>

definition ensures :: "'a go \<Rightarrow> ('a \<Rightarrow> bool) \<Rightarrow> bool" where
  "ensures m P \<longleftrightarrow> (\<forall>x. m = Ok x \<longrightarrow> P x)"

lemma ensures_simps [simp]:
  "ensures (Ok x) P \<longleftrightarrow> P x" "ensures (Panic e) P" "ensures Blocked P"
  by (simp_all add: ensures_def)

lemma ensures_andthen: "ensures (andthen m f) P \<longleftrightarrow> ensures m (\<lambda>x. ensures (f x) P)"
  by (cases m) (simp_all add: ensures_def)

lemma ensuresI: "(\<And>x. m = Ok x \<Longrightarrow> P x) \<Longrightarrow> ensures m P"
  by (simp add: ensures_def)

lemma ensures_mono: "ensures m P \<Longrightarrow> (\<And>x. P x \<Longrightarrow> Q x) \<Longrightarrow> ensures m Q"
  by (simp add: ensures_def)

lemma ensuresD: "ensures m P \<Longrightarrow> m = Ok x \<Longrightarrow> P x"
  by (simp add: ensures_def)

subsection \<open>Byte slices\<close>

text \<open>
  A slice is a view of a backing array: \<open>sl_mem\<close> are the bytes from its first element up to its
  capacity, of which the first \<open>sl_len\<close> are its elements.
\<close>

record slice =
  sl_mem :: "byte list"
  sl_len :: nat

definition slice_ok :: "slice \<Rightarrow> bool" where
  "slice_ok s \<longleftrightarrow> sl_len s \<le> length (sl_mem s)"

definition bytes :: "slice \<Rightarrow> byte list" where
  "bytes s = take (sl_len s) (sl_mem s)"

definition of_bytes :: "byte list \<Rightarrow> slice" where
  "of_bytes bs = \<lparr>sl_mem = bs, sl_len = length bs\<rparr>"

definition make_bytes :: "nat \<Rightarrow> slice" where
  "make_bytes n = of_bytes (replicate n 0)"

definition sl_index :: "slice \<Rightarrow> nat \<Rightarrow> byte go" where
  "sl_index s i = (if i < sl_len s then Ok (sl_mem s ! i) else Panic IndexOutOfRange)"

text \<open>\<open>s[lo:hi]\<close>, \<open>s[lo:]\<close> and \<open>s[:hi]\<close>.\<close>

definition sl_slice :: "slice \<Rightarrow> nat \<Rightarrow> nat \<Rightarrow> slice go" where
  "sl_slice s lo hi =
     (if lo \<le> hi \<and> hi \<le> length (sl_mem s)
      then Ok \<lparr>sl_mem = drop lo (sl_mem s), sl_len = hi - lo\<rparr> else Panic SliceBounds)"

definition sl_from :: "slice \<Rightarrow> nat \<Rightarrow> slice go" where
  "sl_from s lo = sl_slice s lo (sl_len s)"

definition sl_to :: "slice \<Rightarrow> nat \<Rightarrow> slice go" where
  "sl_to s hi = sl_slice s 0 hi"

text \<open>\<open>copy(dst[lo:hi], src)\<close>: the destination with the copied bytes in place.\<close>

definition copy_into :: "slice \<Rightarrow> nat \<Rightarrow> nat \<Rightarrow> byte list \<Rightarrow> slice go" where
  "copy_into s lo hi src =
     (if lo \<le> hi \<and> hi \<le> length (sl_mem s)
      then Ok (s\<lparr>sl_mem := take lo (sl_mem s) @ take (hi - lo) src
                  @ drop (lo + length (take (hi - lo) src)) (sl_mem s)\<rparr>)
      else Panic SliceBounds)"

lemma slice_ok_of_bytes [simp]: "slice_ok (of_bytes bs)"
  by (simp add: slice_ok_def of_bytes_def)

lemma bytes_of_bytes [simp]: "bytes (of_bytes bs) = bs"
  by (simp add: bytes_def of_bytes_def)

lemma sl_len_of_bytes [simp]: "sl_len (of_bytes bs) = length bs"
  by (simp add: of_bytes_def)

lemma sl_mem_of_bytes [simp]: "sl_mem (of_bytes bs) = bs"
  by (simp add: of_bytes_def)

lemma length_bytes [simp]: "slice_ok s \<Longrightarrow> length (bytes s) = sl_len s"
  by (simp add: slice_ok_def bytes_def)

lemma nth_bytes: "i < sl_len s \<Longrightarrow> bytes s ! i = sl_mem s ! i"
  by (simp add: bytes_def)

lemma sl_index_Ok [go_simps]: "i < sl_len s \<Longrightarrow> sl_index s i = Ok (bytes s ! i)"
  by (simp add: sl_index_def nth_bytes)

lemma sl_index_Panic [go_simps]: "\<not> i < sl_len s \<Longrightarrow> sl_index s i = Panic IndexOutOfRange"
  by (simp add: sl_index_def)

lemma sl_slice_bytes:
  assumes "slice_ok s" "lo \<le> hi" "hi \<le> sl_len s"
  obtains t where "sl_slice s lo hi = Ok t" "slice_ok t" "sl_len t = hi - lo"
    "bytes t = take (hi - lo) (drop lo (bytes s))"
proof
  let ?t = "\<lparr>sl_mem = drop lo (sl_mem s), sl_len = hi - lo\<rparr>"
  show "sl_slice s lo hi = Ok ?t"
    using assms by (simp add: sl_slice_def slice_ok_def)
  show "slice_ok ?t" "sl_len ?t = hi - lo"
    using assms by (simp_all add: slice_ok_def)
  show "bytes ?t = take (hi - lo) (drop lo (bytes s))"
    using assms by (simp add: bytes_def slice_ok_def take_drop min_def)
qed

subsection \<open>Big-endian integers\<close>

definition be16 :: "byte \<Rightarrow> byte \<Rightarrow> u16" where
  "be16 a b = ucast b OR push_bit 8 (ucast a)"

definition be32 :: "byte \<Rightarrow> byte \<Rightarrow> byte \<Rightarrow> byte \<Rightarrow> u32" where
  "be32 a b c d =
     ucast d OR push_bit 8 (ucast c) OR push_bit 16 (ucast b) OR push_bit 24 (ucast a)"

text \<open>\<open>binary.BigEndian.Uint16\<close> and \<open>Uint32\<close> check the bound of the last byte first.\<close>

definition Uint16 :: "slice \<Rightarrow> u16 go" where
  "Uint16 s = (if 2 \<le> sl_len s then Ok (be16 (sl_mem s ! 0) (sl_mem s ! 1))
               else Panic IndexOutOfRange)"

definition Uint32 :: "slice \<Rightarrow> u32 go" where
  "Uint32 s = (if 4 \<le> sl_len s
     then Ok (be32 (sl_mem s ! 0) (sl_mem s ! 1) (sl_mem s ! 2) (sl_mem s ! 3))
     else Panic IndexOutOfRange)"

definition put16 :: "u16 \<Rightarrow> byte list" where
  "put16 v = [ucast (drop_bit 8 v), ucast v]"

definition put32 :: "u32 \<Rightarrow> byte list" where
  "put32 v = [ucast (drop_bit 24 v), ucast (drop_bit 16 v), ucast (drop_bit 8 v), ucast v]"

lemma length_put [simp]: "length (put16 v) = 2" "length (put32 w) = 4"
  by (simp_all add: put16_def put32_def)

lemma be16_put16 [wire]: "be16 (ucast (drop_bit 8 v)) (ucast v) = v"
  unfolding be16_def by (rule bit_word_eqI) (auto simp: bit_simps)

lemma be32_put32 [wire]:
  "be32 (ucast (drop_bit 24 v)) (ucast (drop_bit 16 v)) (ucast (drop_bit 8 v)) (ucast v) = v"
proof (rule bit_word_eqI)
  fix n :: nat
  assume n: "n < LENGTH(32)"
  consider "n < 8" | "8 \<le> n" "n < 16" | "16 \<le> n" "n < 24" | "24 \<le> n"
    by linarith
  then show "bit (be32 (ucast (drop_bit 24 v)) (ucast (drop_bit 16 v)) (ucast (drop_bit 8 v))
               (ucast v)) n = bit v n"
    using n by cases (auto simp: be32_def bit_simps)
qed

text \<open>
  The 24-bit sizes of FLV tags, written \<open>uint32(a)<<16 | uint32(b)<<8 | uint32(c)\<close>, and the
  FLV time stamp, whose most significant byte comes last: \<open>uint32(d)<<24 + uint32(a)<<16 + \<dots>\<close>.
\<close>

definition be24 :: "byte \<Rightarrow> byte \<Rightarrow> byte \<Rightarrow> u32" where
  "be24 a b c = (push_bit 16 (ucast a) OR push_bit 8 (ucast b)) OR ucast c"

definition flv_ts :: "byte \<Rightarrow> byte \<Rightarrow> byte \<Rightarrow> byte \<Rightarrow> u32" where
  "flv_ts a b c d =
     push_bit 24 (ucast d) + push_bit 16 (ucast a) + push_bit 8 (ucast b) + ucast c"

lemma unat_byte_less [simp]: "unat (b :: byte) < 256"
  using unsigned_less [of b, where 'a = nat] by simp

lemma be24_sum: "be24 a b c = push_bit 16 (ucast a) + push_bit 8 (ucast b) + ucast c"
proof -
  have "push_bit 16 (ucast a) + push_bit 8 (ucast b) = (push_bit 16 (ucast a) OR push_bit 8 (ucast b) :: u32)"
    by (rule disjunctive_add) (auto simp: bit_simps dest: bit_imp_le_length)
  moreover have "(push_bit 16 (ucast a) OR push_bit 8 (ucast b)) + ucast c
      = ((push_bit 16 (ucast a) OR push_bit 8 (ucast b)) OR ucast c :: u32)"
    by (rule disjunctive_add) (auto simp: bit_simps dest: bit_imp_le_length)
  ultimately show ?thesis by (simp add: be24_def)
qed

lemma unat_be24 [wire]: "unat (be24 a b c) = unat a * 65536 + unat b * 256 + unat c"
proof -
  have "unat a * 65536 + unat b * 256 + unat c < 2 ^ 32"
    using unat_byte_less [of a] unat_byte_less [of b] unat_byte_less [of c]
    unfolding power_numeral Num.pow.simps Num.sqr.simps by linarith
  then show ?thesis
    by (simp add: be24_sum push_bit_eq_mult unat_word_ariths unsigned_ucast_eq take_bit_nat_eq_self)
qed

lemma base256_split: "n div 65536 * 65536 + n div 256 mod 256 * 256 + n mod 256 = (n :: nat)"
proof -
  have "n div 65536 = n div 256 div 256"
    by (simp add: div_mult2_eq [symmetric])
  then have "n div 65536 * 65536 + n div 256 mod 256 * 256 = n div 256 * 256"
    using div_mult_mod_eq [of "n div 256" 256] by linarith
  then show ?thesis by simp
qed

lemma be24_put [wire]:
  assumes "n < 2 ^ 24"
  shows "unat (be24 (word_of_nat (n div 65536)) (word_of_nat (n div 256)) (word_of_nat n)) = n"
proof -
  from assms have "n div 65536 mod 256 = n div 65536"
    by (simp add: less_mult_imp_div_less)
  then show ?thesis
    by (simp add: unat_be24 unat_of_nat base256_split)
qed

subsection \<open>Buffered channels\<close>

record 'a chan =
  ch_buf :: "'a list"
  ch_cap :: nat
  ch_closed :: bool

definition make_chan :: "nat \<Rightarrow> 'a chan" where
  "make_chan n = \<lparr>ch_buf = [], ch_cap = n, ch_closed = False\<rparr>"

text \<open>
  A send on a closed channel panics, on a full one waits. A receive takes the oldest element,
  reports \<open>None\<close> (\<open>ok == false\<close>) on a closed, drained channel, and waits on an empty open one.
\<close>

definition chan_send :: "'a chan \<Rightarrow> 'a \<Rightarrow> 'a chan go" where
  "chan_send c x =
     (if ch_closed c then Panic SendOnClosed
      else if length (ch_buf c) < ch_cap c then Ok (c\<lparr>ch_buf := ch_buf c @ [x]\<rparr>)
      else Blocked)"

definition chan_recv :: "'a chan \<Rightarrow> ('a option \<times> 'a chan) go" where
  "chan_recv c = (case ch_buf c of
       x # xs \<Rightarrow> Ok (Some x, c\<lparr>ch_buf := xs\<rparr>)
     | [] \<Rightarrow> if ch_closed c then Ok (None, c) else Blocked)"

definition chan_close :: "'a chan \<Rightarrow> 'a chan go" where
  "chan_close c = (if ch_closed c then Panic CloseOfClosed else Ok (c\<lparr>ch_closed := True\<rparr>))"

lemma chan_send_Ok [go_simps]:
  "chan_send c x = Ok c' \<longleftrightarrow>
     \<not> ch_closed c \<and> length (ch_buf c) < ch_cap c \<and> c' = c\<lparr>ch_buf := ch_buf c @ [x]\<rparr>"
  by (auto simp: chan_send_def)

lemma chan_close_Ok [go_simps]:
  "chan_close c = Ok c' \<longleftrightarrow> \<not> ch_closed c \<and> c' = c\<lparr>ch_closed := True\<rparr>"
  by (auto simp: chan_close_def)

subsection \<open>Sequence numbers modulo \<open>2 ^ 16\<close>\<close>

lemma unat_u16_less [simp]: "unat (s :: u16) < 65536"
  using unsigned_less [of s, where 'a = nat] by simp

lemma unat_u16_minus:
  "unat (a - b :: u16) = (if unat b \<le> unat a then unat a - unat b else 65536 + unat a - unat b)"
  by (auto simp: unat_sub_if_size word_size)

lemma u16_of_nat_unat_minus [simp]: "(b :: u16) + word_of_nat (unat (a - b)) = a"
  by simp

lemma unat_of_nat_u16: "n < 65536 \<Longrightarrow> unat (word_of_nat n :: u16) = n"
  by (simp add: unat_of_nat)

end
