(* ===== verification/Array_List.thy ===== *)
theory Array_List
  imports Go_Prelude
begin

text \<open>
  The interface of \<open>github.com/emirpasic/gods/lists/arraylist\<close>, which the repository imports and
  does not contain. Its operations are a parameter of the model: a record of functions on an
  unknown type \<open>'l\<close> of lists. An element is an \<open>interface{}\<close> that is \<open>nil\<close> (\<open>None\<close>) or a pointer
  (\<open>Some\<close>). The locale states the documented behaviour of the package through its own \<open>Values\<close>
  method; the model's lemmas about the packet queue and the writer list rest on these laws only.
\<close>

record ('e, 'l) arraylist_ops =
  al_New :: 'l
  al_Values :: "'l \<Rightarrow> 'e option list"
  al_Size :: "'l \<Rightarrow> int"
  al_Get :: "'l \<Rightarrow> int \<Rightarrow> 'e option \<times> bool"
  al_Set :: "'l \<Rightarrow> int \<Rightarrow> 'e option \<Rightarrow> 'l"
  al_Add :: "'l \<Rightarrow> 'e option \<Rightarrow> 'l"
  al_Remove :: "'l \<Rightarrow> int \<Rightarrow> 'l"

definition list_set :: "'a list \<Rightarrow> int \<Rightarrow> 'a \<Rightarrow> 'a list" where
  "list_set xs i x =
     (if 0 \<le> i \<and> i < int (length xs) then xs[nat i := x]
      else if i = int (length xs) then xs @ [x] else xs)"

definition list_remove :: "'a list \<Rightarrow> int \<Rightarrow> 'a list" where
  "list_remove xs i =
     (if 0 \<le> i \<and> i < int (length xs) then take (nat i) xs @ drop (Suc (nat i)) xs else xs)"

text \<open>
  Documented behaviour: \<open>Get\<close> reports \<open>(nil, false)\<close> outside the bounds; \<open>Set\<close> does nothing
  outside the bounds, except that a position equal to the size appends; \<open>Remove\<close> does nothing
  outside the bounds; \<open>Add\<close> appends.
\<close>

locale arraylist =
  fixes al :: "('e, 'l) arraylist_ops"
  assumes values_new: "al_Values al (al_New al) = []"
    and size: "al_Size al l = int (length (al_Values al l))"
    and get: "al_Get al l i =
      (if 0 \<le> i \<and> i < int (length (al_Values al l)) then (al_Values al l ! nat i, True)
       else (None, False))"
    and values_set: "al_Values al (al_Set al l i x) = list_set (al_Values al l) i x"
    and values_add: "al_Values al (al_Add al l x) = al_Values al l @ [x]"
    and values_remove: "al_Values al (al_Remove al l i) = list_remove (al_Values al l) i"
begin

lemma get_0 [simp]:
  "al_Get al l 0 = (case al_Values al l of [] \<Rightarrow> (None, False) | x # _ \<Rightarrow> (x, True))"
  by (simp add: get split: list.splits)

lemma fst_get_0: "fst (al_Get al l 0) = (case al_Values al l of [] \<Rightarrow> None | x # _ \<Rightarrow> x)"
  by (cases "al_Values al l") simp_all

lemma get_nat:
  "al_Get al l (int i) =
     (if i < length (al_Values al l) then (al_Values al l ! i, True) else (None, False))"
  by (simp add: get)

lemma remove_0 [simp]: "al_Values al (al_Remove al l 0) = tl (al_Values al l)"
  by (cases "al_Values al l") (simp_all add: values_remove list_remove_def)

lemmas al_laws = values_new size values_set values_add values_remove

end

text \<open>
  An array list over HOL lists. It shows that the documented laws are consistent, and the
  witnesses of the development run on it.
\<close>

definition slice_al :: "('e, 'e option list) arraylist_ops" where
  "slice_al =
     \<lparr>al_New = [], al_Values = (\<lambda>l. l), al_Size = (\<lambda>l. int (length l)),
      al_Get = (\<lambda>l i. if 0 \<le> i \<and> i < int (length l) then (l ! nat i, True) else (None, False)),
      al_Set = list_set, al_Add = (\<lambda>l x. l @ [x]), al_Remove = list_remove\<rparr>"

lemma slice_al_simps [simp]:
  "al_New slice_al = []" "al_Values slice_al l = l" "al_Size slice_al l = int (length l)"
  "al_Set slice_al l i x = list_set l i x" "al_Add slice_al l x = l @ [x]"
  "al_Remove slice_al l i = list_remove l i"
  "al_Get slice_al l i =
     (if 0 \<le> i \<and> i < int (length l) then (l ! nat i, True) else (None, False))"
  by (simp_all add: slice_al_def)

interpretation sal: arraylist slice_al
  by unfold_locales simp_all

lemma arraylist_slice_al: "arraylist slice_al"
  by (rule sal.arraylist_axioms)

lemma length_list_set:
  "length (list_set xs i x) = (if i = int (length xs) then Suc (length xs) else length xs)"
  by (auto simp: list_set_def)

lemma list_set_nat:
  "i < length xs \<Longrightarrow> list_set xs (int i) x = xs[i := x]"
  "list_set xs (int (length xs)) x = xs @ [x]"
  by (simp_all add: list_set_def)

end
