(* ===== verification/Config.thy ===== *)
theory Config
  imports Complex_Main Go_Prelude
begin

text \<open>
  The configuration of \<open>src/configure/config.go\<close>: the \<open>Config\<close> structure, its compiled-in default
  \<open>Conf\<close> and the bound of the UDP receive buffer. The simulated loss rate is a fraction.
\<close>

definition MAX_UDP_CACHE_SIZE :: int where
  "MAX_UDP_CACHE_SIZE = 1024 * 1024 * 50"

record Config =
  h_flag :: bool
  UDP_SOCKET_ADDR :: string
  API_ADDR :: string
  QUIC_ADDR :: string
  RTP_QUEUE_PADDING_WINDOW_SIZE :: int
  DISABLE_QUIC :: bool
  RTP_QUEUE_CHAN_SIZE :: int
  RECORD_DIR :: string
  PACKET_LOSS_RATE :: rat
  HTTP_FLV_ADDR :: string
  ENABLE_HLS :: bool
  HLS_ADDR :: string
  ENABLE_RECORD :: bool
  CERT_FILE :: string
  KEY_FILE :: string
  INIT :: bool
  LOG_LEVEL :: string
  ENABLE_LOG_FILE :: bool
  CLOUD_HOST :: string
  PROTECT :: bool

definition Conf :: Config where
  "Conf = \<lparr>h_flag = False, UDP_SOCKET_ADDR = ''239.0.0.1:5222'', API_ADDR = '':8090'',
     QUIC_ADDR = '':4242'', RTP_QUEUE_PADDING_WINDOW_SIZE = 100, DISABLE_QUIC = False,
     RTP_QUEUE_CHAN_SIZE = 100, RECORD_DIR = ''./record'', PACKET_LOSS_RATE = 1 / 1000,
     HTTP_FLV_ADDR = '':7001'', ENABLE_HLS = False, HLS_ADDR = '':7002'', ENABLE_RECORD = False,
     CERT_FILE = ''certs/server.crt'', KEY_FILE = ''certs/server1.key'', INIT = False,
     LOG_LEVEL = '''', ENABLE_LOG_FILE = False, CLOUD_HOST = '''', PROTECT = True\<rparr>"

end
