(* ===== verification/Rtp.thy ===== *)
theory Rtp
  imports Go_Prelude
begin

text \<open>
  RTP packets (\<open>src/container/rtp\<close>) and their parser (\<open>src/parser/rtp/rtp.go\<close>). The parser is
  modelled on Go slices, with every index, re-slice and integer read as a step that may panic;
  the lemmas show that none of them ever does, and what the parser returns.
\<close>

definition RTP_FIXED_HEADER_LENGTH :: nat where
  "RTP_FIXED_HEADER_LENGTH = 12"

record RtpPack =
  Version :: byte
  Padding :: bool
  Extension :: bool
  CSRCCnt :: byte
  Marker :: byte
  PayloadType :: byte
  SequenceNumber :: u16
  Timestamp :: u32
  SSRC :: u32
  Payload :: slice
  PayloadOffset :: nat

text \<open>\<open>RealData\<close>: every payload type leads to the empty buffer.\<close>

definition RealData :: "RtpPack \<Rightarrow> slice" where
  "RealData rtp = (let buff = make_bytes 0 in
     if PayloadType rtp = 96 then buff
     else if PayloadType rtp = 97 then buff
     else if PayloadType rtp = 98 then buff
     else buff)"

subsection \<open>The parser\<close>

text \<open>The offsets in the order the code computes them: CSRC list, extension, padding.\<close>

definition skip_csrc :: "byte \<Rightarrow> nat \<Rightarrow> nat \<Rightarrow> nat" where
  "skip_csrc cc offset end =
     (if end - offset \<ge> 4 * unat cc then offset + 4 * unat cc else offset)"

definition skip_extension :: "slice \<Rightarrow> bool \<Rightarrow> nat \<Rightarrow> nat \<Rightarrow> nat go" where
  "skip_extension rtpBytes ext offset end =
     (if ext \<and> end - offset \<ge> 4 then
        andthen (sl_from rtpBytes (offset + 2)) (\<lambda>t.
        andthen (Uint16 t) (\<lambda>words.
          let extLen = 4 * unat words; offset = offset + 4 in
          Ok (if end - offset \<ge> extLen then offset + extLen else offset)))
      else Ok offset)"

definition strip_padding :: "slice \<Rightarrow> bool \<Rightarrow> nat \<Rightarrow> nat \<Rightarrow> nat go" where
  "strip_padding rtpBytes padding offset end =
     (if padding \<and> end - offset > 0 then
        andthen (sl_index rtpBytes (end - 1)) (\<lambda>b.
          let paddingLen = unat b in
          Ok (if end - offset \<ge> paddingLen then end - paddingLen else end))
      else Ok end)"

definition Parse :: "slice \<Rightarrow> RtpPack option go" where
  "Parse rtpBytes =
     (if sl_len rtpBytes < RTP_FIXED_HEADER_LENGTH then Ok None else
      andthen (sl_index rtpBytes 0) (\<lambda>firstByte.
      andthen (sl_index rtpBytes 1) (\<lambda>secondByte.
      andthen (andthen (sl_from rtpBytes 2) Uint16) (\<lambda>seq.
      andthen (andthen (sl_from rtpBytes 4) Uint32) (\<lambda>ts.
      andthen (andthen (sl_from rtpBytes 8) Uint32) (\<lambda>ssrc.
      let cc = firstByte AND 15;
          ext = (drop_bit 4 firstByte AND 1 = 1);
          pad = (drop_bit 5 firstByte AND 1 = 1);
          end = sl_len rtpBytes;
          offset = skip_csrc cc RTP_FIXED_HEADER_LENGTH end
      in andthen (skip_extension rtpBytes ext offset end) (\<lambda>offset.
         andthen (strip_padding rtpBytes pad offset end) (\<lambda>end.
         andthen (sl_slice rtpBytes offset end) (\<lambda>payload.
           if end - offset < 1 then Ok None
           else Ok (Some \<lparr>Version = drop_bit 6 firstByte, Padding = pad, Extension = ext,
             CSRCCnt = cc, Marker = drop_bit 7 secondByte, PayloadType = secondByte AND 127,
             SequenceNumber = seq, Timestamp = ts, SSRC = ssrc,
             Payload = payload, PayloadOffset = offset\<rparr>))))))))))"

lemma csrc_le: "12 \<le> n \<Longrightarrow> 12 \<le> skip_csrc cc 12 n \<and> skip_csrc cc 12 n \<le> n"
  by (auto simp: skip_csrc_def)

lemma skip_extension_bound:
  assumes "slice_ok s" "offset \<le> sl_len s"
  shows "\<exists>offset'. skip_extension s ext offset (sl_len s) = Ok offset'
    \<and> offset \<le> offset' \<and> offset' \<le> sl_len s"
  using assms
  by (auto simp: skip_extension_def sl_from_def sl_slice_def Uint16_def slice_ok_def Let_def)

lemma strip_padding_bound:
  assumes "offset \<le> end" "end \<le> sl_len s"
  shows "\<exists>end'. strip_padding s pad offset end = Ok end' \<and> offset \<le> end' \<and> end' \<le> end"
  using assms by (auto simp: strip_padding_def sl_index_def Let_def)

subsection \<open>What the parser returns\<close>

text \<open>
  Reading of the fixed header as a function of the input bytes, for packets long enough to have
  one.
\<close>

definition header_of :: "byte list \<Rightarrow> slice \<Rightarrow> nat \<Rightarrow> RtpPack" where
  "header_of bs payload offset =
     \<lparr>Version = drop_bit 6 (bs ! 0), Padding = (drop_bit 5 (bs ! 0) AND 1 = 1),
      Extension = (drop_bit 4 (bs ! 0) AND 1 = 1), CSRCCnt = bs ! 0 AND 15,
      Marker = drop_bit 7 (bs ! 1), PayloadType = bs ! 1 AND 127,
      SequenceNumber = be16 (bs ! 2) (bs ! 3), Timestamp = be32 (bs ! 4) (bs ! 5) (bs ! 6) (bs ! 7),
      SSRC = be32 (bs ! 8) (bs ! 9) (bs ! 10) (bs ! 11), Payload = payload, PayloadOffset = offset\<rparr>"

lemma Uint_from:
  assumes "slice_ok s"
  shows "i + 2 \<le> sl_len s \<Longrightarrow>
      andthen (sl_from s i) Uint16 = Ok (be16 (bytes s ! i) (bytes s ! (i + 1)))"
    and "i + 4 \<le> sl_len s \<Longrightarrow> andthen (sl_from s i) Uint32
      = Ok (be32 (bytes s ! i) (bytes s ! (i + 1)) (bytes s ! (i + 2)) (bytes s ! (i + 3)))"
  using assms
  by (auto simp: sl_from_def sl_slice_def Uint16_def Uint32_def slice_ok_def bytes_def
      add.commute)

lemma Parse_short: "sl_len s < 12 \<Longrightarrow> Parse s = Ok None"
  by (simp add: Parse_def RTP_FIXED_HEADER_LENGTH_def)

lemma Parse_long:
  assumes ok: "slice_ok s" and len: "12 \<le> sl_len s"
  shows "Parse s =
    andthen (skip_extension s (drop_bit 4 (bytes s ! 0) AND 1 = 1)
              (skip_csrc (bytes s ! 0 AND 15) 12 (sl_len s)) (sl_len s)) (\<lambda>offset.
    andthen (strip_padding s (drop_bit 5 (bytes s ! 0) AND 1 = 1) offset (sl_len s)) (\<lambda>end.
    andthen (sl_slice s offset end) (\<lambda>payload.
      Ok (if end - offset < 1 then None else Some (header_of (bytes s) payload offset)))))"
  using assms
  by (simp add: Parse_def RTP_FIXED_HEADER_LENGTH_def sl_index_Ok Uint_from Let_def header_of_def
      if_distrib [of Ok] cong: if_cong)

lemma Parse_cases:
  assumes ok: "slice_ok s"
  obtains (none) "Parse s = Ok None"
  | (pack) payload offset where "Parse s = Ok (Some (header_of (bytes s) payload offset))"
      "12 \<le> offset" "offset < sl_len s" "slice_ok payload" "0 < sl_len payload"
      "offset + sl_len payload \<le> sl_len s"
      "bytes payload = take (sl_len payload) (drop offset (bytes s))"
proof (cases "sl_len s < 12")
  case True
  then show ?thesis by (simp add: Parse_short none)
next
  case False
  let ?o = "skip_csrc (bytes s ! 0 AND 15) 12 (sl_len s)"
  from False have o: "12 \<le> ?o" "?o \<le> sl_len s"
    using csrc_le by simp_all
  obtain off where off: "skip_extension s (drop_bit 4 (bytes s ! 0) AND 1 = 1) ?o (sl_len s) = Ok off"
      "?o \<le> off" "off \<le> sl_len s"
    using skip_extension_bound [OF ok o(2)] by blast
  obtain e where e: "strip_padding s (drop_bit 5 (bytes s ! 0) AND 1 = 1) off (sl_len s) = Ok e"
      "off \<le> e" "e \<le> sl_len s"
    using strip_padding_bound [OF off(3) order_refl] by blast
  obtain t where t: "sl_slice s off e = Ok t" "slice_ok t" "sl_len t = e - off"
      "bytes t = take (e - off) (drop off (bytes s))"
    using sl_slice_bytes [OF ok e(2,3)] by blast
  have "Parse s = Ok (if e - off < 1 then None else Some (header_of (bytes s) t off))"
    using False off e t by (simp add: Parse_long [OF ok])
  with pack [of t off] none o off e t show ?thesis
    by (cases "e - off < 1") auto
qed

lemma Parse_total: "slice_ok s \<Longrightarrow> \<exists>r. Parse s = Ok r"
  by (erule Parse_cases) auto

subsection \<open>Packets as RFC 3550 lays them out\<close>

text \<open>
  The sender's side of the format, as a specification: version, padding and extension flags and
  CSRC count in the first octet, marker and payload type in the second, then sequence number,
  time stamp, SSRC, the CSRC list, an optional extension (profile word, length in 32-bit words,
  data), the payload, and padding octets of which the last holds their number.
\<close>

definition octet0 :: "byte \<Rightarrow> bool \<Rightarrow> bool \<Rightarrow> byte \<Rightarrow> byte" where
  "octet0 v p x cc = push_bit 6 v OR (if p then 32 else 0) OR (if x then 16 else 0) OR (cc AND 15)"

definition octet1 :: "bool \<Rightarrow> byte \<Rightarrow> byte" where
  "octet1 m pt = (if m then 128 else 0) OR (pt AND 127)"

definition words_wire :: "u32 list \<Rightarrow> byte list" where
  "words_wire ws = concat (map put32 ws)"

definition ext_wire :: "(u16 \<times> u32 list) option \<Rightarrow> byte list" where
  "ext_wire x = (case x of None \<Rightarrow> []
     | Some (profile, ws) \<Rightarrow> put16 profile @ put16 (word_of_nat (length ws)) @ words_wire ws)"

definition pad_wire :: "nat \<Rightarrow> byte list" where
  "pad_wire n = (if n = 0 then [] else replicate (n - 1) 0 @ [word_of_nat n])"

definition rtp_wire :: "byte \<Rightarrow> bool \<Rightarrow> byte \<Rightarrow> u16 \<Rightarrow> u32 \<Rightarrow> u32 \<Rightarrow> u32 list
    \<Rightarrow> (u16 \<times> u32 list) option \<Rightarrow> byte list \<Rightarrow> nat \<Rightarrow> byte list" where
  "rtp_wire v m pt seq ts ssrc csrcs x payload n =
     [octet0 v (n \<noteq> 0) (x \<noteq> None) (word_of_nat (length csrcs)), octet1 m pt]
     @ put16 seq @ put32 ts @ put32 ssrc @ words_wire csrcs @ ext_wire x @ payload @ pad_wire n"

lemma byte_eq_iff_bits:
  "(x :: byte) = y \<longleftrightarrow> (\<forall>n\<in>{0, 1, 2, 3, 4, 5, 6, 7}. bit x n = bit y n)"
proof
  assume *: "\<forall>n\<in>{0, 1, 2, 3, 4, 5, 6, 7}. bit x n = bit y n"
  show "x = y"
  proof (rule bit_word_eqI)
    fix n
    assume "n < LENGTH(8)"
    then have "n \<in> {0, 1, 2, 3, 4, 5, 6, 7}" by auto
    with * show "bit x n = bit y n" by blast
  qed
qed simp

lemma octet0_fields [wire]:
  "drop_bit 6 (octet0 v p x cc) = v AND 3"
  "drop_bit 5 (octet0 v p x cc) AND 1 = 1 \<longleftrightarrow> p"
  "drop_bit 4 (octet0 v p x cc) AND 1 = 1 \<longleftrightarrow> x"
  "octet0 v p x cc AND 15 = cc AND 15"
  by (simp_all add: byte_eq_iff_bits octet0_def bit_simps)

lemma octet1_fields [wire]:
  "drop_bit 7 (octet1 m pt) = (if m then 1 else 0)"
  "octet1 m pt AND 127 = pt AND 127"
  by (simp_all add: byte_eq_iff_bits octet1_def bit_simps)

lemma length_wires [simp]:
  "length (words_wire ws) = 4 * length ws" "length (pad_wire n) = n"
  by (induction ws) (simp_all add: words_wire_def pad_wire_def)

lemma unat_low4: "k < 16 \<Longrightarrow> unat (word_of_nat k AND 15 :: byte) = k"
proof -
  assume "k < 16"
  have "(15 :: nat) = mask 4" by (simp add: mask_eq_exp_minus_1)
  then have "k AND 15 = take_bit 4 k" by (simp only: take_bit_eq_mask)
  with \<open>k < 16\<close> show ?thesis
    by (simp add: unsigned_and_eq take_bit_nat_eq_self unat_of_nat)
qed

lemma skip_csrc_wire:
  assumes "k < 16" "12 + 4 * k \<le> end"
  shows "skip_csrc (word_of_nat k AND 15) 12 end = 12 + 4 * k"
  using assms by (simp add: skip_csrc_def unat_low4)

lemma skip_extension_wire:
  assumes "\<And>profile ws. x = Some (profile, ws) \<Longrightarrow> length ws < 65536"
  shows "skip_extension (of_bytes (pre @ ext_wire x @ post)) (x \<noteq> None) (length pre)
           (length pre + length (ext_wire x) + length post) = Ok (length pre + length (ext_wire x))"
proof (cases x)
  case None
  then show ?thesis by (simp add: skip_extension_def ext_wire_def)
next
  case (Some pd)
  obtain profile ws where pd: "pd = (profile, ws)" by (cases pd)
  with assms Some have "unat (word_of_nat (length ws) :: u16) = length ws"
    by (intro unat_of_nat_u16) simp
  with Some pd show ?thesis
    by (simp add: skip_extension_def ext_wire_def sl_from_def sl_slice_def Uint16_def put16_def
        nth_append be16_put16 [of "word_of_nat (length ws)", unfolded of_nat_add] Let_def)
qed

lemma strip_padding_wire:
  assumes "n < 256" "offset \<le> length pre"
  shows "strip_padding (of_bytes (pre @ pad_wire n)) (n \<noteq> 0) offset (length pre + n)
           = Ok (length pre)"
proof (cases "n = 0")
  case False
  then have "(pre @ pad_wire n) ! (length pre + n - 1) = word_of_nat n"
    by (cases n) (simp_all add: pad_wire_def nth_append)
  with False assms show ?thesis
    by (simp add: strip_padding_def sl_index_def unat_of_nat Let_def)
qed (simp add: strip_padding_def)

lemma Parse_rtp_wire:
  fixes v pt :: byte and m :: bool and seq :: u16 and ts ssrc :: u32
  assumes cc: "length csrcs < 16"
    and ext: "\<And>profile ws. x = Some (profile, ws) \<Longrightarrow> length ws < 65536"
    and pl: "payload \<noteq> []" and n: "n < 256"
  defines "bs \<equiv> rtp_wire v m pt seq ts ssrc csrcs x payload n"
    and "off \<equiv> 12 + 4 * length csrcs + length (ext_wire x)"
  shows "\<exists>p. Parse (of_bytes bs) = Ok (Some (header_of bs p off)) \<and> bytes p = payload"
proof -
  define pre where "pre = [octet0 v (n \<noteq> 0) (x \<noteq> None) (word_of_nat (length csrcs)), octet1 m pt]
     @ put16 seq @ put32 ts @ put32 ssrc @ words_wire csrcs"
  have split: "bs = pre @ ext_wire x @ (payload @ pad_wire n)" "length pre = 12 + 4 * length csrcs"
    by (simp_all add: bs_def rtp_wire_def pre_def)
  have len: "length bs = off + length payload + n"
    by (simp add: split off_def)
  have hd: "bs ! 0 = octet0 v (n \<noteq> 0) (x \<noteq> None) (word_of_nat (length csrcs))"
    by (simp add: bs_def rtp_wire_def)
  have "skip_csrc (bs ! 0 AND 15) 12 (length bs) = 12 + 4 * length csrcs"
    unfolding hd octet0_fields using cc len by (intro skip_csrc_wire) (simp_all add: off_def)
  moreover have "skip_extension (of_bytes bs) (drop_bit 4 (bs ! 0) AND 1 = 1)
      (12 + 4 * length csrcs) (length bs) = Ok off"
    using skip_extension_wire [where x = x and pre = pre and post = "payload @ pad_wire n"] ext split len
    unfolding hd octet0_fields by (simp add: off_def add.assoc)
  moreover have "strip_padding (of_bytes bs) (drop_bit 5 (bs ! 0) AND 1 = 1) off (length bs)
      = Ok (off + length payload)"
    using strip_padding_wire [OF n, of off "pre @ ext_wire x @ payload"] split len
    unfolding hd octet0_fields by (simp add: off_def add.assoc)
  moreover obtain t where "sl_slice (of_bytes bs) off (off + length payload) = Ok t"
      "bytes t = take (length payload) (drop off bs)"
    using sl_slice_bytes [of "of_bytes bs" off "off + length payload"] len by auto
  moreover have "take (length payload) (drop off bs) = payload"
    by (simp add: off_def split)
  ultimately show ?thesis
    using len pl by (intro exI [of _ t]) (simp add: Parse_long off_def)
qed

subsection \<open>Properties\<close>

text \<open>
  C33: The RTP parser is total and reads only its input. On any slice it returns without a panic,
  either rejecting the packet or with every header field read from its place in the first twelve
  bytes and a non-empty payload that is a contiguous part of the input behind them.
\<close>

theorem parse_safe:
  assumes "slice_ok s"
  shows "Parse s = Ok None \<or> (\<exists>payload offset.
    Parse s = Ok (Some (header_of (bytes s) payload offset)) \<and> 12 \<le> offset \<and> 0 < sl_len payload
    \<and> offset + sl_len payload \<le> sl_len s \<and> bytes payload = take (sl_len payload) (drop offset (bytes s)))"
  using assms by (cases rule: Parse_cases) auto

theorem parse_safe_witness:
  "\<exists>payload offset. Parse (of_bytes (rtp_wire 2 True 97 1000 0 7 [] None [1, 2, 3] 0))
     = Ok (Some (header_of (rtp_wire 2 True 97 1000 0 7 [] None [1, 2, 3] 0) payload offset)) \<and> 12 \<le> offset"
proof -
  have "Parse (of_bytes (rtp_wire 2 True 97 1000 0 7 [] None [1, 2, 3] 0)) \<noteq> Ok None"
    using Parse_rtp_wire [of "[]" None "[1, 2, 3]" 0 2 True 97 1000 0 7] by auto
  then show ?thesis
    using parse_safe [of "of_bytes (rtp_wire 2 True 97 1000 0 7 [] None [1, 2, 3] 0)"] by auto
qed

text \<open>
  C23: Round trip with RFC 3550. For every packet a sender can lay out, with up to fifteen
  contributing sources, an optional header extension, a non-empty payload and up to 255 padding
  octets, parsing the octets gives back the version, marker, payload type, sequence number, time
  stamp, SSRC and payload.
\<close>

theorem parse_roundtrip:
  fixes v pt :: byte and seq :: u16 and ts ssrc :: u32
  assumes "length csrcs < 16" "\<forall>profile ws. x = Some (profile, ws) \<longrightarrow> length ws < 65536"
    and "payload \<noteq> []" "n < 256"
  shows "\<exists>r. Parse (of_bytes (rtp_wire v m pt seq ts ssrc csrcs x payload n)) = Ok (Some r)
    \<and> Version r = v AND 3 \<and> Marker r = (if m then 1 else 0) \<and> PayloadType r = pt AND 127
    \<and> SequenceNumber r = seq \<and> Timestamp r = ts \<and> SSRC r = ssrc
    \<and> CSRCCnt r = word_of_nat (length csrcs) AND 15 \<and> Padding r = (n \<noteq> 0) \<and> Extension r = (x \<noteq> None)
    \<and> bytes (Payload r) = payload"
proof -
  let ?bs = "rtp_wire v m pt seq ts ssrc csrcs x payload n"
  obtain p where p: "Parse (of_bytes ?bs)
      = Ok (Some (header_of ?bs p (12 + 4 * length csrcs + length (ext_wire x))))" "bytes p = payload"
    using Parse_rtp_wire [of csrcs x payload n v m pt seq ts ssrc] assms by blast
  have "?bs ! 0 = octet0 v (n \<noteq> 0) (x \<noteq> None) (word_of_nat (length csrcs))" "?bs ! 1 = octet1 m pt"
      "be16 (?bs ! 2) (?bs ! 3) = seq" "be32 (?bs ! 4) (?bs ! 5) (?bs ! 6) (?bs ! 7) = ts"
      "be32 (?bs ! 8) (?bs ! 9) (?bs ! 10) (?bs ! 11) = ssrc"
    by (simp_all add: rtp_wire_def put16_def put32_def be16_put16 be32_put32)
  with p show ?thesis
    by (simp add: header_of_def octet0_fields octet1_fields)
qed

theorem parse_roundtrip_witness:
  "\<exists>r. Parse (of_bytes (rtp_wire 2 True 97 1000 90000 7 [11, 12] (Some (48862, [1])) [1, 2, 3] 4)) = Ok (Some r)
     \<and> SequenceNumber r = 1000 \<and> bytes (Payload r) = [1, 2, 3]"
  using parse_roundtrip [of "[11, 12]" "Some (48862, [1])" "[1, 2, 3]" 4 2 True 97 1000 90000 7] by fastforce

end
