(* ===== verification/Quic_Client.thy ===== *)
theory Quic_Client
  imports Config Rtp
begin

text \<open>
  Retransmission over QUIC (\<open>src/protocol/quic/conn.go\<close>, \<open>quic_client.go\<close>). The QUIC library
  \<open>github.com/quic-go/quic-go\<close> and the cloud node behind it are not part of the repository: the
  operations the client calls are a record of functions on an unknown network state \<open>'w\<close>.
  Sessions and streams are handles.
\<close>

record 'w quic_go =
  DialAddr :: "string \<Rightarrow> 'w \<Rightarrow> (string + nat) \<times> 'w"
  OpenStream :: "nat \<Rightarrow> 'w \<Rightarrow> (string + nat) \<times> 'w"
  AcceptStream :: "nat \<Rightarrow> 'w \<Rightarrow> (string + nat) \<times> 'w"
  StreamRead :: "nat \<Rightarrow> nat \<Rightarrow> 'w \<Rightarrow> (byte list \<times> string option) \<times> 'w"
  StreamWrite :: "nat \<Rightarrow> byte list \<Rightarrow> 'w \<Rightarrow> string option \<times> 'w"
  StreamClose :: "nat \<Rightarrow> 'w \<Rightarrow> string option \<times> 'w"

record Conn =
  Connection :: nat
  infoStream :: "nat option"
  dataStream :: "nat option"

text \<open>The package variable \<open>QuicConn\<close> and the network.\<close>

record 'w quic_state =
  QuicConn :: "Conn option"
  net :: 'w

subsection \<open>Connections\<close>

definition newConn :: "'w quic_go \<Rightarrow> nat \<Rightarrow> 'w \<Rightarrow> (string + Conn) \<times> 'w" where
  "newConn qg sess n = (case OpenStream qg sess n of
       (Inl e, n) \<Rightarrow> (Inl e, n)
     | (Inr s, n) \<Rightarrow> (Inr \<lparr>Connection = sess, infoStream = Some s, dataStream = None\<rparr>, n))"

text \<open>What a buffer of \<open>k\<close> zero bytes holds after a read that delivered \<open>bs\<close>.\<close>

definition read_into :: "nat \<Rightarrow> byte list \<Rightarrow> byte list" where
  "read_into k bs = take k bs @ replicate (k - length bs) 0"

definition ReadLen :: "'w quic_go \<Rightarrow> Conn \<Rightarrow> 'w \<Rightarrow> (Conn \<times> (string + u16) \<times> 'w) go" where
  "ReadLen qg c n =
     (case (if infoStream c = None then
              (case AcceptStream qg (Connection c) n of
                 (Inl e, n) \<Rightarrow> (Some e, c, n)
               | (Inr s, n) \<Rightarrow> (None, c\<lparr>dataStream := Some s\<rparr>, n))
            else (None, c, n)) of
       (Some e, c, n) \<Rightarrow> Ok (c, Inl e, n)
     | (None, c, n) \<Rightarrow>
       (case infoStream c of
          None \<Rightarrow> Panic NilDeref
        | Some s \<Rightarrow>
          (case StreamRead qg s 2 n of
             ((bs, Some e), n) \<Rightarrow> Ok (c, Inl e, n)
           | ((bs, None), n) \<Rightarrow>
             andthen (Uint16 (of_bytes (read_into 2 bs))) (\<lambda>len. Ok (c, Inr len, n)))))"

text \<open>The packet pointer that \<open>ReadRtp\<close> fills is the second component on success.\<close>

definition ReadRtp :: "'w quic_go \<Rightarrow> Conn \<Rightarrow> 'w \<Rightarrow> (Conn \<times> (string + RtpPack option) \<times> 'w) go" where
  "ReadRtp qg c n =
     (case (if dataStream c = None then
              (case AcceptStream qg (Connection c) n of
                 (Inl e, n) \<Rightarrow> (Some e, c, n)
               | (Inr s, n) \<Rightarrow> (None, c\<lparr>dataStream := Some s\<rparr>, n))
            else (None, c, n)) of
       (Some e, c, n) \<Rightarrow> Ok (c, Inl e, n)
     | (None, c, n) \<Rightarrow>
       andthen (ReadLen qg c n) (\<lambda>(c, len, n).
         case len of
           Inl e \<Rightarrow> Ok (c, Inl e, n)
         | Inr k \<Rightarrow>
           if k = 0 then Ok (c, Inl ''RtpCacheNotFound'', n)
           else (case dataStream c of
             None \<Rightarrow> Panic NilDeref
           | Some s \<Rightarrow>
             (case StreamRead qg s (unat k) n of
                ((bs, Some e), n) \<Rightarrow> Panic (Explicit e)
              | ((bs, None), n) \<Rightarrow>
                andthen (Parse (of_bytes (read_into (unat k) bs))) (\<lambda>pkt.
                  Ok (c, Inr pkt, n))))))"

definition stream_put :: "'w quic_go \<Rightarrow> Conn \<Rightarrow> byte list \<Rightarrow> 'w \<Rightarrow> (string option \<times> 'w) go" where
  "stream_put qg c bs n = (case infoStream c of
     None \<Rightarrow> Panic NilDeref | Some s \<Rightarrow> Ok (StreamWrite qg s bs n))"

definition WriteSeq :: "'w quic_go \<Rightarrow> Conn \<Rightarrow> u16 \<Rightarrow> 'w \<Rightarrow> (string option \<times> 'w) go" where
  "WriteSeq qg c seq n = stream_put qg c (put16 seq) n"

definition WriteSsrc :: "'w quic_go \<Rightarrow> Conn \<Rightarrow> u32 \<Rightarrow> 'w \<Rightarrow> (string option \<times> 'w) go" where
  "WriteSsrc qg c ssrc n = stream_put qg c (put32 ssrc) n"

subsection \<open>The client\<close>

text \<open>
  A failed dial panics. A failed \<open>OpenStream\<close> makes \<open>newConn\<close> return a nil connection, whose error
  \<open>initQuic\<close> ignores.
\<close>

definition initQuic :: "'w quic_go \<Rightarrow> Config \<Rightarrow> 'w \<Rightarrow> (Conn option \<times> 'w) go" where
  "initQuic qg cfg n = (case DialAddr qg (CLOUD_HOST cfg @ QUIC_ADDR cfg) n of
       (Inl e, n) \<Rightarrow> Panic (Explicit e)
     | (Inr sess, n) \<Rightarrow> (case newConn qg sess n of
         (Inl e, n) \<Rightarrow> Ok (None, n) | (Inr c, n) \<Rightarrow> Ok (Some c, n)))"

definition nonnil :: "'a option \<Rightarrow> 'a go" where
  "nonnil x = (case x of None \<Rightarrow> Panic NilDeref | Some c \<Rightarrow> Ok c)"

definition CloseQuic :: "'w quic_go \<Rightarrow> 'w quic_state \<Rightarrow> 'w quic_state go" where
  "CloseQuic qg st = (case QuicConn st of
       None \<Rightarrow> Ok st
     | Some c \<Rightarrow>
       andthen (case dataStream c of None \<Rightarrow> Ok (net st)
         | Some s \<Rightarrow> (case StreamClose qg s (net st) of (err, n) \<Rightarrow>
             (case err of None \<Rightarrow> Ok n | Some e \<Rightarrow> Panic (Explicit e)))) (\<lambda>n.
       andthen (case infoStream c of None \<Rightarrow> Ok n
         | Some s \<Rightarrow> (case StreamClose qg s n of (err, n) \<Rightarrow>
             (case err of None \<Rightarrow> Ok n | Some e \<Rightarrow> Panic (Explicit e)))) (\<lambda>n.
       Ok (st\<lparr>QuicConn := None, net := n\<rparr>))))"

definition GetByQuic :: "'w quic_go \<Rightarrow> Config \<Rightarrow> u32 \<Rightarrow> u16 \<Rightarrow> 'w quic_state
    \<Rightarrow> (RtpPack option \<times> 'w quic_state) go" where
  "GetByQuic qg cfg ssrc seq st =
     (if DISABLE_QUIC cfg then Ok (None, st) else
      andthen (if QuicConn st = None then initQuic qg cfg (net st) else Ok (QuicConn st, net st)) (\<lambda>(conn, n).
      andthen (nonnil conn) (\<lambda>c.
      andthen (WriteSsrc qg c ssrc n) (\<lambda>(err, n).
      andthen (if err = None then Ok (c, n) else
                 andthen (initQuic qg cfg n) (\<lambda>(conn, n).
                 andthen (nonnil conn) (\<lambda>c.
                 andthen (WriteSsrc qg c ssrc n) (\<lambda>(_, n). Ok (c, n))))) (\<lambda>(c, n).
      andthen (WriteSeq qg c seq n) (\<lambda>(_, n).
      andthen (ReadRtp qg c n) (\<lambda>(c, r, n).
        let st = st\<lparr>QuicConn := Some c, net := n\<rparr> in
        case r of
          Inl e \<Rightarrow> Ok (None, st)
        | Inr None \<Rightarrow> Ok (None, st)
        | Inr (Some pkt) \<Rightarrow> Ok (Some pkt, st))))))))"

end
