(* ===== verification/Flv_Tag.thy ===== *)
theory Flv_Tag
  imports Go_Prelude
begin

text \<open>
  FLV packets and media tag headers (\<open>src/container/flv/av.go\<close>, \<open>tag.go\<close>, \<open>demuxer.go\<close>). A parse
  function that fills its receiver returns the filled receiver; an error value is \<open>Some\<close> of its
  message, and an index out of range is a panic.
\<close>

subsection \<open>Constants and records\<close>

definition TAG_AUDIO :: byte where "TAG_AUDIO = 8"
definition TAG_VIDEO :: byte where "TAG_VIDEO = 9"
definition MetadatAMF0 :: byte where "MetadatAMF0 = 18"
definition SOUND_AAC :: byte where "SOUND_AAC = 10"
definition AAC_SEQHDR :: byte where "AAC_SEQHDR = 0"
definition AVC_SEQHDR :: byte where "AVC_SEQHDR = 0"
definition FRAME_KEY :: byte where "FRAME_KEY = 1"
definition FRAME_INTER :: byte where "FRAME_INTER = 2"
definition VIDEO_H264 :: byte where "VIDEO_H264 = 7"

lemmas flv_consts = TAG_AUDIO_def TAG_VIDEO_def MetadatAMF0_def SOUND_AAC_def AAC_SEQHDR_def
  AVC_SEQHDR_def FRAME_KEY_def FRAME_INTER_def VIDEO_H264_def

record flvTag_hdr =
  fType :: byte
  dataSize :: u32
  timeStamp :: u32
  streamID :: u32

record mediaTag =
  soundFormat :: byte
  soundRate :: byte
  soundSize :: byte
  soundType :: byte
  aacPacketType :: byte
  frameType :: byte
  codecID :: byte
  avcPacketType :: byte
  compositionTime :: "32 word"

record Tag =
  flvt :: flvTag_hdr
  mediat :: mediaTag

text \<open>\<open>var tag Tag\<close>: all fields zero.\<close>

definition zero_Tag :: Tag where
  "zero_Tag = \<lparr>flvt = \<lparr>fType = 0, dataSize = 0, timeStamp = 0, streamID = 0\<rparr>,
     mediat = \<lparr>soundFormat = 0, soundRate = 0, soundSize = 0, soundType = 0, aacPacketType = 0,
       frameType = 0, codecID = 0, avcPacketType = 0, compositionTime = 0\<rparr>\<rparr>"

record Packet =
  IsAudio :: bool
  IsVideo :: bool
  IsMetadata :: bool
  TimeStamp :: u32
  StreamID :: u32
  Header :: "Tag option"
  Data :: slice

definition zero_Packet :: Packet where
  "zero_Packet = \<lparr>IsAudio = False, IsVideo = False, IsMetadata = False, TimeStamp = 0,
     StreamID = 0, Header = None, Data = of_bytes []\<rparr>"

subsection \<open>Tag accessors\<close>

definition SoundFormat :: "Tag \<Rightarrow> byte" where
  "SoundFormat tag = soundFormat (mediat tag)"

definition AACPacketType :: "Tag \<Rightarrow> byte" where
  "AACPacketType tag = aacPacketType (mediat tag)"

definition IsKeyFrame :: "Tag \<Rightarrow> bool" where
  "IsKeyFrame tag = (frameType (mediat tag) = FRAME_KEY)"

definition IsSeq :: "Tag \<Rightarrow> bool" where
  "IsSeq tag = (frameType (mediat tag) = FRAME_KEY \<and> avcPacketType (mediat tag) = AVC_SEQHDR)"

definition CodecID :: "Tag \<Rightarrow> byte" where
  "CodecID tag = codecID (mediat tag)"

definition CompositionTime :: "Tag \<Rightarrow> 32 word" where
  "CompositionTime tag = compositionTime (mediat tag)"

lemmas tag_accessors = SoundFormat_def AACPacketType_def IsKeyFrame_def IsSeq_def CodecID_def
  CompositionTime_def

subsection \<open>Packets\<close>

definition Packet_Parse :: "Packet \<Rightarrow> slice \<Rightarrow> bool \<Rightarrow> Packet go" where
  "Packet_Parse packet b moveHead =
     andthen (sl_index b 0) (\<lambda>b0.
     let packet =
       (if b0 = MetadatAMF0 then packet\<lparr>IsMetadata := True\<rparr>
        else if b0 = TAG_AUDIO then packet\<lparr>IsAudio := True\<rparr>
        else if b0 = TAG_VIDEO then packet\<lparr>IsVideo := True\<rparr>
        else packet)
     in andthen (sl_index b 7) (\<lambda>b7.
        andthen (sl_index b 4) (\<lambda>b4.
        andthen (sl_index b 5) (\<lambda>b5.
        andthen (sl_index b 6) (\<lambda>b6.
        let packet = packet\<lparr>TimeStamp := flv_ts b4 b5 b6 b7, Data := b\<rparr>
        in if moveHead then andthen (sl_from b 11) (\<lambda>d. Ok (packet\<lparr>Data := d\<rparr>))
           else Ok packet)))))"

subsection \<open>Media tag headers\<close>

definition parseAudioHeader :: "Tag \<Rightarrow> slice \<Rightarrow> (Tag \<times> nat \<times> string option) go" where
  "parseAudioHeader tag b =
     (if sl_len b < 0 + 1 then Ok (tag, 0, Some ''invalid audiodata len'')
      else andthen (sl_index b 0) (\<lambda>flags.
        let m = (mediat tag)\<lparr>soundFormat := drop_bit 4 flags,
                             soundRate := drop_bit 2 flags AND 3,
                             soundSize := drop_bit 1 flags AND 1,
                             soundType := flags AND 1\<rparr>
        in if soundFormat m = SOUND_AAC
           then andthen (sl_index b 1) (\<lambda>b1. Ok (tag\<lparr>mediat := m\<lparr>aacPacketType := b1\<rparr>\<rparr>, 2, None))
           else Ok (tag\<lparr>mediat := m\<rparr>, 1, None)))"

text \<open>The loop \<open>for i := 2; i < 5; i++\<close> over the three composition-time bytes.\<close>

definition add_ct :: "32 word \<Rightarrow> byte \<Rightarrow> 32 word" where
  "add_ct ct b = push_bit 8 ct + ucast b"

definition parseVideoHeader :: "Tag \<Rightarrow> slice \<Rightarrow> (Tag \<times> nat \<times> string option) go" where
  "parseVideoHeader tag b =
     (if sl_len b < 0 + 5 then Ok (tag, 0, Some ''invalid videodata len'')
      else andthen (sl_index b 0) (\<lambda>flags.
        let m = (mediat tag)\<lparr>frameType := drop_bit 4 flags, codecID := flags AND 15\<rparr>
        in if frameType m = FRAME_INTER \<or> frameType m = FRAME_KEY
           then andthen (sl_index b 1) (\<lambda>b1.
                andthen (sl_index b 2) (\<lambda>b2.
                andthen (sl_index b 3) (\<lambda>b3.
                andthen (sl_index b 4) (\<lambda>b4.
                  Ok (tag\<lparr>mediat := m\<lparr>avcPacketType := b1,
                        compositionTime := add_ct (add_ct (add_ct (compositionTime m) b2) b3) b4\<rparr>\<rparr>,
                      5, None)))))
           else Ok (tag\<lparr>mediat := m\<rparr>, 1, None)))"

definition ParseMediaTagHeader :: "Tag \<Rightarrow> slice \<Rightarrow> bool \<Rightarrow> (Tag \<times> nat \<times> string option) go" where
  "ParseMediaTagHeader tag b isVideo =
     (if isVideo then parseVideoHeader tag b else parseAudioHeader tag b)"

subsection \<open>Demuxing\<close>

definition ErrAvcEndSEQ :: string where "ErrAvcEndSEQ = ''avc end sequence''"

definition DemuxHeader :: "Packet \<Rightarrow> (Packet \<times> string option) go" where
  "DemuxHeader p =
     andthen (sl_from (Data p) 11) (\<lambda>d.
     andthen (ParseMediaTagHeader zero_Tag d (IsVideo p)) (\<lambda>(tag, n, err).
       case err of Some e \<Rightarrow> Ok (p, Some e)
       | None \<Rightarrow> Ok (p\<lparr>Header := Some tag\<rparr>, None)))"

definition is_avc_end :: "Tag \<Rightarrow> slice \<Rightarrow> bool go" where
  "is_avc_end tag d =
     (if CodecID tag = VIDEO_H264
      then andthen (sl_index d 0) (\<lambda>d0.
        if d0 = 23 then andthen (sl_index d 1) (\<lambda>d1. Ok (d1 = 2)) else Ok False)
      else Ok False)"

definition Demux :: "Packet \<Rightarrow> (Packet \<times> string option) go" where
  "Demux p =
     andthen (ParseMediaTagHeader zero_Tag (Data p) (IsVideo p)) (\<lambda>(tag, n, err).
       case err of Some e \<Rightarrow> Ok (p, Some e)
       | None \<Rightarrow> andthen (is_avc_end tag (Data p)) (\<lambda>ends.
           if ends then Ok (p, Some ErrAvcEndSEQ)
           else andthen (sl_from (Data p) n) (\<lambda>d.
             Ok (p\<lparr>Header := Some tag, Data := d\<rparr>, None))))"

end
