(* ===== verification/Utils.thy ===== *)
theory Utils
  imports Go_Prelude
begin

text \<open>
  \<open>src/utils/util.go\<close> and the recording file of \<open>src/utils/flv.go\<close>: the circular comparison of
  RTP sequence numbers, the test for a complete FLV tag, big-endian output, and the FLV file.
\<close>

subsection \<open>Sequence number comparison\<close>

definition FirstBeforeSecond :: "u16 \<Rightarrow> u16 \<Rightarrow> bool" where
  "FirstBeforeSecond seq1 seq2 =
     (if seq1 < seq2 then seq2 - seq1 < 60000 else seq1 - seq2 > 60000)"

text \<open>The comparison in terms of the two plain numbers.\<close>

lemma FirstBeforeSecond_unat:
  "FirstBeforeSecond a b \<longleftrightarrow>
     (if unat a < unat b then unat b - unat a < 60000 else unat a - unat b > 60000)"
  by (simp add: FirstBeforeSecond_def word_less_nat_alt unat_u16_minus)

lemma not_before_refl [simp]: "\<not> FirstBeforeSecond a a"
  by (simp add: FirstBeforeSecond_unat)

lemma not_before_forward:
  assumes "unat (a - b) \<le> 5536"
  shows "\<not> FirstBeforeSecond a b"
  using assms unat_u16_less [of b] unat_u16_less [of a]
  by (auto simp: FirstBeforeSecond_unat unat_u16_minus split: if_splits)

lemma before_backward:
  assumes "0 < unat (b - a)" "unat (b - a) < 5536"
  shows "FirstBeforeSecond a b"
  using assms unat_u16_less [of b] unat_u16_less [of a]
  by (auto simp: FirstBeforeSecond_unat unat_u16_minus split: if_splits)

lemma not_before_bound:
  assumes "\<not> FirstBeforeSecond a b"
  shows "unat (a - b) \<le> 60000"
  using assms unat_u16_less [of b] unat_u16_less [of a]
  by (auto simp: FirstBeforeSecond_unat unat_u16_minus split: if_splits)

subsection \<open>Complete-tag test\<close>

text \<open>
  \<open>tmpBuf[1:]\<close> receives \<open>payload[1:4]\<close>; the sum with 11 is taken in \<open>uint32\<close>. The length test in
  front keeps every index in range, so the function has no panic branch.
\<close>

definition IsTagHead :: "slice \<Rightarrow> bool" where
  "IsTagHead payload =
     (if sl_len payload < 11 then False
      else let p = sl_mem payload in
        if p ! 0 = 8 \<or> p ! 0 = 9 then
          if p ! 8 = 0 \<and> p ! 9 = 0 \<and> p ! 10 = 0 then
            unat (be24 (p ! 1) (p ! 2) (p ! 3) + 11) = sl_len payload
          else False
        else False)"

subsection \<open>Output of integers and error checks\<close>

text \<open>\<open>PutI32BE\<close> stores four bytes and needs a buffer of at least four.\<close>

definition PutI32BE :: "slice \<Rightarrow> 32 word \<Rightarrow> slice go" where
  "PutI32BE b v =
     (if 4 \<le> sl_len b
      then Ok (b\<lparr>sl_mem := [ucast (signed_drop_bit 24 v), ucast (signed_drop_bit 16 v),
                            ucast (signed_drop_bit 8 v), ucast v] @ drop 4 (sl_mem b)\<rparr>)
      else Panic IndexOutOfRange)"

definition CheckError :: "string option \<Rightarrow> unit go" where
  "CheckError err = (case err of None \<Rightarrow> Ok () | Some e \<Rightarrow> Panic (Explicit e))"

lemma CheckError_simps [simp, go_simps]:
  "CheckError None = Ok ()" "CheckError (Some e) = Panic (Explicit e)"
  by (simp_all add: CheckError_def)

text \<open>The arithmetic shifts of the signed value give the same bytes as \<open>put32\<close>.\<close>

lemma signed_bytes:
  "[ucast (signed_drop_bit 24 v), ucast (signed_drop_bit 16 v), ucast (signed_drop_bit 8 v), ucast v]
     = (put32 v :: byte list)"
  by (simp add: put32_def) (intro conjI; rule bit_word_eqI; simp add: bit_simps)

lemma PutI32BE_bytes:
  assumes "slice_ok b" "sl_len b = 4"
  shows "\<exists>t. PutI32BE b v = Ok t \<and> bytes t = put32 v \<and> sl_len t = 4"
  using assms by (simp add: PutI32BE_def bytes_def signed_bytes)

subsection \<open>Property\<close>

text \<open>
  C40: The comparison orders sequence numbers circularly. A number that lies less than 5536 behind
  another is before it, and not after it, wherever the 16-bit counter wraps around.
\<close>

theorem sequence_order:
  fixes a :: u16
  assumes "0 < k" "k < 5536"
  shows "FirstBeforeSecond a (a + word_of_nat k) \<and> \<not> FirstBeforeSecond (a + word_of_nat k) a"
  using assms before_backward [of "a + word_of_nat k" a] not_before_forward [of "a + word_of_nat k" a]
  by (simp add: unat_of_nat_u16)

theorem sequence_order_witness: "FirstBeforeSecond 65530 4 \<and> \<not> FirstBeforeSecond 4 65530"
proof -
  have "(65530 + word_of_nat 10 :: u16) = 4" by simp
  with sequence_order [of 10 65530] show ?thesis by (simp only:) simp
qed

end
