(* ===== verification/Flv_Writer.thy ===== *)
theory Flv_Writer
  imports Flv_Tag Utils
begin

text \<open>
  The HTTP-FLV client connection (\<open>src/protocol/httpflv/writer.go\<close>): a writer owns a bounded
  channel of tags, filled by the stream's goroutine through \<open>Write\<close> and drained onto the HTTP
  response by the goroutine that runs \<open>SendPacket\<close>.
\<close>

subsection \<open>State\<close>

text \<open>
  The HTTP response: the bytes written so far, and whether the connection is broken, in which
  case a write returns an error.
\<close>

record http_response =
  hw_out :: "byte list"
  hw_broken :: bool

definition hw_write :: "http_response \<Rightarrow> byte list \<Rightarrow> http_response \<times> string option" where
  "hw_write w bs = (if hw_broken w then (w, Some ''write: broken pipe'')
     else (w\<lparr>hw_out := hw_out w @ bs\<rparr>, None))"

definition headerLen :: nat where "headerLen = 11"
definition maxQueueNum :: nat where "maxQueueNum = 1024"

record FLVWriter =
  Uid :: string
  app_name :: string
  title :: string
  url :: string
  buf :: slice
  Closed :: bool
  closedChan :: "unit chan"
  ctx :: http_response
  packetQueue :: "slice chan"
  Init :: bool

record Info =
  info_Uid :: string
  info_Key :: string
  info_Url :: string

subsection \<open>Operations\<close>

definition flv_file_header :: "byte list" where
  "flv_file_header = [70, 76, 86, 1, 5, 0, 0, 0, 9]"

text \<open>
  \<open>NewFLVWriter\<close> puts the file header and a zero previous-tag size on the response (both results
  are ignored by the code). The \<open>Uid\<close> literal is carried as a parameter.
\<close>

definition NewFLVWriter :: "string \<Rightarrow> string \<Rightarrow> string \<Rightarrow> string \<Rightarrow> http_response \<Rightarrow> FLVWriter go" where
  "NewFLVWriter uid a t u c =
     (let ret = \<lparr>Uid = uid, app_name = a, title = t, url = u, buf = make_bytes headerLen,
            Closed = False, closedChan = make_chan 0, ctx = fst (hw_write c flv_file_header),
            packetQueue = make_chan maxQueueNum, Init = False\<rparr>
      in andthen (sl_to (buf ret) 4) (\<lambda>b4.
         andthen (PutI32BE b4 0) (\<lambda>b4'.
           Ok (ret\<lparr>buf := (buf ret)\<lparr>sl_mem := sl_mem b4'\<rparr>,
                   ctx := fst (hw_write (ctx ret) (bytes b4'))\<rparr>))))"

text \<open>
  \<open>Write\<close>: the deferred \<open>recover\<close> turns the panic of a send on a closed channel into an error; a
  send on a full channel waits.
\<close>

definition Write :: "FLVWriter \<Rightarrow> slice \<Rightarrow> (FLVWriter \<times> string option) go" where
  "Write w p =
     (if Closed w then Ok (w, Some ''flvwrite source closed'')
      else case chan_send (packetQueue w) p of
        Ok c \<Rightarrow> Ok (w\<lparr>packetQueue := c\<rparr>, None)
      | Panic e \<Rightarrow> Ok (w, Some ''FLVWriter has already been closed'')
      | Blocked \<Rightarrow> Blocked)"

text \<open>\<open>if _, err := ctx.Write(bs); err != nil { return err }\<close>, and what follows it.\<close>

definition ctx_Write :: "FLVWriter \<Rightarrow> byte list \<Rightarrow> (FLVWriter \<Rightarrow> (FLVWriter \<times> string option) go)
    \<Rightarrow> (FLVWriter \<times> string option) go" where
  "ctx_Write w bs k = (case hw_write (ctx w) bs of (x, err) \<Rightarrow>
     (case err of Some e \<Rightarrow> Ok (w\<lparr>ctx := x\<rparr>, Some e) | None \<Rightarrow> k (w\<lparr>ctx := x\<rparr>)))"

text \<open>
  One round of the loop in \<open>SendPacket\<close>: header part, data part, and the previous-tag size, each a
  write whose error ends the loop.
\<close>

definition SendPacket_round :: "FLVWriter \<Rightarrow> (FLVWriter \<times> string option) go" where
  "SendPacket_round w =
     andthen (chan_recv (packetQueue w)) (\<lambda>(r, c).
     let w = w\<lparr>packetQueue := c\<rparr> in
     case r of
       None \<Rightarrow> Ok (w, Some ''closed'')
     | Some p \<Rightarrow>
       andthen (sl_to (buf w) headerLen) (\<lambda>h.
       let preDataLen = sl_len p in
       andthen (sl_to p headerLen) (\<lambda>p1. ctx_Write w (bytes p1) (\<lambda>w.
       andthen (sl_from p headerLen) (\<lambda>p2. ctx_Write w (bytes p2) (\<lambda>w.
       andthen (sl_to h 4) (\<lambda>h4.
       andthen (PutI32BE h4 (word_of_nat preDataLen)) (\<lambda>h4'.
         ctx_Write (w\<lparr>buf := (buf w)\<lparr>sl_mem := sl_mem h4'\<rparr>\<rparr>) (bytes h4') (\<lambda>w.
         Ok (w, None))))))))))"

text \<open>
  \<open>SendPacket\<close> repeats rounds until one returns an error; the goroutine started by \<open>NewFLVWriter\<close>
  then sets \<open>Closed\<close>. Running it while the channel holds \<open>n\<close> packets takes \<open>n\<close> rounds, after which
  it waits for the next packet.
\<close>

fun SendPacket_rounds :: "nat \<Rightarrow> FLVWriter \<Rightarrow> (FLVWriter \<times> string option) go" where
  "SendPacket_rounds 0 w = Ok (w, None)"
| "SendPacket_rounds (Suc n) w =
     andthen (SendPacket_round w) (\<lambda>(w, err).
       case err of Some e \<Rightarrow> Ok (w\<lparr>Closed := True\<rparr>, Some e) | None \<Rightarrow> SendPacket_rounds n w)"

definition Close :: "FLVWriter \<Rightarrow> FLVWriter go" where
  "Close w =
     (if \<not> Closed w then
        andthen (chan_close (packetQueue w)) (\<lambda>pq.
        andthen (chan_close (closedChan w)) (\<lambda>cc.
          Ok (w\<lparr>packetQueue := pq, closedChan := cc, Closed := True\<rparr>)))
      else Ok (w\<lparr>Closed := True\<rparr>))"

text \<open>\<open>Wait\<close> receives from \<open>closedChan\<close>, on which nothing is ever sent.\<close>

definition Wait :: "FLVWriter \<Rightarrow> unit go" where
  "Wait w = andthen (chan_recv (closedChan w)) (\<lambda>_. Ok ())"

definition GetInfo :: "FLVWriter \<Rightarrow> Info" where
  "GetInfo w = \<lparr>info_Uid = Uid w, info_Key = app_name w @ ''/'' @ title w, info_Url = url w\<rparr>"

subsection \<open>\<open>DropPacket\<close>\<close>

text \<open>
  One round of the dropping loop. The packet is parsed afresh, so its \<open>Header\<close> is \<open>nil\<close> and the
  type assertion to a video header fails.
\<close>

definition DropPacket_round :: "slice chan \<Rightarrow> slice chan go" where
  "DropPacket_round pktQue =
     andthen (chan_recv pktQue) (\<lambda>(r, q).
     case r of
       None \<Rightarrow> Ok q
     | Some tmpPkt \<Rightarrow>
       andthen (Packet_Parse zero_Packet tmpPkt False) (\<lambda>p.
       andthen
         (if IsVideo p then
            andthen (case Header p of
                Some videoPkt \<Rightarrow> if IsSeq videoPkt \<or> IsKeyFrame videoPkt then chan_send q tmpPkt else Ok q
              | None \<Rightarrow> Ok q) (\<lambda>q.
            andthen (if length (ch_buf q) > maxQueueNum - 10
                     then andthen (chan_recv q) (\<lambda>(_, q). Ok q) else Ok q) (\<lambda>q.
            andthen (chan_recv q) (\<lambda>(_, q). Ok q)))
          else Ok q) (\<lambda>q.
       if IsAudio p then chan_send q tmpPkt else Ok q)))"

fun DropPacket_rounds :: "nat \<Rightarrow> slice chan \<Rightarrow> slice chan go" where
  "DropPacket_rounds 0 q = Ok q"
| "DropPacket_rounds (Suc n) q = andthen (DropPacket_round q) (DropPacket_rounds n)"

definition DropPacket :: "slice chan \<Rightarrow> slice chan go" where
  "DropPacket pktQue = DropPacket_rounds (maxQueueNum - 84) pktQue"


subsection \<open>Behaviour of single operations\<close>

definition writer_ok :: "FLVWriter \<Rightarrow> bool" where
  "writer_ok w \<longleftrightarrow> slice_ok (buf w) \<and> headerLen \<le> length (sl_mem (buf w))"

text \<open>What the response receives for one tag: the tag and its length.\<close>

definition framed :: "slice \<Rightarrow> byte list" where
  "framed p = bytes p @ put32 (word_of_nat (sl_len p))"

lemma Write_Ok_iff:
  "Write w p = Ok (w', None) \<longleftrightarrow>
     \<not> Closed w \<and> \<not> ch_closed (packetQueue w) \<and> length (ch_buf (packetQueue w)) < ch_cap (packetQueue w)
     \<and> w' = w\<lparr>packetQueue := (packetQueue w)\<lparr>ch_buf := ch_buf (packetQueue w) @ [p]\<rparr>\<rparr>"
  by (auto simp: Write_def chan_send_def)

lemma Write_err_iff:
  "Write w p = Ok (w', Some e) \<Longrightarrow> w' = w \<and> (Closed w \<or> ch_closed (packetQueue w))"
  by (auto simp: Write_def chan_send_def split: if_splits)

lemma Write_no_panic: "Write w p \<noteq> Panic e"
  by (simp add: Write_def chan_send_def)

lemma append_header_rest:
  assumes "slice_ok p" "11 \<le> sl_len p"
  shows "\<exists>p1 p2. sl_to p 11 = Ok p1 \<and> sl_from p 11 = Ok p2 \<and> bytes p1 @ bytes p2 = bytes p"
proof -
  obtain p1 where p1: "sl_to p 11 = Ok p1" "bytes p1 = take 11 (bytes p)"
    using sl_slice_bytes [OF assms(1), of 0 11] assms(2) by (auto simp: sl_to_def)
  obtain p2 where p2: "sl_from p 11 = Ok p2" "bytes p2 = take (sl_len p - 11) (drop 11 (bytes p))"
    using sl_slice_bytes [OF assms(1), of 11 "sl_len p"] assms(2) by (auto simp: sl_from_def)
  have "bytes p1 @ bytes p2 = bytes p"
    using assms(1) by (simp add: p1 p2)
  with p1 p2 show ?thesis by blast
qed

lemma PutI32BE_prefix:
  assumes "writer_ok w"
  shows "\<exists>h h4 h4'. sl_to (buf w) 11 = Ok h \<and> sl_to h 4 = Ok h4 \<and> PutI32BE h4 v = Ok h4'
    \<and> bytes h4' = put32 v \<and> length (sl_mem h4') = length (sl_mem (buf w))"
  using assms
  by (auto simp: writer_ok_def headerLen_def sl_to_def sl_slice_def PutI32BE_def bytes_def signed_bytes)

lemma SendPacket_round_healthy:
  assumes w: "writer_ok w" and q: "ch_buf (packetQueue w) = p # ps" and h: "\<not> hw_broken (ctx w)"
    and p: "slice_ok p" "11 \<le> sl_len p"
  shows "\<exists>b. SendPacket_round w = Ok (w\<lparr>packetQueue := (packetQueue w)\<lparr>ch_buf := ps\<rparr>,
      ctx := (ctx w)\<lparr>hw_out := hw_out (ctx w) @ framed p\<rparr>, buf := b\<rparr>, None)
    \<and> slice_ok b \<and> headerLen \<le> length (sl_mem b)"
proof -
  obtain p1 p2 where p12: "sl_to p 11 = Ok p1" "sl_from p 11 = Ok p2" "bytes p1 @ bytes p2 = bytes p"
    using append_header_rest [OF p] by blast
  obtain h h4 h4' where h: "sl_to (buf w) 11 = Ok h" "sl_to h 4 = Ok h4"
      "PutI32BE h4 (word_of_nat (sl_len p)) = Ok h4'" "bytes h4' = put32 (word_of_nat (sl_len p))"
      "length (sl_mem h4') = length (sl_mem (buf w))"
    using PutI32BE_prefix [OF w] by blast
  have "hw_out (ctx w) @ framed p = ((hw_out (ctx w) @ bytes p1) @ bytes p2) @ bytes h4'"
    by (simp add: framed_def h(4) flip: p12(3))
  then show ?thesis
    using assms p12 h
    by (intro exI [of _ "(buf w)\<lparr>sl_mem := sl_mem h4'\<rparr>"])
      (simp add: SendPacket_round_def chan_recv_def ctx_Write_def hw_write_def headerLen_def writer_ok_def
        slice_ok_def Let_def)
qed

lemma SendPacket_rounds_healthy:
  assumes "writer_ok w" "\<not> hw_broken (ctx w)" "ch_buf (packetQueue w) = ps"
    and "\<forall>p\<in>set ps. slice_ok p \<and> 11 \<le> sl_len p"
  shows "\<exists>w'. SendPacket_rounds (length ps) w = Ok (w', None)
    \<and> hw_out (ctx w') = hw_out (ctx w) @ concat (map framed ps)
    \<and> ch_buf (packetQueue w') = [] \<and> Closed w' = Closed w"
  using assms
proof (induction ps arbitrary: w)
  case Nil
  then show ?case by simp
next
  case (Cons p ps)
  obtain b where b: "SendPacket_round w = Ok (w\<lparr>packetQueue := (packetQueue w)\<lparr>ch_buf := ps\<rparr>,
      ctx := (ctx w)\<lparr>hw_out := hw_out (ctx w) @ framed p\<rparr>, buf := b\<rparr>, None)"
      "slice_ok b" "headerLen \<le> length (sl_mem b)"
    using SendPacket_round_healthy [OF Cons.prems(1,3,2)] Cons.prems(4) by auto
  show ?case
    using Cons.IH [of "w\<lparr>packetQueue := (packetQueue w)\<lparr>ch_buf := ps\<rparr>,
      ctx := (ctx w)\<lparr>hw_out := hw_out (ctx w) @ framed p\<rparr>, buf := b\<rparr>"] Cons.prems b
    by (simp add: writer_ok_def)
qed

lemma client_output:
  assumes "NewFLVWriter uid a t u \<lparr>hw_out = [], hw_broken = False\<rparr> = Ok w"
    and "\<forall>p\<in>set ps. slice_ok p \<and> 11 \<le> sl_len p"
  shows "\<exists>w'. SendPacket_rounds (length ps)
          (w\<lparr>packetQueue := (packetQueue w)\<lparr>ch_buf := ps\<rparr>\<rparr>) = Ok (w', None)
    \<and> hw_out (ctx w') = flv_file_header @ [0, 0, 0, 0] @ concat (map framed ps)"
proof -
  have w: "writer_ok w" "\<not> hw_broken (ctx w)" "hw_out (ctx w) = flv_file_header @ [0, 0, 0, 0]"
    using assms(1)
    by (auto simp: NewFLVWriter_def sl_to_def sl_slice_def make_bytes_def of_bytes_def headerLen_def
        PutI32BE_def hw_write_def bytes_def writer_ok_def slice_ok_def)
  show ?thesis
    using SendPacket_rounds_healthy [of "w\<lparr>packetQueue := (packetQueue w)\<lparr>ch_buf := ps\<rparr>\<rparr>" ps] w assms(2)
    by (auto simp: writer_ok_def)
qed

text \<open>
  C19: the response of a fresh client carries the FLV file header, a zero previous-tag size and
  then, for the tags handed to \<open>Write\<close> in order, each tag followed by its length, once the sender
  goroutine has drained the channel over a working connection.
\<close>

theorem client_stream:
  assumes "NewFLVWriter uid a t u \<lparr>hw_out = [], hw_broken = False\<rparr> = Ok w"
    and "\<forall>p\<in>set ps. slice_ok p \<and> 11 \<le> sl_len p"
  shows "\<exists>w'. SendPacket_rounds (length ps)
          (w\<lparr>packetQueue := (packetQueue w)\<lparr>ch_buf := ps\<rparr>\<rparr>) = Ok (w', None)
    \<and> hw_out (ctx w') = flv_file_header @ [0, 0, 0, 0] @ concat (map framed ps)"
  by (rule client_output [OF assms])

subsection \<open>Life of a writer\<close>

text \<open>
  The steps that the program takes on one writer: the stream's goroutine calls \<open>Write\<close>, marks the
  writer initialised, and calls \<open>Close\<close> only on a writer whose \<open>Closed\<close> flag is already set
  (\<open>extractFlv\<close>); the sender goroutine runs rounds until one fails; the client may disconnect.
  The second component says whether the sender goroutine still runs.
\<close>

inductive writer_step :: "FLVWriter \<times> bool \<Rightarrow> FLVWriter \<times> bool \<Rightarrow> bool" where
  written: "Write w p = Ok (w', err) \<Longrightarrow> writer_step (w, a) (w', a)"
| initialised: "writer_step (w, a) (w\<lparr>Init := True\<rparr>, a)"
| sent: "SendPacket_round w = Ok (w', None) \<Longrightarrow> writer_step (w, True) (w', True)"
| failed: "SendPacket_round w = Ok (w', Some e) \<Longrightarrow>
     writer_step (w, True) (w'\<lparr>Closed := True\<rparr>, False)"
| reaped: "Closed w \<Longrightarrow> Close w = Ok w' \<Longrightarrow> writer_step (w, a) (w', a)"
| disconnected: "writer_step (w, a) (w\<lparr>ctx := (ctx w)\<lparr>hw_broken := True\<rparr>\<rparr>, a)"

inductive writer_reachable :: "FLVWriter \<times> bool \<Rightarrow> bool" where
  created: "NewFLVWriter uid a t u c = Ok w \<Longrightarrow> writer_reachable (w, True)"
| stepped: "writer_reachable s \<Longrightarrow> writer_step s s' \<Longrightarrow> writer_reachable s'"

definition writer_inv :: "FLVWriter \<times> bool \<Rightarrow> bool" where
  "writer_inv s \<longleftrightarrow> \<not> ch_closed (packetQueue (fst s)) \<and> \<not> ch_closed (closedChan (fst s))
     \<and> ch_buf (closedChan (fst s)) = [] \<and> (Closed (fst s) \<longleftrightarrow> \<not> snd s)
     \<and> ch_cap (packetQueue (fst s)) = maxQueueNum
     \<and> length (ch_buf (packetQueue (fst s))) \<le> maxQueueNum"

lemma ctx_Write_cases:
  assumes "ctx_Write w bs k = Ok (w', e)"
  obtains x where "w' = w\<lparr>ctx := x\<rparr>" | x where "k (w\<lparr>ctx := x\<rparr>) = Ok (w', e)"
  using assms by (auto simp: ctx_Write_def split: prod.splits option.splits)

lemma SendPacket_round_frame:
  assumes "SendPacket_round w = Ok (w', e)"
  shows "closedChan w' = closedChan w" "Closed w' = Closed w"
    "ch_closed (packetQueue w') = ch_closed (packetQueue w)"
    "ch_cap (packetQueue w') = ch_cap (packetQueue w)"
    "length (ch_buf (packetQueue w')) \<le> length (ch_buf (packetQueue w))"
  using assms
  by (auto simp: SendPacket_round_def chan_recv_def andthen_eq_Ok Let_def
      split: list.splits if_splits elim!: ctx_Write_cases)

lemma writer_step_inv: "writer_step s s' \<Longrightarrow> writer_inv s \<Longrightarrow> writer_inv s'"
proof (induction rule: writer_step.induct)
  case (written w p w' err a)
  then show ?case
    by (auto simp: Write_def chan_send_def writer_inv_def split: if_splits)
next
  case (sent w w')
  then show ?case
    using SendPacket_round_frame [OF sent.hyps] by (auto simp: writer_inv_def)
next
  case (failed w w' e)
  then show ?case
    using SendPacket_round_frame [OF failed.hyps] by (auto simp: writer_inv_def)
next
  case (reaped w w' a)
  then show ?case by (auto simp: Close_def writer_inv_def)
qed (auto simp: writer_inv_def)

lemma writer_reachable_inv: "writer_reachable s \<Longrightarrow> writer_inv s"
proof (induction rule: writer_reachable.induct)
  case (created uid a t u c w)
  then show ?case
    by (auto simp: NewFLVWriter_def andthen_eq_Ok writer_inv_def make_chan_def Let_def)
next
  case (stepped s s')
  then show ?case by (blast intro: writer_step_inv)
qed

text \<open>
  C28: in every state the program can reach, a writer's channels are open and at most full, its
  \<open>Closed\<close> flag is set exactly when its sender goroutine has ended, \<open>Write\<close> reports an error
  exactly on a closed writer, and \<open>Wait\<close> still waits: the HTTP handler that called it never
  returns, even after the client has gone.
\<close>

theorem writer_lifetime:
  assumes "writer_reachable (w, alive)"
  shows "(Closed w \<longleftrightarrow> \<not> alive)
    \<and> length (ch_buf (packetQueue w)) \<le> maxQueueNum
    \<and> ((\<exists>w' e. Write w p = Ok (w', Some e)) \<longleftrightarrow> Closed w)
    \<and> Wait w = Blocked"
  using writer_reachable_inv [OF assms]
  by (auto simp: writer_inv_def Write_def chan_send_def Wait_def chan_recv_def)

text \<open>A writer whose client disconnected and whose sender noticed.\<close>

definition demo_tag :: slice where
  "demo_tag = of_bytes [9, 0, 0, 5, 0, 0, 0, 0, 0, 0, 0, 23, 0, 0, 0, 0]"

definition demo_writer :: FLVWriter where
  "demo_writer = \<lparr>Uid = ''u'', app_name = ''live'', title = ''movie'', url = ''/live/movie.flv'',
     buf = make_bytes 11, Closed = False, closedChan = make_chan 0,
     ctx = \<lparr>hw_out = flv_file_header @ [0, 0, 0, 0], hw_broken = False\<rparr>,
     packetQueue = make_chan maxQueueNum, Init = False\<rparr>"

definition demo_gone :: FLVWriter where
  "demo_gone = demo_writer\<lparr>ctx := (ctx demo_writer)\<lparr>hw_broken := True\<rparr>,
     packetQueue := (packetQueue demo_writer)\<lparr>ch_buf := [demo_tag]\<rparr>\<rparr>"

lemma demo_created:
  "NewFLVWriter ''u'' ''live'' ''movie'' ''/live/movie.flv'' \<lparr>hw_out = [], hw_broken = False\<rparr>
     = Ok demo_writer"
  by (simp add: NewFLVWriter_def sl_to_def sl_slice_def make_bytes_def of_bytes_def headerLen_def
      PutI32BE_def hw_write_def bytes_def demo_writer_def numeral_eq_Suc)

lemma demo_reachable: "writer_reachable
  (demo_gone\<lparr>packetQueue := (packetQueue demo_gone)\<lparr>ch_buf := []\<rparr>, Closed := True\<rparr>, False)"
proof -
  let ?w1 = "demo_writer\<lparr>packetQueue := (packetQueue demo_writer)\<lparr>ch_buf := [demo_tag]\<rparr>\<rparr>"
  have "writer_reachable (demo_writer, True)"
    by (rule created [OF demo_created])
  moreover have "Write demo_writer demo_tag = Ok (?w1, None)"
    by (simp add: Write_def chan_send_def demo_writer_def make_chan_def maxQueueNum_def)
  ultimately have "writer_reachable (?w1, True)"
    by (blast intro: stepped written)
  then have "writer_reachable (demo_gone, True)"
    using stepped [OF _ disconnected, of ?w1 True] by (simp add: demo_gone_def demo_writer_def)
  moreover have "SendPacket_round demo_gone
      = Ok (demo_gone\<lparr>packetQueue := (packetQueue demo_gone)\<lparr>ch_buf := []\<rparr>\<rparr>, Some ''write: broken pipe'')"
    by (simp add: SendPacket_round_def chan_recv_def ctx_Write_def hw_write_def demo_gone_def demo_writer_def
        demo_tag_def sl_to_def sl_slice_def make_bytes_def headerLen_def)
  ultimately show ?thesis
    using stepped [OF _ failed] by fastforce
qed

theorem client_stream_witness:
  "\<exists>w'. SendPacket_rounds (length [demo_tag])
      (demo_writer\<lparr>packetQueue := (packetQueue demo_writer)\<lparr>ch_buf := [demo_tag]\<rparr>\<rparr>) = Ok (w', None)
    \<and> hw_out (ctx w') = flv_file_header @ [0, 0, 0, 0] @ concat (map framed [demo_tag])"
  by (rule client_stream [OF demo_created]) (simp add: demo_tag_def)

theorem writer_lifetime_witness:
  "Wait (demo_gone\<lparr>packetQueue := (packetQueue demo_gone)\<lparr>ch_buf := []\<rparr>, Closed := True\<rparr>) = Blocked"
  using writer_lifetime [OF demo_reachable] by blast

end
