(* ===== verification/Segment_Cache.thy ===== *)
theory Segment_Cache
  imports Flv_Writer
begin

text \<open>
  The cache of initialisation segments (\<open>src/cache/cache.go\<close>): the AVC and AAC sequence headers of
  a stream, sent to every client before the first tag, and the record of the tag under assembly
  (\<open>src/cache/FlvRecord.go\<close>).
\<close>

subsection \<open>Segment packets and the cache\<close>

record SegmentPacket =
  sp_full :: bool
  sp_p :: "Packet option"

definition SegmentPacket_Write :: "SegmentPacket \<Rightarrow> Packet \<Rightarrow> SegmentPacket" where
  "SegmentPacket_Write sp p = sp\<lparr>sp_p := Some p, sp_full := True\<rparr>"

definition SegmentPacket_Send :: "SegmentPacket \<Rightarrow> FLVWriter \<Rightarrow> (FLVWriter \<times> string option) go" where
  "SegmentPacket_Send sp w =
     (if \<not> sp_full sp then Ok (w, None)
      else case sp_p sp of None \<Rightarrow> Panic NilDeref | Some p \<Rightarrow> Write w (Data p))"

record SegmentCache =
  videoSeq :: SegmentPacket
  audioSeq :: SegmentPacket
  metadata :: SegmentPacket
  full :: bool

definition zero_SegmentPacket :: SegmentPacket where
  "zero_SegmentPacket = \<lparr>sp_full = False, sp_p = None\<rparr>"

definition NewCache :: SegmentCache where
  "NewCache = \<lparr>videoSeq = zero_SegmentPacket, audioSeq = zero_SegmentPacket,
     metadata = zero_SegmentPacket, full = False\<rparr>"

text \<open>
  \<open>Write\<close>: after \<open>DemuxHeader\<close> the header is a \<open>*Tag\<close>, which implements both header interfaces, so
  the type assertions succeed whenever a header is there.
\<close>

definition SegmentCache_Write :: "SegmentCache \<Rightarrow> Packet \<Rightarrow> SegmentCache go" where
  "SegmentCache_Write cache p =
     andthen (DemuxHeader p) (\<lambda>(p, err).
     andthen (CheckError err) (\<lambda>_.
     let cache =
       (if IsAudio p then
          (case Header p of None \<Rightarrow> cache | Some ah \<Rightarrow>
             if SoundFormat ah = SOUND_AAC \<and> AACPacketType ah = AAC_SEQHDR
             then cache\<lparr>audioSeq := SegmentPacket_Write (audioSeq cache) p\<rparr> else cache)
        else if IsVideo p then
          (case Header p of None \<Rightarrow> cache | Some vh \<Rightarrow>
             if IsSeq vh then cache\<lparr>videoSeq := SegmentPacket_Write (videoSeq cache) p\<rparr> else cache)
        else cache)
     in Ok (if sp_full (videoSeq cache) \<and> sp_full (audioSeq cache) then cache\<lparr>full := True\<rparr>
            else cache)))"

definition SendInitialSegment :: "SegmentCache \<Rightarrow> FLVWriter \<Rightarrow> (FLVWriter \<times> string option) go" where
  "SendInitialSegment cache w =
     andthen (SegmentPacket_Send (metadata cache) w) (\<lambda>(w, err).
     if err \<noteq> None then Ok (w, err) else
     andthen (SegmentPacket_Send (videoSeq cache) w) (\<lambda>(w, err).
     if err \<noteq> None then Ok (w, err) else
     andthen (SegmentPacket_Send (audioSeq cache) w) (\<lambda>(w, err).
     if err \<noteq> None then Ok (w, err) else Ok (w, None))))"

subsection \<open>The tag under assembly\<close>

record FlvRecord =
  flvTag :: "slice option"
  TagSize :: nat
  pos :: nat
  jumpToNextHead :: bool

definition NewFlvRecord :: FlvRecord where
  "NewFlvRecord = \<lparr>flvTag = None, TagSize = 0, pos = 0, jumpToNextHead = False\<rparr>"

definition Reset :: "FlvRecord \<Rightarrow> FlvRecord" where
  "Reset r = r\<lparr>flvTag := None, TagSize := 0, pos := 0\<rparr>"

subsection \<open>Sequence headers\<close>

text \<open>A tag whose media header the demuxer can read.\<close>

definition tag_readable :: "byte list \<Rightarrow> bool" where
  "tag_readable bs \<longleftrightarrow> 12 \<le> length bs
     \<and> (bs ! 0 = 9 \<longrightarrow> 16 \<le> length bs)
     \<and> (bs ! 0 \<noteq> 9 \<longrightarrow> drop_bit 4 (bs ! 11) = 10 \<longrightarrow> 13 \<le> length bs)"

definition aac_seq_header :: "byte list \<Rightarrow> bool" where
  "aac_seq_header bs \<longleftrightarrow> bs ! 0 = 8 \<and> drop_bit 4 (bs ! 11) = 10 \<and> bs ! 12 = 0"

definition avc_seq_header :: "byte list \<Rightarrow> bool" where
  "avc_seq_header bs \<longleftrightarrow> bs ! 0 = 9 \<and> drop_bit 4 (bs ! 11) = 1 \<and> bs ! 12 = 0"

definition cache_add :: "SegmentCache \<Rightarrow> slice \<Rightarrow> SegmentCache go" where
  "cache_add cache tag = andthen (Packet_Parse zero_Packet tag False) (SegmentCache_Write cache)"


lemma sl_from_11:
  assumes "slice_ok s" "11 \<le> sl_len s"
  shows "\<exists>d. sl_from s 11 = Ok d \<and> slice_ok d \<and> sl_len d = sl_len s - 11 \<and> bytes d = drop 11 (bytes s)"
  using sl_slice_bytes [OF assms(1), of 11 "sl_len s"] assms by (fastforce simp: sl_from_def)

lemma Packet_Parse_fields:
  assumes "slice_ok b" "8 \<le> sl_len b"
  shows "\<exists>p. Packet_Parse zero_Packet b False = Ok p \<and> IsAudio p = (bytes b ! 0 = 8)
    \<and> IsVideo p = (bytes b ! 0 = 9) \<and> IsMetadata p = (bytes b ! 0 = 18) \<and> Header p = None \<and> Data p = b
    \<and> TimeStamp p = flv_ts (bytes b ! 4) (bytes b ! 5) (bytes b ! 6) (bytes b ! 7)"
  using assms by (simp add: Packet_Parse_def sl_index_Ok zero_Packet_def flv_consts Let_def)

lemma parseVideoHeader_seq:
  assumes "5 \<le> sl_len d"
  shows "\<exists>t n. parseVideoHeader zero_Tag d = Ok (t, n, None)
    \<and> (IsSeq t \<longleftrightarrow> drop_bit 4 (bytes d ! 0) = 1 \<and> bytes d ! 1 = 0)"
proof (cases "drop_bit 4 (bytes d ! 0) = 2 \<or> drop_bit 4 (bytes d ! 0) = 1")
  case True
  with assms show ?thesis
    by (simp add: parseVideoHeader_def sl_index_Ok zero_Tag_def tag_accessors flv_consts Let_def)
next
  case False
  with assms show ?thesis
    by (simp add: parseVideoHeader_def sl_index_Ok zero_Tag_def tag_accessors flv_consts Let_def)
qed

lemma parseAudioHeader_seq:
  assumes "1 \<le> sl_len d" "drop_bit 4 (bytes d ! 0) = 10 \<longrightarrow> 2 \<le> sl_len d"
  shows "\<exists>t n. parseAudioHeader zero_Tag d = Ok (t, n, None)
    \<and> (SoundFormat t = 10 \<and> AACPacketType t = 0 \<longleftrightarrow> drop_bit 4 (bytes d ! 0) = 10 \<and> bytes d ! 1 = 0)"
  using assms
  by (cases "drop_bit 4 (bytes d ! 0) = 10")
    (simp_all add: parseAudioHeader_def sl_index_Ok zero_Tag_def tag_accessors flv_consts Let_def)

text \<open>The media header of a readable tag; an unreadable one yields an error or a panic.\<close>

lemma DemuxHeader_readable:
  assumes ok: "slice_ok (Data p)" and r: "tag_readable (bytes (Data p))"
    and v: "IsVideo p = (bytes (Data p) ! 0 = 9)"
  shows "\<exists>t. DemuxHeader p = Ok (p\<lparr>Header := Some t\<rparr>, None)
    \<and> (IsVideo p \<longrightarrow> (IsSeq t \<longleftrightarrow> drop_bit 4 (bytes (Data p) ! 11) = 1 \<and> bytes (Data p) ! 12 = 0))
    \<and> (\<not> IsVideo p \<longrightarrow> (SoundFormat t = 10 \<and> AACPacketType t = 0 \<longleftrightarrow>
          drop_bit 4 (bytes (Data p) ! 11) = 10 \<and> bytes (Data p) ! 12 = 0))"
proof -
  from ok r have len: "12 \<le> sl_len (Data p)" "IsVideo p \<Longrightarrow> 16 \<le> sl_len (Data p)"
      "\<not> IsVideo p \<Longrightarrow> drop_bit 4 (bytes (Data p) ! 11) = 10 \<Longrightarrow> 13 \<le> sl_len (Data p)"
    by (simp_all add: tag_readable_def v)
  then obtain d where d: "sl_from (Data p) 11 = Ok d" "slice_ok d" "sl_len d = sl_len (Data p) - 11"
      "bytes d = drop 11 (bytes (Data p))"
    using sl_from_11 [OF ok] by auto
  then have nth: "bytes d ! 0 = bytes (Data p) ! 11" "bytes d ! 1 = bytes (Data p) ! 12"
    using ok len(1) by simp_all
  show ?thesis
  proof (cases "IsVideo p")
    case True
    with len(2) d(3) have "5 \<le> sl_len d" by simp
    then obtain t n where "parseVideoHeader zero_Tag d = Ok (t, n, None)"
        "IsSeq t \<longleftrightarrow> drop_bit 4 (bytes d ! 0) = 1 \<and> bytes d ! 1 = 0"
      using parseVideoHeader_seq by blast
    with True d nth show ?thesis
      by (intro exI [of _ t]) (simp add: DemuxHeader_def ParseMediaTagHeader_def)
  next
    case False
    with len(1,3) d(3) nth have "1 \<le> sl_len d" "drop_bit 4 (bytes d ! 0) = 10 \<longrightarrow> 2 \<le> sl_len d"
      by auto
    then obtain t n where "parseAudioHeader zero_Tag d = Ok (t, n, None)"
        "SoundFormat t = 10 \<and> AACPacketType t = 0 \<longleftrightarrow> drop_bit 4 (bytes d ! 0) = 10 \<and> bytes d ! 1 = 0"
      using parseAudioHeader_seq by blast
    with False d nth show ?thesis
      by (intro exI [of _ t]) (simp add: DemuxHeader_def ParseMediaTagHeader_def)
  qed
qed

lemma DemuxHeader_unreadable:
  assumes ok: "slice_ok (Data p)" and r: "\<not> tag_readable (bytes (Data p))"
    and v: "IsVideo p = (bytes (Data p) ! 0 = 9)"
  shows "(\<exists>e. DemuxHeader p = Panic e) \<or> (\<exists>e. DemuxHeader p = Ok (p, Some e))"
proof (cases "11 \<le> sl_len (Data p)")
  case False
  then show ?thesis by (simp add: DemuxHeader_def sl_from_def sl_slice_def)
next
  case True
  then obtain d where d: "sl_from (Data p) 11 = Ok d" "slice_ok d" "sl_len d = sl_len (Data p) - 11"
      "bytes d = drop 11 (bytes (Data p))"
    using sl_from_11 [OF ok] by auto
  show ?thesis
  proof (cases "sl_len d = 0 \<or> IsVideo p")
    case True
    with ok r d v show ?thesis
      by (auto simp: DemuxHeader_def ParseMediaTagHeader_def parseVideoHeader_def parseAudioHeader_def
          tag_readable_def)
  next
    case False
    with ok r d v have "sl_len d = 1" "drop_bit 4 (bytes d ! 0) = 10"
      by (auto simp: tag_readable_def)
    with False d show ?thesis
      by (simp add: DemuxHeader_def ParseMediaTagHeader_def parseAudioHeader_def sl_index_Ok
          sl_index_Panic flv_consts Let_def)
  qed
qed

subsection \<open>What the cache remembers\<close>

definition seg :: "SegmentPacket \<Rightarrow> byte list option" where
  "seg sp = (if sp_full sp then map_option (\<lambda>p. bytes (Data p)) (sp_p sp) else None)"

definition cache_shape :: "SegmentCache \<Rightarrow> bool" where
  "cache_shape c \<longleftrightarrow> metadata c = zero_SegmentPacket
     \<and> sp_full (videoSeq c) = (sp_p (videoSeq c) \<noteq> None)
     \<and> sp_full (audioSeq c) = (sp_p (audioSeq c) \<noteq> None)
     \<and> full c = (sp_full (videoSeq c) \<and> sp_full (audioSeq c))"

definition cache_inv :: "SegmentCache \<Rightarrow> bool" where
  "cache_inv c \<longleftrightarrow> cache_shape c
     \<and> (\<forall>p. sp_p (videoSeq c) = Some p \<or> sp_p (audioSeq c) = Some p \<longrightarrow> slice_ok (Data p))"

lemma cache_inv_NewCache [simp]: "cache_inv NewCache"
  by (simp add: cache_inv_def cache_shape_def NewCache_def zero_SegmentPacket_def)

lemma cache_inv_shape [simp]: "cache_inv c \<Longrightarrow> cache_shape c"
  by (simp add: cache_inv_def cache_shape_def)

lemma cache_add_shape:
  assumes "cache_add c tag = Ok c'" "cache_shape c"
  shows "cache_shape c'"
proof -
  obtain p p' err where p: "SegmentCache_Write c p = Ok c'" "DemuxHeader p = Ok (p', err)"
    using assms(1) by (auto simp: cache_add_def SegmentCache_Write_def andthen_eq_Ok)
  let ?a = "c\<lparr>audioSeq := SegmentPacket_Write (audioSeq c) p'\<rparr>" and ?v = "c\<lparr>videoSeq := SegmentPacket_Write (videoSeq c) p'\<rparr>"
  define d where "d = (if IsAudio p' then (case Header p' of None \<Rightarrow> c | Some ah \<Rightarrow>
        if SoundFormat ah = SOUND_AAC \<and> AACPacketType ah = AAC_SEQHDR then ?a else c)
      else if IsVideo p' then (case Header p' of None \<Rightarrow> c | Some vh \<Rightarrow> if IsSeq vh then ?v else c) else c)"
  have "d = c \<or> d = ?a \<or> d = ?v" by (simp add: d_def split: option.split)
  moreover have "c' = (if sp_full (videoSeq d) \<and> sp_full (audioSeq d) then d\<lparr>full := True\<rparr> else d)"
    using p(1) by (cases err) (simp_all add: SegmentCache_Write_def p(2) CheckError_def Let_def flip: d_def, auto simp: d_def split: if_splits)
  ultimately show ?thesis using assms(2)
    by (cases c) (auto simp: cache_shape_def SegmentPacket_Write_def)
qed

lemma cache_add_readable:
  assumes ok: "slice_ok tag" and r: "tag_readable (bytes tag)" and c: "cache_inv c"
  shows "\<exists>c'. cache_add c tag = Ok c' \<and> cache_inv c'
    \<and> seg (audioSeq c') = (if aac_seq_header (bytes tag) then Some (bytes tag) else seg (audioSeq c))
    \<and> seg (videoSeq c') = (if avc_seq_header (bytes tag) then Some (bytes tag) else seg (videoSeq c))"
proof -
  from ok r have "8 \<le> sl_len tag" by (simp add: tag_readable_def)
  then obtain p where p: "Packet_Parse zero_Packet tag False = Ok p" "Data p = tag"
      "IsAudio p = (bytes tag ! 0 = 8)" "IsVideo p = (bytes tag ! 0 = 9)"
    using Packet_Parse_fields [OF ok] by blast
  obtain t where t: "DemuxHeader p = Ok (p\<lparr>Header := Some t\<rparr>, None)"
      "IsVideo p \<Longrightarrow> IsSeq t \<longleftrightarrow> avc_seq_header (bytes tag)"
      "IsAudio p \<Longrightarrow> SoundFormat t = 10 \<and> AACPacketType t = 0 \<longleftrightarrow> aac_seq_header (bytes tag)"
    using DemuxHeader_readable [of p] ok r p by (auto simp: avc_seq_header_def aac_seq_header_def)
  have other: "\<not> IsVideo p \<Longrightarrow> \<not> avc_seq_header (bytes tag)" "\<not> IsAudio p \<Longrightarrow> \<not> aac_seq_header (bytes tag)"
      "IsAudio p \<Longrightarrow> \<not> IsVideo p"
    by (simp_all add: p avc_seq_header_def aac_seq_header_def)
  show ?thesis
    using p t other c ok
    by (cases "IsAudio p"; cases "IsVideo p")
      (auto simp: cache_add_def SegmentCache_Write_def SegmentPacket_Write_def seg_def cache_inv_def cache_shape_def
        SOUND_AAC_def AAC_SEQHDR_def)
qed


lemma cache_add_unreadable:
  assumes ok: "slice_ok tag" and r: "\<not> tag_readable (bytes tag)"
  shows "\<exists>e. cache_add c tag = Panic e"
proof (cases "8 \<le> sl_len tag")
  case False
  then have "\<exists>e. Packet_Parse zero_Packet tag False = Panic e"
    by (cases "0 < sl_len tag") (simp_all add: Packet_Parse_def sl_index_def Let_def)
  then show ?thesis by (auto simp: cache_add_def)
next
  case True
  then obtain p where "Packet_Parse zero_Packet tag False = Ok p" "Data p = tag"
      "IsVideo p = (bytes tag ! 0 = 9)"
    using Packet_Parse_fields [OF ok] by blast
  then show ?thesis
    using DemuxHeader_unreadable [of p] ok r by (auto simp: cache_add_def SegmentCache_Write_def)
qed

text \<open>
  C26: a complete tag offered to the cache of initialisation segments is stored as the stream's
  audio segment exactly when it is an AAC sequence header, and as its video segment exactly when
  it is a key frame with packet type 0; the cache reports itself full exactly when it holds both,
  and never holds metadata. A tag too short for its media header ends the process with a panic.
\<close>

theorem cache_add_spec:
  assumes "slice_ok tag" "cache_inv c"
  shows "if tag_readable (bytes tag) then
      \<exists>c'. cache_add c tag = Ok c' \<and> cache_inv c'
        \<and> seg (audioSeq c') = (if aac_seq_header (bytes tag) then Some (bytes tag) else seg (audioSeq c))
        \<and> seg (videoSeq c') = (if avc_seq_header (bytes tag) then Some (bytes tag) else seg (videoSeq c))
    else \<exists>e. cache_add c tag = Panic e"
  using cache_add_readable [OF assms(1) _ assms(2)] cache_add_unreadable [OF assms(1)] by simp

theorem cache_add_spec_witness:
  "slice_ok demo_tag \<and> cache_inv NewCache \<and>
   (\<exists>c'. cache_add NewCache demo_tag = Ok c' \<and> seg (videoSeq c') = Some (bytes demo_tag))"
  using cache_add_spec [of demo_tag NewCache]
  by (auto simp: demo_tag_def tag_readable_def avc_seq_header_def)

subsection \<open>Sending the initialisation segments\<close>

definition initial_segments :: "SegmentCache \<Rightarrow> slice list" where
  "initial_segments c =
     (case sp_p (videoSeq c) of None \<Rightarrow> [] | Some p \<Rightarrow> [Data p])
     @ (case sp_p (audioSeq c) of None \<Rightarrow> [] | Some p \<Rightarrow> [Data p])"

definition enqueue_all :: "FLVWriter \<Rightarrow> slice list \<Rightarrow> FLVWriter" where
  "enqueue_all w ps = w\<lparr>packetQueue := (packetQueue w)\<lparr>ch_buf := ch_buf (packetQueue w) @ ps\<rparr>\<rparr>"

lemma length_initial_segments: "length (initial_segments c) \<le> 2"
  by (simp add: initial_segments_def split: option.splits)

lemma Write_open:
  assumes "\<not> Closed w" "\<not> ch_closed (packetQueue w)"
    and "length (ch_buf (packetQueue w)) < ch_cap (packetQueue w)"
  shows "Write w p = Ok (enqueue_all w [p], None)"
  using assms by (simp add: Write_def chan_send_def enqueue_all_def)

lemma SendInitialSegment_open:
  assumes c: "cache_shape c" and w: "\<not> Closed w" "\<not> ch_closed (packetQueue w)"
    and room: "length (ch_buf (packetQueue w)) + length (initial_segments c) \<le> ch_cap (packetQueue w)"
  shows "SendInitialSegment c w = Ok (enqueue_all w (initial_segments c), None)"
  using assms
  by (auto simp: SendInitialSegment_def SegmentPacket_Send_def cache_inv_def cache_shape_def zero_SegmentPacket_def
      initial_segments_def Write_open enqueue_all_def split: option.splits)

lemma Write_Ok:
  assumes "Write w p = Ok (w', err)" "\<not> Closed w" "\<not> ch_closed (packetQueue w)"
  shows "err = None \<and> w' = enqueue_all w [p]"
  using assms by (auto simp: Write_def chan_send_def enqueue_all_def split: if_splits)

lemma SendInitialSegment_Ok:
  assumes "SendInitialSegment c w = Ok (w', err)" "cache_shape c" "\<not> Closed w" "\<not> ch_closed (packetQueue w)"
  shows "err = None \<and> w' = enqueue_all w (initial_segments c)"
  using assms
  by (auto simp: SendInitialSegment_def SegmentPacket_Send_def cache_shape_def zero_SegmentPacket_def
      initial_segments_def andthen_eq_Ok enqueue_all_def split: option.splits if_splits dest!: Write_Ok)

lemma SendInitialSegment_closed:
  assumes "SendInitialSegment c w = Ok (w', Some e)" "\<not> ch_closed (packetQueue w)"
  shows "Closed w"
  using assms
  by (auto simp: SendInitialSegment_def SegmentPacket_Send_def Write_def chan_send_def andthen_eq_Ok
      split: if_splits option.splits)

end
