(* ===== verification/Flv_File.thy ===== *)
theory Flv_File
  imports Go_Prelude
begin

text \<open>
  The recording file (\<open>src/utils/flv.go\<close>) over a model of an operating-system file: its bytes, the
  offset, and whether it is closed or the device fails. The duration, a \<open>float64\<close>, is kept as the
  64 bits that \<open>binary.Write\<close> stores.
\<close>

subsection \<open>Operating-system files\<close>

record os_file =
  fs_data :: "byte list"
  fs_pos :: nat
  fs_closed :: bool
  fs_fail :: bool

definition overwrite :: "byte list \<Rightarrow> nat \<Rightarrow> byte list \<Rightarrow> byte list" where
  "overwrite xs i bs = take i xs @ replicate (i - length xs) 0 @ bs @ drop (i + length bs) xs"

definition fs_write :: "os_file \<Rightarrow> byte list \<Rightarrow> os_file \<times> string option" where
  "fs_write f bs =
     (if fs_closed f then (f, Some ''file already closed'')
      else if fs_fail f then (f, Some ''input/output error'')
      else (f\<lparr>fs_data := overwrite (fs_data f) (fs_pos f) bs, fs_pos := fs_pos f + length bs\<rparr>, None))"

text \<open>\<open>Seek\<close> with whence 0 (start), 1 (current) or 2 (end).\<close>

definition fs_seek :: "os_file \<Rightarrow> nat \<Rightarrow> nat \<Rightarrow> os_file \<times> (nat \<times> string option)" where
  "fs_seek f off whence =
     (if fs_closed f then (f, 0, Some ''file already closed'')
      else let p = (if whence = 0 then off else if whence = 1 then fs_pos f + off
                    else length (fs_data f) + off)
           in (f\<lparr>fs_pos := p\<rparr>, p, None))"

definition fs_sync :: "os_file \<Rightarrow> string option" where
  "fs_sync f = (if fs_closed f then Some ''file already closed''
     else if fs_fail f then Some ''input/output error'' else None)"

subsection \<open>FLV files\<close>

definition HEADER_BYTES :: "byte list" where
  "HEADER_BYTES =
    [70, 76, 86, 1, 5, 0, 0, 0, 9, 0, 0, 0, 0,
     18, 0, 0, 40, 0, 0, 0, 0, 0, 0, 0,
     2, 0, 10, 111, 110, 77, 101, 116, 97, 68, 97, 116, 97,
     8, 0, 0, 0, 1,
     0, 8, 100, 117, 114, 97, 116, 105, 111, 110,
     0, 0, 0, 0, 0, 0, 0, 0, 0,
     0, 0, 9,
     0, 0, 0, 51]"

definition DURATION_OFFSET :: nat where "DURATION_OFFSET = 53"
definition HEADER_LEN :: nat where "HEADER_LEN = 13"

record File =
  fd :: os_file
  fname :: string
  readOnly :: bool
  fsize :: int
  headerBuf :: slice
  duration :: u64
  lastTimestamp :: u32
  firstTimestampSet :: bool
  firstTimestamp :: u32

text \<open>
  \<open>os.Create\<close> fails or gives an empty file; \<open>fail\<close> is the state of the device. If there was a file with
  this name, it is truncated (see \<open>on_path\<close> below, which \<open>open_record\<close> applies).
\<close>

definition CreateFile :: "string \<Rightarrow> string option \<Rightarrow> bool \<Rightarrow> string + File" where
  "CreateFile name create_err fail = (case create_err of
       Some e \<Rightarrow> Inl e
     | None \<Rightarrow>
       (case fs_write \<lparr>fs_data = [], fs_pos = 0, fs_closed = False, fs_fail = fail\<rparr> HEADER_BYTES of
          (f, Some e) \<Rightarrow> Inl e
        | (f, None) \<Rightarrow>
          (case fs_sync f of
             Some e \<Rightarrow> Inl e
           | None \<Rightarrow> Inr \<lparr>fd = f, fname = name, readOnly = False, fsize = 0,
               headerBuf = make_bytes 11, duration = 0, lastTimestamp = 0,
               firstTimestampSet = False, firstTimestamp = 0\<rparr>)))"

definition File_Close :: "File \<Rightarrow> File" where
  "File_Close f = f\<lparr>fd := (fd f)\<lparr>fs_closed := True\<rparr>\<rparr>"

definition WriteTagDirect :: "File \<Rightarrow> byte list \<Rightarrow> File \<times> string option" where
  "WriteTagDirect f tag =
     (case fs_write (fd f) tag of
        (x, Some e) \<Rightarrow> (f\<lparr>fd := x\<rparr>, Some e)
      | (x, None) \<Rightarrow>
        (case fs_write x (put32 (word_of_nat (length tag))) of
           (y, Some e) \<Rightarrow> (f\<lparr>fd := y\<rparr>, Some e)
         | (y, None) \<Rightarrow> (f\<lparr>fd := y\<rparr>, None)))"

definition SetDuration :: "File \<Rightarrow> u64 \<Rightarrow> File" where
  "SetDuration f d = f\<lparr>duration := d\<rparr>"

definition put64 :: "u64 \<Rightarrow> byte list" where
  "put64 v = put32 (ucast (drop_bit 32 v)) @ put32 (ucast v)"

definition Sync :: "File \<Rightarrow> File \<times> string option" where
  "Sync f =
     (case fs_seek (fd f) DURATION_OFFSET 0 of
        (x, _, Some e) \<Rightarrow> (f\<lparr>fd := x\<rparr>, Some e)
      | (x, _, None) \<Rightarrow>
        (case fs_write x (put64 (duration f)) of
           (y, Some e) \<Rightarrow> (f\<lparr>fd := y\<rparr>, Some e)
         | (y, None) \<Rightarrow>
           (case fs_seek y 0 2 of
              (z, _, Some e) \<Rightarrow> (f\<lparr>fd := z\<rparr>, Some e)
            | (z, _, None) \<Rightarrow> (f\<lparr>fd := z\<rparr>, fs_sync z))))"

definition Size :: "File \<Rightarrow> int" where
  "Size f = fsize f"

definition IsFinished :: "File \<Rightarrow> File \<times> bool" where
  "IsFinished f = (case fs_seek (fd f) 0 1 of (x, p, err) \<Rightarrow>
     (f\<lparr>fd := x\<rparr>, err \<noteq> None \<or> int p \<ge> fsize f))"

definition LoopBack :: "File \<Rightarrow> File" where
  "LoopBack f = f\<lparr>fd := fst (fs_seek (fd f) HEADER_LEN 0)\<rparr>"

definition FilePath :: "File \<Rightarrow> string" where
  "FilePath f = fname f"

subsection \<open>Files with the same name\<close>

text \<open>
  The bytes belong to the file on the disk, the offset to the descriptor: when several descriptors
  have been opened under one name, each sees what is written through the others. A store of
  descriptors keeps the bytes with each of them; \<open>on_path\<close> sets them for all descriptors of a name (as
  \<open>os.Create\<close> does when it truncates the file), \<open>put_file\<close> stores a descriptor after a write.
\<close>

definition on_path :: "string \<Rightarrow> byte list \<Rightarrow> (nat \<Rightarrow> File) \<Rightarrow> nat \<Rightarrow> File" where
  "on_path name bs fs = (\<lambda>i. if fname (fs i) = name then (fs i)\<lparr>fd := (fd (fs i))\<lparr>fs_data := bs\<rparr>\<rparr> else fs i)"

definition put_file :: "nat \<Rightarrow> File \<Rightarrow> (nat \<Rightarrow> File) \<Rightarrow> nat \<Rightarrow> File" where
  "put_file r f fs = (on_path (fname f) (fs_data (fd f)) fs)(r := f)"

lemma on_path_facts [simp]:
  "fname (on_path name bs fs i) = fname (fs i)" "fname (fs i) \<noteq> name \<Longrightarrow> on_path name bs fs i = fs i"
  by (simp_all add: on_path_def)

lemma put_file_facts [simp]:
  "put_file r f fs r = f" "i \<noteq> r \<Longrightarrow> fname (put_file r f fs i) = fname (fs i)"
  "i \<noteq> r \<Longrightarrow> fname (fs i) \<noteq> fname f \<Longrightarrow> put_file r f fs i = fs i"
  by (simp_all add: put_file_def)

subsection \<open>Contents of a recording\<close>

definition rec_frame :: "byte list \<Rightarrow> byte list" where
  "rec_frame tag = tag @ put32 (word_of_nat (length tag))"

definition recording :: "File \<Rightarrow> bool" where
  "recording f \<longleftrightarrow> \<not> fs_closed (fd f) \<and> \<not> fs_fail (fd f)
     \<and> fs_pos (fd f) = length (fs_data (fd f)) \<and> 68 \<le> length (fs_data (fd f))"

lemma overwrite_end: "overwrite xs (length xs) bs = xs @ bs"
  by (simp add: overwrite_def)

lemma length_put64 [simp]: "length (put64 v) = 8"
  by (simp add: put64_def)

lemma length_HEADER_BYTES [simp]: "length HEADER_BYTES = 68"
  by (simp add: HEADER_BYTES_def)

lemma CreateFile_recording:
  assumes "CreateFile name ce fail = Inr f"
  shows "recording f" "fs_data (fd f) = HEADER_BYTES"
  using assms
  by (auto simp: CreateFile_def fs_write_def fs_sync_def recording_def overwrite_def
      split: option.splits if_splits)

lemma WriteTagDirect_recording:
  assumes "recording f"
  shows "\<exists>f'. WriteTagDirect f tag = (f', None) \<and> recording f'
    \<and> fs_data (fd f') = fs_data (fd f) @ rec_frame tag"
  using assms
  by (auto simp: WriteTagDirect_def fs_write_def recording_def rec_frame_def overwrite_end)
    (simp_all add: overwrite_def)


lemma Sync_recording:
  assumes "recording f"
  shows "\<exists>f'. Sync f = (f', None) \<and> recording f'
    \<and> fs_data (fd f') = take 53 (fs_data (fd f)) @ put64 (duration f) @ drop 61 (fs_data (fd f))"
  using assms
  by (auto simp: Sync_def fs_seek_def fs_write_def fs_sync_def recording_def overwrite_def
      DURATION_OFFSET_def Let_def)

fun WriteTags :: "File \<Rightarrow> byte list list \<Rightarrow> File \<times> string option" where
  "WriteTags f [] = (f, None)"
| "WriteTags f (t # ts) = (case WriteTagDirect f t of
     (f', Some e) \<Rightarrow> (f', Some e) | (f', None) \<Rightarrow> WriteTags f' ts)"

lemma WriteTags_recording:
  assumes "recording f"
  shows "\<exists>f'. WriteTags f ts = (f', None) \<and> recording f'
    \<and> fs_data (fd f') = fs_data (fd f) @ concat (map rec_frame ts)"
  using assms
proof (induction ts arbitrary: f)
  case Nil
  then show ?case by simp
next
  case (Cons t ts)
  obtain f1 where "WriteTagDirect f t = (f1, None)" "recording f1"
      "fs_data (fd f1) = fs_data (fd f) @ rec_frame t"
    using WriteTagDirect_recording [OF Cons.prems] by blast
  then show ?case
    using Cons.IH [of f1] by auto
qed

text \<open>What a file contains, under which name, and where it is written next; closing it changes none of them.\<close>

definition contents :: "File \<Rightarrow> string \<times> byte list \<times> nat" where
  "contents f = (fname f, fs_data (fd f), fs_pos (fd f))"

definition at_end :: "File \<Rightarrow> bool" where
  "at_end f \<longleftrightarrow> fs_pos (fd f) = length (fs_data (fd f))"

lemma contents_Close [simp]: "contents (File_Close f) = contents f"
  by (simp add: contents_def File_Close_def)

lemma at_end_contents:
  "contents f' = contents f \<Longrightarrow> at_end f' = at_end f \<and> fs_data (fd f') = fs_data (fd f) \<and> fname f' = fname f"
  by (simp add: contents_def at_end_def)

lemma CreateFile_at_end: "CreateFile name e fail = Inr f \<Longrightarrow> at_end f \<and> fs_data (fd f) = HEADER_BYTES \<and> fname f = name"
  by (auto simp: CreateFile_def fs_write_def fs_sync_def at_end_def overwrite_def split: option.splits if_splits)

lemma WriteTagDirect_at_end:
  assumes "WriteTagDirect f t = (f', None)" "at_end f"
  shows "at_end f' \<and> fs_data (fd f') = fs_data (fd f) @ rec_frame t"
  using assms by (auto simp: WriteTagDirect_def fs_write_def at_end_def overwrite_def rec_frame_def split: if_splits)

lemma WriteTags_at_end:
  assumes "WriteTags f ts = (f', None)" "at_end f"
  shows "at_end f' \<and> fs_data (fd f') = fs_data (fd f) @ concat (map rec_frame ts)"
  using assms
proof (induction ts arbitrary: f)
  case (Cons t ts)
  then obtain f1 where "WriteTagDirect f t = (f1, None)" "WriteTags f1 ts = (f', None)"
    by (auto split: prod.splits option.splits)
  with Cons.IH [of f1] WriteTagDirect_at_end [of f t f1] Cons.prems(2) show ?case by simp
qed simp

lemma WriteTagDirect_fname: "WriteTagDirect f t = (f', e) \<Longrightarrow> fname f' = fname f"
  by (auto simp: WriteTagDirect_def split: prod.splits option.splits)

lemma WriteTags_append: "WriteTags f ts = (f1, None) \<Longrightarrow> WriteTags f (ts @ us) = WriteTags f1 us"
  by (induction ts arbitrary: f) (auto split: prod.splits option.splits)

text \<open>
  C32: a recording is the 68-byte FLV preamble followed by every tag written to it, in order, each
  with its length, and updating the duration afterwards changes the eight bytes at offset 53 only.
\<close>

theorem recording_contents:
  assumes "CreateFile name None False = Inr f"
  shows "\<exists>f' f''. WriteTags f ts = (f', None)
    \<and> fs_data (fd f') = HEADER_BYTES @ concat (map rec_frame ts)
    \<and> Sync (SetDuration f' d) = (f'', None)
    \<and> fs_data (fd f'') = take 53 HEADER_BYTES @ put64 d @ drop 61 HEADER_BYTES
        @ concat (map rec_frame ts)"
proof -
  obtain f' where f': "WriteTags f ts = (f', None)" "recording f'"
      "fs_data (fd f') = HEADER_BYTES @ concat (map rec_frame ts)"
    using WriteTags_recording [OF CreateFile_recording(1) [OF assms], of ts]
      CreateFile_recording(2) [OF assms] by auto
  then have "recording (SetDuration f' d)"
    by (simp add: recording_def SetDuration_def)
  from Sync_recording [OF this] f' show ?thesis
    by (auto simp: SetDuration_def)
qed

theorem recording_contents_witness:
  "\<exists>f f' f''. CreateFile ''record/movie.flv'' None False = Inr f
    \<and> WriteTags f [[9, 0, 0, 1, 0, 0, 0, 0, 0, 0, 0, 23]] = (f', None)
    \<and> fs_data (fd f') = HEADER_BYTES @ concat (map rec_frame [[9, 0, 0, 1, 0, 0, 0, 0, 0, 0, 0, 23]])
    \<and> Sync (SetDuration f' 0) = (f'', None)"
proof -
  obtain f where f: "CreateFile ''record/movie.flv'' None False = Inr f"
    by (simp add: CreateFile_def fs_write_def fs_sync_def)
  show ?thesis
    using f recording_contents [OF f, of "[[9, 0, 0, 1, 0, 0, 0, 0, 0, 0, 0, 23]]" 0] by blast
qed

end
