(* ===== verification/Publishers.thy ===== *)
theory Publishers
  imports Config
begin

text \<open>
  The list of published streams that the edge node polls from the cloud node's HTTP API
  (\<open>Get\<close>, \<open>UpdatePublishers\<close> in \<open>src/utils/util.go\<close>). The model starts from the decoded JSON value;
  the HTTP exchange is the parameter \<open>HttpGet\<close> of the environment.
\<close>

datatype json = JNull | JBool bool | JNum rat | JStr string | JArr "json list"
  | JObj "(string \<times> json) list"

text \<open>
  An HTTP exchange ends with a transport error, with an error while reading or decoding the body,
  or with a decoded value.
\<close>

datatype http_result = Transport_Error string | Body_Error string | Body json

record Publisher =
  Key :: string
  pub_url :: string
  StartTime :: int
  pub_Ssrc :: u32
  pub_id :: u32
  video_total_bytes :: u64
  video_speed :: u64
  audio_total_bytes :: u64
  audio_speed :: u64

subsection \<open>Interface values\<close>

text \<open>
  Indexing a decoded object: the last of several equal keys counts, a missing key gives \<open>nil\<close>,
  which like JSON \<open>null\<close> fails every type assertion.
\<close>

definition jfield :: "(string \<times> json) list \<Rightarrow> string \<Rightarrow> json" where
  "jfield m k = (case map_of (rev m) k of None \<Rightarrow> JNull | Some v \<Rightarrow> v)"

definition as_map :: "json \<Rightarrow> (string \<times> json) list go" where
  "as_map j = (case j of JObj m \<Rightarrow> Ok m | _ \<Rightarrow> Panic TypeAssertion)"

definition as_slice :: "json \<Rightarrow> json list go" where
  "as_slice j = (case j of JArr xs \<Rightarrow> Ok xs | _ \<Rightarrow> Panic TypeAssertion)"

definition as_string :: "json \<Rightarrow> string go" where
  "as_string j = (case j of JStr s \<Rightarrow> Ok s | _ \<Rightarrow> Panic TypeAssertion)"

definition as_float64 :: "json \<Rightarrow> rat go" where
  "as_float64 j = (case j of JNum x \<Rightarrow> Ok x | _ \<Rightarrow> Panic TypeAssertion)"

text \<open>Conversion of a \<open>float64\<close> to an integer type discards the fraction.\<close>

definition truncate_float :: "rat \<Rightarrow> int" where
  "truncate_float x = (if 0 \<le> x then \<lfloor>x\<rfloor> else \<lceil>x\<rceil>)"

subsection \<open>Polling\<close>

definition Get :: "http_result \<Rightarrow> (string \<times> json) list option go" where
  "Get r = (case r of
       Transport_Error e \<Rightarrow> Ok None
     | Body_Error e \<Rightarrow> Panic (Explicit e)
     | Body j \<Rightarrow>
       andthen (case j of JObj m \<Rightarrow> Ok m | JNull \<Rightarrow> Ok []
                | _ \<Rightarrow> Panic (Explicit ''json: cannot unmarshal'')) (\<lambda>res.
       andthen (as_map (jfield res ''data'')) (\<lambda>dat.
         if jfield dat ''publishers'' = JNull then Ok None else Ok (Some res))))"

definition read_publisher :: "json \<Rightarrow> Publisher go" where
  "read_publisher pub =
     andthen (as_map pub) (\<lambda>p.
     andthen (as_float64 (jfield p ''ssrc'')) (\<lambda>ssrc.
     andthen (as_string (jfield p ''key'')) (\<lambda>key.
     andthen (as_string (jfield p ''url'')) (\<lambda>url.
     andthen (as_float64 (jfield p ''start_time'')) (\<lambda>st.
     andthen (as_float64 (jfield p ''stream_id'')) (\<lambda>sid.
     andthen (as_float64 (jfield p ''video_total_bytes'')) (\<lambda>vt.
     andthen (as_float64 (jfield p ''video_speed'')) (\<lambda>vs.
     andthen (as_float64 (jfield p ''audio_total_bytes'')) (\<lambda>atot.
     andthen (as_float64 (jfield p ''audio_speed'')) (\<lambda>aspd.
       Ok \<lparr>Key = key, pub_url = url, StartTime = truncate_float st,
           pub_Ssrc = word_of_int (truncate_float ssrc), pub_id = word_of_int (truncate_float sid),
           video_total_bytes = word_of_int (truncate_float vt),
           video_speed = word_of_int (truncate_float vs),
           audio_total_bytes = word_of_int (truncate_float atot),
           audio_speed = word_of_int (truncate_float aspd)\<rparr>))))))))))"

fun collect_publishers :: "json list \<Rightarrow> (u32 \<rightharpoonup> Publisher) \<Rightarrow> (u32 \<rightharpoonup> Publisher) go" where
  "collect_publishers [] m = Ok m"
| "collect_publishers (pub # pubs) m =
     andthen (read_publisher pub) (\<lambda>p. collect_publishers pubs (m(pub_Ssrc p \<mapsto> p)))"

text \<open>
  The nil map that \<open>UpdatePublishers\<close> returns without data is only ever read, as an empty map.
\<close>

definition UpdatePublishers :: "http_result \<Rightarrow> (u32 \<rightharpoonup> Publisher) go" where
  "UpdatePublishers r =
     andthen (Get r) (\<lambda>res. case res of
       None \<Rightarrow> Ok Map.empty
     | Some m \<Rightarrow>
       andthen (as_map (jfield m ''data'')) (\<lambda>dat.
       andthen (as_slice (jfield dat ''publishers'')) (\<lambda>pubs.
         collect_publishers pubs Map.empty)))"

end
