(* ===== verification/Hls_Source.thy ===== *)
theory Hls_Source
  imports Go_Prelude
begin

text \<open>
  The entrance of the HLS pipeline (\<open>src/protocol/hls/source.go\<close>): the bounded channel through which
  the stream's goroutine hands packets to the segmenter. The packet type comes from
  \<open>github.com/NOMADxzy/livego/av\<close>; the record holds the fields that the repository reads. The
  record \<open>Source\<close> has the fields that the stream's goroutine shares; \<open>Hls_Segmenter\<close> extends it by those
  of the segmenter.
\<close>

record av_Header =
  hd_SoundFormat :: byte
  hd_AACPacketType :: byte
  hd_IsKeyFrame :: bool
  hd_IsSeq :: bool
  hd_CodecID :: byte
  hd_CompositionTime :: "32 word"

record av_Packet =
  av_IsAudio :: bool
  av_IsVideo :: bool
  av_IsMetadata :: bool
  av_TimeStamp :: u32
  av_Header :: "av_Header option"
  av_Data :: slice

definition hls_maxQueueNum :: nat where "hls_maxQueueNum = 512"

record Source =
  src_Key :: string
  src_closed :: bool
  src_packetQueue :: "av_Packet chan"

text \<open>
  \<open>Write\<close>: a closed source is an error, and the deferred \<open>recover\<close> turns a send on a closed channel
  into one. The time stamp that \<open>SetPreTime\<close> takes is part of the environment.
\<close>

definition Source_Write :: "'a Source_scheme \<Rightarrow> av_Packet \<Rightarrow> ('a Source_scheme \<times> string option) go" where
  "Source_Write s p =
     (if src_closed s then Ok (s, Some ''hls source closed'')
      else case chan_send (src_packetQueue s) p of
        Ok c \<Rightarrow> Ok (s\<lparr>src_packetQueue := c\<rparr>, None)
      | Panic e \<Rightarrow> Ok (s, Some ''hls source has already been closed'')
      | Blocked \<Rightarrow> Blocked)"

end
