(* ===== verification/Rtp_Queue.thy ===== *)
theory Rtp_Queue
  imports Array_List Quic_Client Segment_Cache Flv_File Publishers Hls_Source
begin

text \<open>
  The stream queue (\<open>src/cache/RtpQueue.go\<close>): definitions. One \<open>Queue\<close> reorders the RTP packets of
  a stream, asks for lost ones over QUIC, reassembles FLV tags and hands each complete tag to
  the HTTP-FLV clients, the HLS source and the recording file. The functions are translated in
  the order of the file. The array lists of packets (\<open>al\<close>) and of writers (\<open>wl\<close>) and the
  environment are parameters; the locks, which only serialise the accesses, are not represented.
\<close>

subsection \<open>State\<close>

record ('l, 'm) Queue =
  Ssrc :: u32
  ChannelKey :: string
  FirstSeq :: u16
  PaddingWindowSize :: int
  queue :: 'l
  outChan :: "RtpPack option chan"
  InChan :: "RtpPack option chan"
  q_init :: bool
  flvRecord :: FlvRecord
  FlvWriters :: 'm
  hlsWriter :: "nat option"
  flvFile :: "nat option"
  cache :: SegmentCache
  accPackets :: int
  accLoss :: int
  accFlvTags :: int
  previousLostSeq :: u16
  startTime :: int
  delay :: int

text \<open>
  What a queue shares with the rest of the process: the fields of \<open>App\<close> it uses, the QUIC client
  with the network, and the writers, sources and files behind its pointers.
\<close>

record 'w Shared =
  UdpBufferSize :: int
  Publishers_map :: "u32 \<rightharpoonup> Publisher"
  quic :: "'w quic_state"
  writers :: "nat \<Rightarrow> FLVWriter"
  sources :: "nat \<Rightarrow> Source"
  files :: "nat \<Rightarrow> File"

text \<open>
  The environment: the QUIC library, the socket option, the HTTP client, the clock, and the two
  operations of the \<open>livego\<close> package that the queue calls.
\<close>

record 'w Env =
  quic_lib :: "'w quic_go"
  SetReadBuffer :: "int \<Rightarrow> 'w \<Rightarrow> string option \<times> 'w"
  HttpGet :: "string \<Rightarrow> 'w \<Rightarrow> http_result \<times> 'w"
  UnixMilli :: "'w \<Rightarrow> int"
  av_Parse :: "slice \<Rightarrow> bool \<Rightarrow> av_Packet go"
  SetPreTime :: "nat \<Rightarrow> 'w \<Rightarrow> 'w"

type_synonym 'l packets = "(RtpPack, 'l) arraylist_ops"
type_synonym 'm writer_refs = "(nat, 'm) arraylist_ops"
type_synonym ('l, 'm, 'w) qs = "('l, 'm) Queue \<times> 'w Shared"

abbreviation world :: "'w Shared \<Rightarrow> 'w" where
  "world s \<equiv> net (quic s)"

abbreviation set_world :: "'w \<Rightarrow> 'w Shared \<Rightarrow> 'w Shared" where
  "set_world n s \<equiv> s\<lparr>quic := (quic s)\<lparr>net := n\<rparr>\<rparr>"

definition make_chan_int :: "int \<Rightarrow> 'a chan go" where
  "make_chan_int n = (if n < 0 then Panic (Explicit ''makechan: size out of range'')
     else Ok (make_chan (nat n)))"

text \<open>\<open>hlsSrc\<close> is the source that \<open>hls.GetWriter(key)\<close> returns.\<close>

definition NewQueue :: "'l packets \<Rightarrow> 'm writer_refs \<Rightarrow> Config \<Rightarrow> nat \<Rightarrow> u32 \<Rightarrow> string \<Rightarrow> int
    \<Rightarrow> FlvRecord \<Rightarrow> nat option \<Rightarrow> ('l, 'm) Queue go" where
  "NewQueue al wl cfg hlsSrc ssrc key wz record file_ref =
     (let hlsW = (if ENABLE_HLS cfg then Some hlsSrc else None) in
      andthen (make_chan_int (RTP_QUEUE_CHAN_SIZE cfg)) (\<lambda>outc.
      andthen (make_chan_int (RTP_QUEUE_CHAN_SIZE cfg)) (\<lambda>inc.
        Ok \<lparr>Ssrc = ssrc, ChannelKey = key, FirstSeq = 0, PaddingWindowSize = wz, queue = al_New al,
            outChan = outc, InChan = inc, q_init = False, flvRecord = record,
            FlvWriters = al_New wl, hlsWriter = hlsW, flvFile = file_ref, cache = NewCache,
            accPackets = 0, accLoss = 0, accFlvTags = 0, previousLostSeq = 0, startTime = 0,
            delay = 0\<rparr>)))"

subsection \<open>The packet window\<close>

definition isFirstOk :: "'l packets \<Rightarrow> ('l, 'm) Queue \<Rightarrow> bool" where
  "isFirstOk al q = (case al_Get al (queue q) 0 of (rp, ok) \<Rightarrow> if ok then rp \<noteq> None else False)"

text \<open>The distance of a packet from the head of the window; the sum is taken in \<open>uint16\<close>.\<close>

definition relative_pos :: "u16 \<Rightarrow> u16 \<Rightarrow> int" where
  "relative_pos seq first =
     (if seq > first then int (unat (seq - first)) else int (unat (65535 - first + seq + 1)))"

text \<open>\<open>for i := size; i <= relative; i++\<close>: fill the gap with \<open>nil\<close>, then store the packet.\<close>

function enqueue_fill :: "'l packets \<Rightarrow> 'l \<Rightarrow> int \<Rightarrow> int \<Rightarrow> RtpPack \<Rightarrow> 'l" where
  "enqueue_fill al l i relative rp =
     (if i \<le> relative then
        (if i \<noteq> relative then enqueue_fill al (al_Set al l i None) (i + 1) relative rp
         else enqueue_fill al (al_Set al l i (Some rp)) (i + 1) relative rp)
      else l)"
  by pat_completeness auto
termination
  by (relation "measure (\<lambda>(al, l, i, relative, rp). nat (relative + 1 - i))") auto

declare enqueue_fill.simps [simp del]

definition Enqueue :: "'l packets \<Rightarrow> ('l, 'm) Queue \<Rightarrow> RtpPack option \<Rightarrow> ('l, 'm) Queue" where
  "Enqueue al q rp0 = (case rp0 of
     None \<Rightarrow> q
   | Some rp \<Rightarrow>
     let q = q\<lparr>accPackets := accPackets q + 1\<rparr>; seq = SequenceNumber rp in
     if al_Size al (queue q) = 0 then q\<lparr>FirstSeq := seq, queue := al_Add al (queue q) (Some rp)\<rparr>
     else if FirstBeforeSecond seq (FirstSeq q) then q
     else let relative = relative_pos seq (FirstSeq q) in
       if relative \<le> al_Size al (queue q) then q\<lparr>queue := al_Set al (queue q) relative (Some rp)\<rparr>
       else q\<lparr>queue := enqueue_fill al (queue q) (al_Size al (queue q)) relative rp\<rparr>)"

text \<open>
  The two loops that walk over \<open>nil\<close> entries. The first argument bounds the number of rounds by the
  size of the list; \<open>Blocked\<close> stands for a loop that has not ended within it, which the laws of the
  array list exclude.
\<close>

fun getHeadNil_loop :: "nat \<Rightarrow> 'l packets \<Rightarrow> 'l \<Rightarrow> int \<Rightarrow> int go" where
  "getHeadNil_loop 0 al l nils = Blocked"
| "getHeadNil_loop (Suc k) al l nils =
     (case al_Get al l nils of (val, ok) \<Rightarrow>
        if ok then (if val = None then getHeadNil_loop k al l (nils + 1) else Ok nils) else Ok nils)"

definition getHeadNil :: "'l packets \<Rightarrow> ('l, 'm) Queue \<Rightarrow> int go" where
  "getHeadNil al q = getHeadNil_loop (Suc (nat (al_Size al (queue q)))) al (queue q) 1"

fun reshape_loop :: "nat \<Rightarrow> 'l packets \<Rightarrow> ('l, 'm) Queue \<Rightarrow> int \<Rightarrow> (('l, 'm) Queue \<times> int) go" where
  "reshape_loop 0 al q removed = (if al_Size al (queue q) > 0 then Blocked else Ok (q, 0))"
| "reshape_loop (Suc k) al q removed =
     (if al_Size al (queue q) > 0 then
        let q = q\<lparr>queue := al_Remove al (queue q) 0, FirstSeq := FirstSeq q + 1,
                  accLoss := accLoss q + 1\<rparr>;
            removed = removed + 1
        in if isFirstOk al q then Ok (q, removed) else reshape_loop k al q removed
      else Ok (q, 0))"

definition reshape :: "'w Env \<Rightarrow> Config \<Rightarrow> 'l packets \<Rightarrow> ('l, 'm, 'w) qs \<Rightarrow> (('l, 'm, 'w) qs \<times> int) go" where
  "reshape env cfg al = (\<lambda>(q, s).
     case al_Get al (queue q) 1 of (val, ok) \<Rightarrow>
       if ok \<and> val = None then
         andthen (GetByQuic (quic_lib env) cfg (Ssrc q) (FirstSeq q + 1) (quic s)) (\<lambda>(_, st).
         andthen (reshape_loop (nat (al_Size al (queue q))) al q 0) (\<lambda>(q, removed).
           Ok ((q, s\<lparr>quic := st\<rparr>), removed)))
       else Ok ((q, s), 0))"

text \<open>
  The body of \<open>if nils > 5\<close>: drop the run of lost packets, double the UDP buffer up to the bound,
  and skip to the next tag head. The Boolean is false when \<open>SetReadBuffer\<close> failed: the panic is
  recovered by the deferred function, which ends \<open>runQuic\<close> there.
\<close>

definition protect_reshape :: "'w Env \<Rightarrow> Config \<Rightarrow> 'l packets \<Rightarrow> ('l, 'm, 'w) qs
    \<Rightarrow> (('l, 'm, 'w) qs \<times> bool) go" where
  "protect_reshape env cfg al qs =
     andthen (reshape env cfg al qs) (\<lambda>((q, s), _).
     let s = s\<lparr>UdpBufferSize := UdpBufferSize s * 2\<rparr>;
         (s, err) = (if UdpBufferSize s > MAX_UDP_CACHE_SIZE
           then (s\<lparr>UdpBufferSize := UdpBufferSize s div 2\<rparr>, None)
           else (case SetReadBuffer env (UdpBufferSize s) (world s) of (err, n) \<Rightarrow> (set_world n s, err)))
     in if err \<noteq> None then Ok ((q, s), False)
        else Ok ((q\<lparr>flvRecord := (Reset (flvRecord q))\<lparr>jumpToNextHead := True\<rparr>\<rparr>, s), True))"

text \<open>The test for consecutive losses at the start of \<open>runQuic\<close>.\<close>

definition check_congestion :: "'w Env \<Rightarrow> Config \<Rightarrow> 'l packets \<Rightarrow> u16 \<Rightarrow> ('l, 'm, 'w) qs
    \<Rightarrow> (('l, 'm, 'w) qs \<times> bool) go" where
  "check_congestion env cfg al seq = (\<lambda>(q, s).
     if seq = previousLostSeq q + 1 \<and> PROTECT cfg then
       andthen (getHeadNil al q) (\<lambda>nils.
         if nils > 5 then protect_reshape env cfg al (q, s) else Ok ((q, s), True))
     else Ok ((q, s), True))"

definition runQuic :: "'w Env \<Rightarrow> Config \<Rightarrow> 'l packets \<Rightarrow> u16 \<Rightarrow> ('l, 'm, 'w) qs \<Rightarrow> ('l, 'm, 'w) qs go" where
  "runQuic env cfg al seq = (\<lambda>(q, s).
     andthen (check_congestion env cfg al seq (q\<lparr>accLoss := accLoss q + 1\<rparr>, s)) (\<lambda>((q, s), continue).
     if \<not> continue then Ok (q, s) else
     andthen (GetByQuic (quic_lib env) cfg (Ssrc q) seq (quic s)) (\<lambda>(pkt, st).
       Ok (Enqueue al (q\<lparr>previousLostSeq := seq\<rparr>) pkt, s\<lparr>quic := st\<rparr>))))"

definition Dequeue :: "'w Env \<Rightarrow> Config \<Rightarrow> 'l packets \<Rightarrow> ('l, 'm, 'w) qs
    \<Rightarrow> (RtpPack option \<times> ('l, 'm, 'w) qs) go" where
  "Dequeue env cfg al = (\<lambda>(q, s).
     andthen (if \<not> isFirstOk al q then runQuic env cfg al (FirstSeq q) (q, s) else Ok (q, s)) (\<lambda>(q, s).
     let protoRp = fst (al_Get al (queue q) 0) in
     Ok (protoRp, q\<lparr>queue := al_Remove al (queue q) 0, FirstSeq := FirstSeq q + 1\<rparr>, s)))"


subsection \<open>Delivery of a complete tag\<close>

text \<open>
  \<open>getDelay\<close> reads the tag's time stamp; on the first call it polls the cloud (and ignores the
  answer) and takes the start time from the publisher table.
\<close>

definition livestat_url :: "Config \<Rightarrow> string" where
  "livestat_url cfg = ''http://'' @ CLOUD_HOST cfg @ API_ADDR cfg @ ''/stat/livestat''"

definition getDelay :: "'w Env \<Rightarrow> Config \<Rightarrow> slice \<Rightarrow> ('l, 'm, 'w) qs \<Rightarrow> ('l, 'm, 'w) qs go" where
  "getDelay env cfg tag = (\<lambda>(q, s).
     andthen (sl_slice tag 4 8) (\<lambda>t.
     let ts = flv_ts (sl_mem t ! 0) (sl_mem t ! 1) (sl_mem t ! 2) (sl_mem t ! 3) in
     if startTime q = 0 then
       (case HttpGet env (livestat_url cfg) (world s) of (r, n) \<Rightarrow>
          andthen (UpdatePublishers r) (\<lambda>_.
          let s = set_world n s in
          case Publishers_map s (Ssrc q) of
            None \<Rightarrow> Panic NilDeref
          | Some p \<Rightarrow> Ok (q\<lparr>startTime := StartTime p\<rparr>, s)))
     else let d = UnixMilli env (world s) - (startTime q + int (unat ts)) in
       if d < 0 then Ok (q, s) else Ok (q\<lparr>delay := d\<rparr>, s)))"

text \<open>
  The loop over the writers, from the last to the first. The Boolean is true when sending the
  initialisation segments failed, which ends \<open>extractFlv\<close>.
\<close>

fun writer_loop :: "'m writer_refs \<Rightarrow> SegmentCache \<Rightarrow> slice \<Rightarrow> nat \<Rightarrow> 'm \<Rightarrow> (nat \<Rightarrow> FLVWriter)
    \<Rightarrow> ('m \<times> (nat \<Rightarrow> FLVWriter) \<times> bool) go" where
  "writer_loop wl c tag 0 l ws = Ok (l, ws, False)"
| "writer_loop wl c tag (Suc i) l ws =
     (case al_Get wl l (int i) of (val, f) \<Rightarrow>
        if f then
          (case val of
             None \<Rightarrow> writer_loop wl c tag i (al_Remove wl l (int i)) ws
           | Some r \<Rightarrow>
             if Closed (ws r) then
               andthen (Close (ws r)) (\<lambda>w.
                 writer_loop wl c tag i (al_Remove wl l (int i)) (ws(r := w)))
             else
               andthen
                 (if \<not> Init (ws r) then
                    andthen (SendInitialSegment c (ws r)) (\<lambda>(w, err).
                      Ok (if err = None then w\<lparr>Init := True\<rparr> else w, err))
                  else Ok (ws r, None)) (\<lambda>(w, err).
               if err \<noteq> None then Ok (l, ws(r := w), True) else
               andthen (Write w tag) (\<lambda>(w, err).
                 if err \<noteq> None then writer_loop wl c tag i (al_Remove wl l (int i)) (ws(r := w))
                 else writer_loop wl c tag i l (ws(r := w)))))
        else writer_loop wl c tag i l ws)"

definition to_hls :: "'w Env \<Rightarrow> slice \<Rightarrow> ('l, 'm, 'w) qs \<Rightarrow> ('l, 'm, 'w) qs go" where
  "to_hls env tag = (\<lambda>(q, s).
     case hlsWriter q of
       None \<Rightarrow> Ok (q, s)
     | Some r \<Rightarrow>
       andthen (av_Parse env tag True) (\<lambda>p.
       let s = (if src_closed (sources s r) then s else set_world (SetPreTime env r (world s)) s) in
       andthen (Source_Write (sources s r) p) (\<lambda>(src, err).
       andthen (CheckError err) (\<lambda>_. Ok (q, s\<lparr>sources := (sources s)(r := src)\<rparr>)))))"

definition to_file :: "slice \<Rightarrow> ('l, 'm, 'w) qs \<Rightarrow> ('l, 'm, 'w) qs go" where
  "to_file tag = (\<lambda>(q, s).
     case flvFile q of
       None \<Rightarrow> Ok (q, s)
     | Some r \<Rightarrow>
       (case WriteTagDirect (files s r) (bytes tag) of (f, err) \<Rightarrow>
          andthen (CheckError err) (\<lambda>_. Ok (q, s\<lparr>files := put_file r f (files s)\<rparr>))))"

text \<open>Everything \<open>extractFlv\<close> does once the record holds a complete tag, step by step.\<close>

definition count_tag :: "'w Env \<Rightarrow> Config \<Rightarrow> slice \<Rightarrow> ('l, 'm, 'w) qs \<Rightarrow> ('l, 'm, 'w) qs go" where
  "count_tag env cfg tag = (\<lambda>(q, s).
     let q = q\<lparr>accFlvTags := accFlvTags q + 1\<rparr> in
     if accFlvTags q mod 400 = 0 then getDelay env cfg tag (q, s) else Ok (q, s))"

definition remember_segment :: "slice \<Rightarrow> ('l, 'm, 'w) qs \<Rightarrow> ('l, 'm, 'w) qs go" where
  "remember_segment tag = (\<lambda>(q, s).
     if \<not> full (cache q) then andthen (cache_add (cache q) tag) (\<lambda>c. Ok (q\<lparr>cache := c\<rparr>, s))
     else Ok (q, s))"

definition fan_out :: "'m writer_refs \<Rightarrow> slice \<Rightarrow> ('l, 'm, 'w) qs \<Rightarrow> (('l, 'm, 'w) qs \<times> bool) go" where
  "fan_out wl tag = (\<lambda>(q, s).
     andthen (writer_loop wl (cache q) tag (nat (al_Size wl (FlvWriters q))) (FlvWriters q) (writers s))
       (\<lambda>(l, ws, failed). Ok ((q\<lparr>FlvWriters := l\<rparr>, s\<lparr>writers := ws\<rparr>), failed)))"

definition reset_record :: "('l, 'm, 'w) qs \<Rightarrow> ('l, 'm, 'w) qs" where
  "reset_record = (\<lambda>(q, s). (q\<lparr>flvRecord := Reset (flvRecord q)\<rparr>, s))"

definition deliver :: "'w Env \<Rightarrow> Config \<Rightarrow> 'm writer_refs \<Rightarrow> slice \<Rightarrow> ('l, 'm, 'w) qs \<Rightarrow> ('l, 'm, 'w) qs go" where
  "deliver env cfg wl tag qs =
     andthen (count_tag env cfg tag qs) (\<lambda>qs.
     andthen (remember_segment tag qs) (\<lambda>qs.
     andthen (fan_out wl tag qs) (\<lambda>(qs, failed).
     if failed then Ok (reset_record qs) else
     andthen (to_hls env tag qs) (\<lambda>qs.
     andthen (to_file tag qs) (\<lambda>qs. Ok (reset_record qs))))))"

subsection \<open>Reassembly\<close>

text \<open>
  The part of \<open>extractFlv\<close> that works on the record: it consumes one payload and either needs more
  (\<open>None\<close>) or has completed a tag.
\<close>

definition lose :: "FlvRecord \<Rightarrow> FlvRecord" where
  "lose record = (Reset record)\<lparr>jumpToNextHead := True\<rparr>"

definition add_fragment :: "FlvRecord \<Rightarrow> slice \<Rightarrow> byte \<Rightarrow> (FlvRecord \<times> slice option) go" where
  "add_fragment record payload marker =
     (if marker = 0 then
        (case flvTag record of
           None \<Rightarrow>
             andthen (sl_slice payload 1 4) (\<lambda>t.
             let n = unat (be24 (sl_mem t ! 0) (sl_mem t ! 1) (sl_mem t ! 2) + 11);
                 record = record\<lparr>TagSize := n, flvTag := Some (make_bytes n)\<rparr>
             in andthen (copy_into (make_bytes n) (pos record) (pos record + sl_len payload) (bytes payload)) (\<lambda>tag.
                  Ok (record\<lparr>flvTag := Some tag, pos := pos record + sl_len payload\<rparr>, None)))
         | Some tag \<Rightarrow>
             if pos record + sl_len payload > TagSize record then Ok (lose record, None)
             else andthen (copy_into tag (pos record) (pos record + sl_len payload) (bytes payload)) (\<lambda>tag.
                  Ok (record\<lparr>flvTag := Some tag, pos := pos record + sl_len payload\<rparr>, None)))
      else
        (case flvTag record of
           None \<Rightarrow> Ok (record\<lparr>flvTag := Some payload\<rparr>, Some payload)
         | Some tag \<Rightarrow>
             if pos record + sl_len payload > TagSize record then Ok (lose record, None)
             else andthen (copy_into tag (pos record) (pos record + sl_len payload) (bytes payload)) (\<lambda>tag.
                  Ok (record\<lparr>flvTag := Some tag\<rparr>, Some tag))))"

definition reassemble :: "FlvRecord \<Rightarrow> RtpPack option \<Rightarrow> (FlvRecord \<times> slice option) go" where
  "reassemble record protoRp = (case protoRp of
     None \<Rightarrow> Ok (lose record, None)
   | Some rp \<Rightarrow>
     if jumpToNextHead record then
       (if \<not> IsTagHead (Payload rp) then Ok (record, None)
        else add_fragment (record\<lparr>jumpToNextHead := False\<rparr>) (Payload rp) (Marker rp))
     else add_fragment record (Payload rp) (Marker rp))"

definition extractFlv :: "'w Env \<Rightarrow> Config \<Rightarrow> 'm writer_refs \<Rightarrow> RtpPack option \<Rightarrow> ('l, 'm, 'w) qs
    \<Rightarrow> ('l, 'm, 'w) qs go" where
  "extractFlv env cfg wl protoRp = (\<lambda>(q, s).
     andthen (reassemble (flvRecord q) protoRp) (\<lambda>(record, done).
     let q = q\<lparr>flvRecord := record\<rparr> in
     case done of None \<Rightarrow> Ok (q, s) | Some tag \<Rightarrow> deliver env cfg wl tag (q, s)))"

subsection \<open>The receiving goroutine\<close>

text \<open>
  \<open>RecvPacket\<close> after one packet has arrived: first everything beyond the padding window leaves the
  queue, present or not; then everything up to the first gap, except the last packet. \<open>None\<close> is a
  loop that does not end.
\<close>

partial_function (option) drain_window :: "'w Env \<Rightarrow> Config \<Rightarrow> 'l packets \<Rightarrow> 'm writer_refs
    \<Rightarrow> ('l, 'm, 'w) qs \<Rightarrow> ('l, 'm, 'w) qs go option" where
  "drain_window env cfg al wl qs =
     (if al_Size al (queue (fst qs)) > PaddingWindowSize (fst qs) then
        (case andthen (Dequeue env cfg al qs) (\<lambda>(rp, qs). extractFlv env cfg wl rp qs) of
           Ok qs' \<Rightarrow> drain_window env cfg al wl qs'
         | Panic e \<Rightarrow> Some (Panic e)
         | Blocked \<Rightarrow> Some Blocked)
      else Some (Ok qs))"

partial_function (option) drain_ready :: "'w Env \<Rightarrow> Config \<Rightarrow> 'l packets \<Rightarrow> 'm writer_refs
    \<Rightarrow> ('l, 'm, 'w) qs \<Rightarrow> ('l, 'm, 'w) qs go option" where
  "drain_ready env cfg al wl qs =
     (if isFirstOk al (fst qs) \<and> al_Size al (queue (fst qs)) > 1 then
        (case andthen (Dequeue env cfg al qs) (\<lambda>(rp, qs). extractFlv env cfg wl rp qs) of
           Ok qs' \<Rightarrow> drain_ready env cfg al wl qs'
         | Panic e \<Rightarrow> Some (Panic e)
         | Blocked \<Rightarrow> Some Blocked)
      else Some (Ok qs))"

definition RecvPacket_one :: "'w Env \<Rightarrow> Config \<Rightarrow> 'l packets \<Rightarrow> 'm writer_refs \<Rightarrow> RtpPack option
    \<Rightarrow> ('l, 'm, 'w) qs \<Rightarrow> ('l, 'm, 'w) qs go option" where
  "RecvPacket_one env cfg al wl p = (\<lambda>(q, s).
     case drain_window env cfg al wl (Enqueue al q p, s) of
       None \<Rightarrow> None
     | Some (Ok qs) \<Rightarrow> drain_ready env cfg al wl qs
     | Some (Panic e) \<Rightarrow> Some (Panic e)
     | Some Blocked \<Rightarrow> Some Blocked)"

text \<open>The goroutine over the packets that arrive on \<open>InChan\<close>, in order.\<close>

fun RecvPacket :: "'w Env \<Rightarrow> Config \<Rightarrow> 'l packets \<Rightarrow> 'm writer_refs \<Rightarrow> RtpPack option list
    \<Rightarrow> ('l, 'm, 'w) qs \<Rightarrow> ('l, 'm, 'w) qs go option" where
  "RecvPacket env cfg al wl [] qs = Some (Ok qs)"
| "RecvPacket env cfg al wl (p # ps) qs =
     (case RecvPacket_one env cfg al wl p qs of
        None \<Rightarrow> None
      | Some (Ok qs') \<Rightarrow> RecvPacket env cfg al wl ps qs'
      | Some (Panic e) \<Rightarrow> Some (Panic e)
      | Some Blocked \<Rightarrow> Some Blocked)"

text \<open>\<open>Play\<close> on one element of \<open>outChan\<close>, and one round of \<open>PrintInfo\<close> (true: the loop ends).\<close>

definition Play_one :: "'w Env \<Rightarrow> Config \<Rightarrow> 'm writer_refs \<Rightarrow> ('l, 'm, 'w) qs
    \<Rightarrow> (('l, 'm, 'w) qs \<times> bool) go" where
  "Play_one env cfg wl = (\<lambda>(q, s).
     andthen (chan_recv (outChan q)) (\<lambda>(r, c).
     let q = q\<lparr>outChan := c\<rparr> in
     case r of
       None \<Rightarrow> Ok ((q, s), True)
     | Some protoRp \<Rightarrow> andthen (extractFlv env cfg wl protoRp (q, s)) (\<lambda>qs. Ok (qs, False))))"

definition PrintInfo_round :: "'l packets \<Rightarrow> ('l, 'm) Queue \<Rightarrow> bool go" where
  "PrintInfo_round al q =
     (if Ssrc q = 0 then Ok True
      else case al_Get al (queue q) (al_Size al (queue q) - 1) of (val, ok) \<Rightarrow>
        if ok then (case val of None \<Rightarrow> Panic TypeAssertion | Some rp \<Rightarrow> Ok False)
        else if al_Size al (queue q) > 0 then Panic (Explicit ''rtpQueue params error'') else Ok False)"

text \<open>\<open>print\<close>: the lines it logs for the slots, \<open>None\<close> for an empty one.\<close>

definition print_slot :: "'l packets \<Rightarrow> ('l, 'm) Queue \<Rightarrow> int \<Rightarrow> u16 option" where
  "print_slot al q i = (case al_Get al (queue q) i of (rp, ok) \<Rightarrow>
     case rp of None \<Rightarrow> None | Some rp \<Rightarrow> Some (SequenceNumber rp))"

definition print_slots :: "'l packets \<Rightarrow> ('l, 'm) Queue \<Rightarrow> u16 option list" where
  "print_slots al q = map (print_slot al q) [0..al_Size al (queue q) - 1]"

definition Queue_Close :: "('l, 'm, 'w) qs \<Rightarrow> ('l, 'm, 'w) qs" where
  "Queue_Close = (\<lambda>(q, s).
     let s = (case flvFile q of None \<Rightarrow> s
              | Some r \<Rightarrow> s\<lparr>files := (files s)(r := File_Close (files s r))\<rparr>)
     in (q\<lparr>Ssrc := 0\<rparr>, s))"

end
