(* ===== verification/Queue_Window.thy ===== *)
theory Queue_Window
  imports Rtp_Queue
begin

text \<open>
  The packet window of a stream queue: its abstract specification (the sequence number of the
  first slot, and a list of slots that are filled or empty), the proof that \<open>Enqueue\<close> implements
  it, and the invariant that every operation of the queue keeps.
\<close>

subsection \<open>Specification\<close>

type_synonym window = "u16 \<times> RtpPack option list"

definition put_at :: "'a option list \<Rightarrow> nat \<Rightarrow> 'a \<Rightarrow> 'a option list" where
  "put_at w i x = (if i < length w then w[i := Some x]
     else w @ replicate (i - length w) None @ [Some x])"

definition spec_enqueue :: "RtpPack \<Rightarrow> window \<Rightarrow> window" where
  "spec_enqueue p = (\<lambda>(first, w).
     if w = [] then (SequenceNumber p, [Some p])
     else if FirstBeforeSecond (SequenceNumber p) first then (first, w)
     else (first, put_at w (unat (SequenceNumber p - first)) p))"

definition window_of :: "'l packets \<Rightarrow> ('l, 'm) Queue \<Rightarrow> window" where
  "window_of al q = (FirstSeq q, al_Values al (queue q))"

text \<open>
  The invariant: a filled slot holds the packet with the slot's sequence number, the last slot is
  filled, and the window has a bounded length.
\<close>

definition window_ok :: "window \<Rightarrow> bool" where
  "window_ok v \<longleftrightarrow> length (snd v) \<le> 60001 \<and> (snd v \<noteq> [] \<longrightarrow> last (snd v) \<noteq> None)
     \<and> (\<forall>i p. i < length (snd v) \<longrightarrow> snd v ! i = Some p \<longrightarrow>
           SequenceNumber p = fst v + word_of_nat i)"

text \<open>The first \<open>d\<close> slots are empty; a slot follows them, which is filled if \<open>d > 0\<close>.\<close>

definition gap :: "nat \<Rightarrow> 'a option list \<Rightarrow> bool" where
  "gap d w \<longleftrightarrow> d < length w \<and> (\<forall>i<d. w ! i = None) \<and> (0 < d \<longrightarrow> w ! d \<noteq> None)"

subsection \<open>Lemmas on windows\<close>

lemma gap_0 [simp]: "gap 0 w \<longleftrightarrow> w \<noteq> []"
  by (simp add: gap_def)

lemma gap_less: "gap d w \<Longrightarrow> d < length w"
  by (simp add: gap_def)

lemma gap_end: "gap d w \<Longrightarrow> 0 < d \<Longrightarrow> w ! d \<noteq> None"
  by (simp add: gap_def)

lemma gap_Suc [simp]: "gap (Suc d) (x # w) \<longleftrightarrow> x = None \<and> gap d w \<and> w ! d \<noteq> None"
  by (auto simp: gap_def less_Suc_eq_0_disj)

lemma length_put_at: "length (put_at w i x) = max (length w) (Suc i)"
  by (simp add: put_at_def)

lemma nth_put_at:
  "j < length (put_at w i x) \<Longrightarrow>
     put_at w i x ! j = (if j = i then Some x else if j < length w then w ! j else None)"
  by (auto simp: put_at_def nth_append nth_Cons' split: if_splits)

lemma put_at_not_Nil [simp]: "put_at w i x \<noteq> []"
  by (auto simp: put_at_def)

lemma last_put_at: "(w \<noteq> [] \<longrightarrow> last w \<noteq> None) \<Longrightarrow> last (put_at w i x) \<noteq> None"
  by (cases "w = []") (auto simp: put_at_def last_list_update)

lemma put_at_0: "w \<noteq> [] \<Longrightarrow> put_at w 0 x = Some x # tl w"
  by (cases w) (simp_all add: put_at_def)

lemma window_okI:
  assumes "length w \<le> 60001" "w \<noteq> [] \<longrightarrow> last w \<noteq> None"
    and "\<And>i p. i < length w \<Longrightarrow> w ! i = Some p \<Longrightarrow> SequenceNumber p = first + word_of_nat i"
  shows "window_ok (first, w)"
  using assms by (simp add: window_ok_def)

lemma window_ok_slot:
  "window_ok (first, w) \<Longrightarrow> i < length w \<Longrightarrow> w ! i = Some p \<Longrightarrow>
     SequenceNumber p = first + word_of_nat i"
  by (simp add: window_ok_def)

lemma window_ok_head: "window_ok (first, Some p # w) \<Longrightarrow> SequenceNumber p = first"
  using window_ok_slot [of first "Some p # w" 0 p] by simp

lemma window_ok_drop:
  assumes "window_ok (first, w)"
  shows "window_ok (first + word_of_nat k, drop k w)"
proof -
  have "SequenceNumber p = first + word_of_nat k + word_of_nat i"
    if "i < length w - k" "w ! (k + i) = Some p" for i p
    using window_ok_slot [OF assms, of "k + i" p] that by (simp add: add.assoc)
  then show ?thesis
    using assms by (auto simp: window_ok_def)
qed

lemma window_ok_tl: "window_ok (first, w) \<Longrightarrow> window_ok (first + 1, tl w)"
  using window_ok_drop [of first w 1] by (simp add: drop_Suc)

lemma window_ok_spec_enqueue:
  assumes "window_ok v"
  shows "window_ok (spec_enqueue p v)"
proof (cases v)
  case (Pair first w)
  show ?thesis
  proof (cases "w = [] \<or> FirstBeforeSecond (SequenceNumber p) first")
    case True
    with assms Pair show ?thesis by (auto simp: spec_enqueue_def window_ok_def)
  next
    case False
    let ?i = "unat (SequenceNumber p - first)"
    have "window_ok (first, put_at w ?i p)"
    proof (rule window_okI)
      show "length (put_at w ?i p) \<le> 60001"
        using not_before_bound [of "SequenceNumber p" first] False assms Pair
        by (simp add: length_put_at window_ok_def)
      show "put_at w ?i p \<noteq> [] \<longrightarrow> last (put_at w ?i p) \<noteq> None"
        using assms Pair last_put_at [of w ?i p] by (simp add: window_ok_def)
      show "SequenceNumber r = first + word_of_nat j"
        if "j < length (put_at w ?i p)" "put_at w ?i p ! j = Some r" for j r
        using that assms Pair by (auto simp: nth_put_at window_ok_slot split: if_splits)
    qed
    with False Pair show ?thesis
      by (simp add: spec_enqueue_def)
  qed
qed

lemma long_gap:
  "4 < length (takeWhile (\<lambda>x. x = None) (tl w)) \<Longrightarrow> 1 < length w \<and> w ! 1 = None"
  by (cases w; cases "tl w") (auto split: if_splits)

lemma two_slots:
  assumes "w \<noteq> []" "last w \<noteq> None" "\<not> (\<exists>p u. w = Some p # u)"
  shows "2 \<le> length w"
  using assms by (cases w; cases "tl w") auto

subsection \<open>The queue implements the specification\<close>

lemma relative_pos_eq: "relative_pos seq first = int (unat (seq - first))"
proof -
  have "(65535 :: u16) = - 1" by simp
  then have "65535 - first + seq + 1 = seq - first"
    by (simp only:) simp
  then show ?thesis by (simp only: relative_pos_def if_cancel)
qed

text \<open>The packet list of a queue: an array list whose elements are RTP packets.\<close>

locale packet_list = arraylist al for al :: "(RtpPack, 'l) arraylist_ops"
begin

lemma enqueue_fill_values:
  assumes "length (al_Values al l) \<le> r"
  shows "al_Values al (enqueue_fill al l (int (length (al_Values al l))) (int r) rp)
    = al_Values al l @ replicate (r - length (al_Values al l)) None @ [Some rp]"
  using assms
proof (induction "r - length (al_Values al l)" arbitrary: l)
  case 0
  then have "int (length (al_Values al l)) = int r" by simp
  then show ?case
    by (simp add: enqueue_fill.simps [of _ _ "int r"] enqueue_fill.simps [of _ _ "int r + 1"]
        values_set list_set_def)
next
  case (Suc k)
  let ?l = "al_Set al l (int (length (al_Values al l))) None"
  have l: "al_Values al ?l = al_Values al l @ [None]"
    by (simp add: values_set list_set_nat)
  then have "al_Values al (enqueue_fill al ?l (int (length (al_Values al ?l))) (int r) rp)
      = al_Values al ?l @ replicate (r - length (al_Values al ?l)) None @ [Some rp]"
    using Suc by (intro Suc.hyps(1)) auto
  moreover have "r - length (al_Values al l) = Suc (r - Suc (length (al_Values al l)))"
    using Suc by simp
  moreover have "int (length (al_Values al l)) < int r"
    using Suc.hyps(2) by simp
  ultimately show ?case
    by (simp add: enqueue_fill.simps [of _ _ "int (length (al_Values al l))"] l add.commute)
qed

lemma window_of_Enqueue:
  "window_of al (Enqueue al q (Some p)) = spec_enqueue p (window_of al q)"
proof (cases "al_Values al (queue q) = [] \<or> FirstBeforeSecond (SequenceNumber p) (FirstSeq q)")
  case True
  then show ?thesis
    by (auto simp: Enqueue_def window_of_def spec_enqueue_def size values_add Let_def)
next
  case False
  define i where "i = unat (SequenceNumber p - FirstSeq q)"
  have "relative_pos (SequenceNumber p) (FirstSeq q) = int i"
    by (simp only: relative_pos_eq i_def)
  with False show ?thesis
    using enqueue_fill_values [of "queue q" i p]
    by (auto simp: Enqueue_def window_of_def spec_enqueue_def size values_set
        list_set_def put_at_def Let_def simp flip: i_def)
qed

lemma isFirstOk_iff:
  "isFirstOk al q \<longleftrightarrow> (\<exists>p w. al_Values al (queue q) = Some p # w)"
  by (cases "al_Values al (queue q)") (auto simp: isFirstOk_def)

lemma getHeadNil_loop_eq:
  assumes "1 \<le> i" "length (al_Values al l) \<le> k + i"
  shows "getHeadNil_loop (Suc k) al l (int i)
    = Ok (int (i + length (takeWhile (\<lambda>x. x = None) (drop i (al_Values al l)))))"
  using assms
proof (induction k arbitrary: i)
  case 0
  then show ?case by (simp add: get)
next
  case (Suc k)
  show ?case
  proof (cases "i < length (al_Values al l) \<and> al_Values al l ! i = None")
    case True
    then have "drop i (al_Values al l) = None # drop (Suc i) (al_Values al l)"
      by (metis Cons_nth_drop_Suc)
    with True Suc.IH [of "Suc i"] Suc.prems show ?thesis
      by (simp add: get add.commute)
  next
    case False
    then have "takeWhile (\<lambda>x. x = None) (drop i (al_Values al l)) = []"
      by (cases "i < length (al_Values al l)") (auto simp: Cons_nth_drop_Suc [symmetric])
    with False show ?thesis by (auto simp: get)
  qed
qed

lemma getHeadNil_eq:
  "getHeadNil al q
    = Ok (int (Suc (length (takeWhile (\<lambda>x. x = None) (tl (al_Values al (queue q)))))))"
  using getHeadNil_loop_eq [of 1 "queue q" "nat (al_Size al (queue q))"]
  by (simp add: getHeadNil_def size drop_Suc)

lemma reshape_loop_eq:
  assumes "length (al_Values al (queue q)) \<le> k" "al_Values al (queue q) \<noteq> []"
    and "last (al_Values al (queue q)) \<noteq> None" "\<not> isFirstOk al q"
  shows "\<exists>d l. reshape_loop k al q r = Ok (q\<lparr>queue := l, FirstSeq := FirstSeq q + word_of_nat d,
        accLoss := accLoss q + int d\<rparr>, r + int d)
    \<and> al_Values al l = drop d (al_Values al (queue q)) \<and> gap d (al_Values al (queue q)) \<and> 0 < d"
  using assms
proof (induction k arbitrary: q r)
  case 0
  then show ?case by simp
next
  case (Suc k)
  let ?q = "q\<lparr>queue := al_Remove al (queue q) 0, FirstSeq := FirstSeq q + 1, accLoss := accLoss q + 1\<rparr>"
  from Suc.prems obtain w where w: "al_Values al (queue q) = None # w"
    by (cases "al_Values al (queue q)"; cases "hd (al_Values al (queue q))") (auto simp: isFirstOk_iff)
  with Suc.prems(3) have ne: "w \<noteq> []" "last w \<noteq> None" by (auto split: if_splits)
  show ?case
  proof (cases "isFirstOk al ?q")
    case True
    with w ne show ?thesis
      by (intro exI [of _ 1] exI [of _ "al_Remove al (queue q) 0"]) (auto simp: size Let_def isFirstOk_iff)
  next
    case False
    with Suc.IH [of ?q "r + 1"] Suc.prems(1) w ne obtain d l where "reshape_loop k al ?q (r + 1)
          = Ok (?q\<lparr>queue := l, FirstSeq := FirstSeq ?q + word_of_nat d, accLoss := accLoss ?q + int d\<rparr>,
                r + 1 + int d)"
        "al_Values al l = drop d w" "gap d w" "0 < d"
      by auto
    with False w ne show ?thesis
      by (intro exI [of _ "Suc d"] exI [of _ l]) (simp add: size Let_def add.assoc gap_end del: not_None_eq)
  qed
qed

text \<open>
  The effect of the operations that run when the head is missing: the first \<open>d\<close> slots go (none
  unless protection is on), then the retransmitted packet, if any, is enqueued.
\<close>

lemma reshape_effect:
  assumes "reshape env cfg al (q, s) = Ok ((q', s'), n)" "\<not> isFirstOk al q"
    and "al_Values al (queue q) \<noteq> []" "last (al_Values al (queue q)) \<noteq> None"
  shows "\<exists>d l st. q' = q\<lparr>queue := l, FirstSeq := FirstSeq q + word_of_nat d, accLoss := accLoss q + int d\<rparr>
    \<and> al_Values al l = drop d (al_Values al (queue q)) \<and> gap d (al_Values al (queue q))
    \<and> (1 < length (al_Values al (queue q)) \<and> al_Values al (queue q) ! 1 = None \<longrightarrow> 0 < d)
    \<and> s' = s\<lparr>quic := st\<rparr>
    \<and> (st = quic s \<or> (\<exists>r. GetByQuic (quic_lib env) cfg (Ssrc q) (FirstSeq q + 1) (quic s) = Ok (r, st)))"
proof (cases "1 < length (al_Values al (queue q)) \<and> al_Values al (queue q) ! 1 = None")
  case True
  obtain d l where "reshape_loop (length (al_Values al (queue q))) al q 0
      = Ok (q\<lparr>queue := l, FirstSeq := FirstSeq q + word_of_nat d, accLoss := accLoss q + int d\<rparr>, 0 + int d)"
      "al_Values al l = drop d (al_Values al (queue q))" "gap d (al_Values al (queue q))" "0 < d"
    using reshape_loop_eq [OF order_refl assms(3,4,2)] by blast
  with True assms(1) show ?thesis
    by (auto simp: reshape_def get size andthen_eq_Ok intro!: exI [of _ d] exI [of _ l])
next
  case False
  then have "q' = q" "s' = s"
    using assms(1) by (auto simp: reshape_def get split: if_splits)
  with False assms(3) show ?thesis
    by (intro exI [of _ 0] exI [of _ "queue q"] exI [of _ "quic s"]) simp
qed

end

interpretation spl: packet_list slice_al
  by unfold_locales

subsection \<open>The retransmission service\<close>

text \<open>
  What the queue relies on when it asks for a packet. \<open>good\<close> describes the states of the QUIC client
  and its network in which the promises hold; every exchange, and the other effects that the
  stream's goroutine has on the outside world, lead from such states to such states. The second
  locale adds that an answer is a genuine packet with the requested sequence number and, if the service is
  \<open>answering\<close>, that there is always an answer.
\<close>

locale quic_env =
  fixes env :: "'w Env" and cfg :: Config and ssrc :: u32 and good :: "'w quic_state \<Rightarrow> bool"
  assumes good_get: "good st \<Longrightarrow> GetByQuic (quic_lib env) cfg ssrc seq st = Ok (r, st') \<Longrightarrow> good st'"
    and good_buffer: "good st \<Longrightarrow> SetReadBuffer env k (net st) = (e, n) \<Longrightarrow> good (st\<lparr>net := n\<rparr>)"
    and good_http: "good st \<Longrightarrow> HttpGet env u (net st) = (hr, n) \<Longrightarrow> good (st\<lparr>net := n\<rparr>)"
    and good_time: "good st \<Longrightarrow> good (st\<lparr>net := SetPreTime env i (net st)\<rparr>)"

locale retransmission = quic_env +
  fixes answering :: bool and genuine :: "RtpPack \<Rightarrow> bool"
  assumes reply_seq: "good st \<Longrightarrow> GetByQuic (quic_lib env) cfg ssrc seq st = Ok (Some p, st') \<Longrightarrow>
      SequenceNumber p = seq \<and> genuine p"
    and answered: "answering \<Longrightarrow> good st \<Longrightarrow> GetByQuic (quic_lib env) cfg ssrc seq st = Ok (r, st') \<Longrightarrow>
      r \<noteq> None"

text \<open>Any environment gives the first contract, and one with QUIC switched off the second.\<close>

interpretation any_env: quic_env env cfg ssrc "\<lambda>_. True" for env :: "'w Env" and cfg ssrc
  by unfold_locales simp_all

lemma GetByQuic_disabled: "DISABLE_QUIC cfg \<Longrightarrow> GetByQuic qg cfg ssrc seq st = Ok (None, st)"
  by (simp add: GetByQuic_def)

lemma retransmission_disabled:
  assumes "DISABLE_QUIC cfg"
  shows "retransmission env cfg ssrc (\<lambda>_. True) False genuine"
  by unfold_locales (simp_all add: GetByQuic_disabled [OF assms])

text \<open>Enqueuing the answer of a retransmission request.\<close>

definition spec_answer :: "RtpPack option \<Rightarrow> window \<Rightarrow> window" where
  "spec_answer r v = (case r of None \<Rightarrow> v | Some p \<Rightarrow> spec_enqueue p v)"

lemma window_ok_spec_answer: "window_ok v \<Longrightarrow> window_ok (spec_answer r v)"
  by (cases r) (simp_all add: spec_answer_def window_ok_spec_enqueue)

locale stream_base = packet_list al + quic_env env cfg ssrc good
  for al :: "(RtpPack, 'l) arraylist_ops" and env :: "'w Env" and cfg ssrc good
begin

lemma Enqueue_frame [simp]:
  "Ssrc (Enqueue al q r) = Ssrc q" "PaddingWindowSize (Enqueue al q r) = PaddingWindowSize q"
  "flvRecord (Enqueue al q r) = flvRecord q"
  by (simp_all add: Enqueue_def Let_def split: option.split)

lemma window_of_Enqueue_option: "window_of al (Enqueue al q r) = spec_answer r (window_of al q)"
  by (cases r) (simp_all add: spec_answer_def window_of_Enqueue, simp add: Enqueue_def)

lemma protect_reshape_effect:
  assumes "protect_reshape env cfg al (q, s) = Ok ((q', s'), b)" "\<not> isFirstOk al q"
    and "al_Values al (queue q) \<noteq> []" "last (al_Values al (queue q)) \<noteq> None"
    and "Ssrc q = ssrc" "good (quic s)" "1 < length (al_Values al (queue q))" "al_Values al (queue q) ! 1 = None"
  shows "\<exists>d. window_of al q' = (FirstSeq q + word_of_nat d, drop d (al_Values al (queue q)))
    \<and> gap d (al_Values al (queue q)) \<and> 0 < d \<and> good (quic s')
    \<and> Ssrc q' = ssrc \<and> PaddingWindowSize q' = PaddingWindowSize q"
proof -
  from assms(1) obtain q1 s1 n where r: "reshape env cfg al (q, s) = Ok ((q1, s1), n)"
    by (auto simp: protect_reshape_def andthen_eq_Ok)
  from reshape_effect [OF r assms(2-4)] obtain d l st where
    q1: "q1 = q\<lparr>queue := l, FirstSeq := FirstSeq q + word_of_nat d, accLoss := accLoss q + int d\<rparr>"
      "al_Values al l = drop d (al_Values al (queue q))" "gap d (al_Values al (queue q))" "0 < d"
      "s1 = s\<lparr>quic := st\<rparr>" and st: "good st"
    using assms(5-8) good_get by blast
  have "window_of al q' = window_of al q1" "Ssrc q' = Ssrc q1"
      "PaddingWindowSize q' = PaddingWindowSize q1"
    using assms(1) r by (auto simp: protect_reshape_def Let_def window_of_def split: if_splits prod.splits)
  moreover have "good (quic s')"
    using assms(1) r q1(5) st good_buffer
    by (auto simp: protect_reshape_def Let_def split: if_splits prod.splits)
  ultimately show ?thesis
    using q1 assms(5) by (auto simp: window_of_def)
qed

lemma runQuic_effect:
  assumes "runQuic env cfg al seq (q, s) = Ok (q', s')" "\<not> isFirstOk al q"
    and "al_Values al (queue q) \<noteq> []" "last (al_Values al (queue q)) \<noteq> None"
    and "Ssrc q = ssrc" "good (quic s)"
  shows "\<exists>d r. window_of al q' = spec_answer r (FirstSeq q + word_of_nat d, drop d (al_Values al (queue q)))
    \<and> gap d (al_Values al (queue q)) \<and> (\<not> PROTECT cfg \<longrightarrow> d = 0)
    \<and> good (quic s') \<and> Ssrc q' = ssrc \<and> PaddingWindowSize q' = PaddingWindowSize q
    \<and> (\<exists>st st'. good st \<and> (GetByQuic (quic_lib env) cfg ssrc seq st = Ok (r, st')
          \<or> PROTECT cfg \<and> 0 < d \<and> r = None))"
proof -
  let ?w = "al_Values al (queue q)"
  let ?q = "q\<lparr>accLoss := accLoss q + 1\<rparr>"
  obtain q1 s1 c where mid: "check_congestion env cfg al seq (?q, s) = Ok ((q1, s1), c)"
      and rest: "(if \<not> c then Ok (q1, s1) else
         andthen (GetByQuic (quic_lib env) cfg (Ssrc q1) seq (quic s1)) (\<lambda>(pkt, st).
           Ok (Enqueue al (q1\<lparr>previousLostSeq := seq\<rparr>) pkt, s1\<lparr>quic := st\<rparr>))) = Ok (q', s')"
    using assms(1) by (cases "check_congestion env cfg al seq (?q, s)") (auto simp: runQuic_def)
  have "protect_reshape env cfg al (?q, s) = Ok ((q1, s1), c) \<and> PROTECT cfg \<and> 1 < length ?w \<and> ?w ! 1 = None
      \<or> (q1, s1, c) = (?q, s, True)"
    using mid by (auto simp: check_congestion_def getHeadNil_eq dest!: long_gap split: if_splits)
  then have "\<exists>d. window_of al q1 = (FirstSeq q + word_of_nat d, drop d ?w) \<and> gap d ?w
      \<and> (\<not> PROTECT cfg \<longrightarrow> d = 0) \<and> good (quic s1) \<and> Ssrc q1 = ssrc
      \<and> PaddingWindowSize q1 = PaddingWindowSize q \<and> (c \<or> PROTECT cfg \<and> 0 < d)"
  proof
    assume p: "protect_reshape env cfg al (?q, s) = Ok ((q1, s1), c) \<and> PROTECT cfg \<and> 1 < length ?w \<and> ?w ! 1 = None"
    then show ?thesis
      using protect_reshape_effect [of ?q s q1 s1 c] assms(2-6) by (auto simp: isFirstOk_def)
  next
    assume "(q1, s1, c) = (?q, s, True)"
    with assms(2-6) show ?thesis
      by (intro exI [of _ 0]) (simp add: window_of_def)
  qed
  then obtain d where d: "window_of al q1 = (FirstSeq q + word_of_nat d, drop d ?w)" "gap d ?w"
      "\<not> PROTECT cfg \<longrightarrow> d = 0" "good (quic s1)" "Ssrc q1 = ssrc"
      "PaddingWindowSize q1 = PaddingWindowSize q" "c \<or> PROTECT cfg \<and> 0 < d"
    by blast
  show ?thesis
  proof (cases c)
    case False
    with d rest show ?thesis
      by (intro exI [of _ d] exI [of _ None]) (auto simp: spec_answer_def)
  next
    case True
    with rest d obtain r st' where r: "GetByQuic (quic_lib env) cfg ssrc seq (quic s1) = Ok (r, st')"
        "q' = Enqueue al (q1\<lparr>previousLostSeq := seq\<rparr>) r" "s' = s1\<lparr>quic := st'\<rparr>"
      by (auto simp: andthen_eq_Ok)
    moreover have "window_of al q' = spec_answer r (window_of al q1)"
      by (simp add: r(2) window_of_Enqueue_option) (simp add: window_of_def)
    ultimately show ?thesis
      using d good_get [OF d(4) r(1)] by (intro exI [of _ d] exI [of _ r]) auto
  qed
qed

lemma Dequeue_effect:
  assumes "Dequeue env cfg al (q, s) = Ok (rp, q', s')"
    and "al_Values al (queue q) \<noteq> []" "last (al_Values al (queue q)) \<noteq> None"
    and "Ssrc q = ssrc" "good (quic s)"
  shows "\<exists>first w. rp = (case w of [] \<Rightarrow> None | x # _ \<Rightarrow> x) \<and> window_of al q' = (first + 1, tl w)
    \<and> good (quic s') \<and> Ssrc q' = ssrc \<and> PaddingWindowSize q' = PaddingWindowSize q
    \<and> (isFirstOk al q \<and> (first, w) = window_of al q
       \<or> \<not> isFirstOk al q \<and> (\<exists>d r st st'.
            (first, w) = spec_answer r (FirstSeq q + word_of_nat d, drop d (al_Values al (queue q)))
            \<and> gap d (al_Values al (queue q)) \<and> (\<not> PROTECT cfg \<longrightarrow> d = 0) \<and> good st
            \<and> (GetByQuic (quic_lib env) cfg ssrc (FirstSeq q) st = Ok (r, st') \<or> PROTECT cfg \<and> 0 < d \<and> r = None)))"
proof -
  obtain q1 s1 where q1: "(if \<not> isFirstOk al q then runQuic env cfg al (FirstSeq q) (q, s) else Ok (q, s))
        = Ok (q1, s1)"
      and out: "rp = (case al_Values al (queue q1) of [] \<Rightarrow> None | x # _ \<Rightarrow> x)"
      "q' = q1\<lparr>queue := al_Remove al (queue q1) 0, FirstSeq := FirstSeq q1 + 1\<rparr>" "s' = s1"
    using assms(1) by (auto simp: Dequeue_def andthen_eq_Ok Let_def fst_get_0 simp del: get_0)
  then have w': "window_of al q' = (FirstSeq q1 + 1, tl (al_Values al (queue q1)))"
      "Ssrc q' = Ssrc q1" "PaddingWindowSize q' = PaddingWindowSize q1"
    by (simp_all add: window_of_def)
  show ?thesis
  proof (cases "isFirstOk al q")
    case True
    with q1 out w' assms(4,5) show ?thesis
      by (intro exI [of _ "FirstSeq q1"] exI [of _ "al_Values al (queue q1)"]) (simp add: window_of_def)
  next
    case False
    with q1 have "runQuic env cfg al (FirstSeq q) (q, s) = Ok (q1, s1)" by simp
    from runQuic_effect [OF this False assms(2-5)] False out w' show ?thesis
      by (intro exI [of _ "FirstSeq q1"] exI [of _ "al_Values al (queue q1)"]) (auto simp: window_of_def)
  qed
qed

end

end
