(* ===== verification/Queue_Order.thy ===== *)
theory Queue_Order
  imports Queue_Window
begin

text \<open>
  The receiving goroutine as a state machine over the packet window, and what it guarantees:
  delivery in sequence, recovery of lost packets, and termination of its loops.
\<close>

subsection \<open>Tag delivery leaves the window alone\<close>

definition same_stream :: "('l, 'm) Queue \<Rightarrow> ('l, 'm) Queue \<Rightarrow> bool" where
  "same_stream q q' \<longleftrightarrow> queue q' = queue q \<and> FirstSeq q' = FirstSeq q
     \<and> PaddingWindowSize q' = PaddingWindowSize q \<and> Ssrc q' = Ssrc q
     \<and> previousLostSeq q' = previousLostSeq q"

lemma same_stream_refl [simp]: "same_stream q q"
  by (simp add: same_stream_def)

lemma same_stream_trans: "same_stream q q' \<Longrightarrow> same_stream q' q'' \<Longrightarrow> same_stream q q''"
  by (simp add: same_stream_def)

lemma same_stream_update [simp]:
  "same_stream q (q'\<lparr>flvRecord := r\<rparr>) = same_stream q q'"
  "same_stream q (q'\<lparr>cache := c\<rparr>) = same_stream q q'"
  "same_stream q (q'\<lparr>FlvWriters := l\<rparr>) = same_stream q q'"
  "same_stream q (q'\<lparr>accFlvTags := n\<rparr>) = same_stream q q'"
  "same_stream q (q'\<lparr>startTime := t\<rparr>) = same_stream q q'"
  "same_stream q (q'\<lparr>delay := t\<rparr>) = same_stream q q'"
  by (simp_all add: same_stream_def)

abbreviation (input) framed_by :: "('w quic_state \<Rightarrow> bool) \<Rightarrow> ('l, 'm) Queue \<Rightarrow> ('l, 'm, 'w) qs \<Rightarrow> bool" where
  "framed_by good q qs \<equiv> same_stream q (fst qs) \<and> good (quic (snd qs))"

context quic_env
begin

lemma getDelay_frame:
  assumes "framed_by good q qs"
  shows "ensures (getDelay env cfg tag qs) (framed_by good q)"
proof (cases qs)
  case (Pair q' s)
  show ?thesis
  proof (cases "startTime q' = 0")
    case True
    obtain hr n where h: "HttpGet env (livestat_url cfg) (world s) = (hr, n)" by force
    then have "good ((quic s)\<lparr>net := n\<rparr>)"
      using good_http assms Pair by auto
    with True h Pair assms show ?thesis
      by (auto simp: getDelay_def ensures_andthen intro!: ensuresI split: option.splits)
  next
    case False
    with Pair assms show ?thesis
      by (auto simp: getDelay_def ensures_andthen Let_def intro!: ensuresI)
  qed
qed

lemma count_tag_frame:
  assumes "framed_by good q qs"
  shows "ensures (count_tag env cfg tag qs) (framed_by good q)"
  using assms by (cases qs) (auto simp: count_tag_def Let_def intro!: getDelay_frame)

lemma remember_segment_frame:
  assumes "framed_by good q qs"
  shows "ensures (remember_segment tag qs) (framed_by good q)"
  using assms by (cases qs) (auto simp: remember_segment_def ensures_andthen intro!: ensuresI)

lemma fan_out_frame:
  assumes "framed_by good q qs"
  shows "ensures (fan_out wl tag qs) (\<lambda>(qs', _). framed_by good q qs')"
  using assms by (cases qs) (auto simp: fan_out_def ensures_andthen intro!: ensuresI)

lemma to_hls_frame:
  assumes "framed_by good q qs"
  shows "ensures (to_hls env tag qs) (framed_by good q)"
proof (cases qs)
  case (Pair q' s)
  with assms have "good (quic s)" "\<And>r. good ((quic s)\<lparr>net := SetPreTime env r (world s)\<rparr>)"
    using good_time by auto
  with Pair assms show ?thesis
    by (auto simp: to_hls_def ensures_andthen andthen_eq_Ok Let_def intro!: ensuresI split: option.splits)
qed

lemma to_file_frame:
  assumes "framed_by good q qs"
  shows "ensures (to_file tag qs) (framed_by good q)"
  using assms
  by (cases qs) (auto simp: to_file_def ensures_andthen andthen_eq_Ok intro!: ensuresI split: option.splits prod.splits)

lemma deliver_frame:
  assumes "framed_by good q qs"
  shows "ensures (deliver env cfg wl tag qs) (framed_by good q)"
proof -
  have reset: "framed_by good q qs \<Longrightarrow> framed_by good q (reset_record qs)" for qs
    by (cases qs) (simp add: reset_record_def)
  note steps = count_tag_frame remember_segment_frame fan_out_frame to_hls_frame to_file_frame
  show ?thesis
    unfolding deliver_def ensures_andthen
    by (rule ensures_mono [OF count_tag_frame [OF assms]], rule ensures_mono [OF remember_segment_frame],
        assumption, rule ensures_mono [OF fan_out_frame], assumption)
      (auto simp: ensures_andthen reset intro!: ensures_mono [OF to_hls_frame] ensures_mono [OF to_file_frame])
qed

lemma extractFlv_frame:
  assumes "framed_by good q qs"
  shows "ensures (extractFlv env cfg wl rp qs) (framed_by good q)"
proof (cases qs)
  case (Pair q' s)
  have d: "same_stream q a \<and> good (quic b)"
    if "deliver env cfg wl tag (q'\<lparr>flvRecord := r\<rparr>, s) = Ok (a, b)" for r tag a b
    using ensuresD [OF deliver_frame that, of q] assms Pair by simp
  show ?thesis
    using assms Pair
    by (auto simp: extractFlv_def ensures_andthen Let_def intro!: ensuresI split: option.splits dest!: d)
qed

end

subsection \<open>Runs\<close>

text \<open>
  What a stream's goroutine does, as a sequence of events: a packet arrives, or a slot of the
  window leaves it, with its packet or empty.
\<close>

datatype event = Arrive "RtpPack option" | Emit u16 "RtpPack option"

fun arrivals :: "event list \<Rightarrow> RtpPack option list" where
  "arrivals [] = []"
| "arrivals (Arrive p # es) = p # arrivals es"
| "arrivals (Emit slot rp # es) = arrivals es"

fun emitted :: "event list \<Rightarrow> (u16 \<times> RtpPack option) list" where
  "emitted [] = []"
| "emitted (Arrive p # es) = emitted es"
| "emitted (Emit slot rp # es) = (slot, rp) # emitted es"

lemma arrivals_append [simp]: "arrivals (es @ fs) = arrivals es @ arrivals fs"
  by (induction es rule: arrivals.induct) simp_all

lemma emitted_append [simp]: "emitted (es @ fs) = emitted es @ emitted fs"
  by (induction es rule: emitted.induct) simp_all

text \<open>The specification: how a window may evolve, given what the configuration promises.\<close>

record guarantees =
  protecting :: bool
  keeping :: bool
  recovering :: bool
  from_source :: "RtpPack \<Rightarrow> bool"

inductive window_run :: "guarantees \<Rightarrow> window \<Rightarrow> event list \<Rightarrow> window \<Rightarrow> bool" for m where
  finish: "window_run m v [] v"
| arrive: "window_run m (spec_answer p v) es v' \<Longrightarrow> window_run m v (Arrive p # es) v'"
| emit: "window_run m (first + 1, w) es v' \<Longrightarrow> x \<noteq> None \<longrightarrow> rp = x \<Longrightarrow>
    \<forall>p. rp = Some p \<longrightarrow> SequenceNumber p = first \<and> (x = None \<longrightarrow> from_source m p) \<Longrightarrow> keeping m \<longrightarrow> w \<noteq> [] \<Longrightarrow>
    recovering m \<longrightarrow> rp \<noteq> None \<Longrightarrow> window_run m (first, x # w) (Emit first rp # es) v'"
| skip: "window_run m (first + 1, w) es v' \<Longrightarrow> protecting m \<Longrightarrow> w \<noteq> [] \<Longrightarrow>
    window_run m (first, None # w) es v'"
| late: "window_run m (first, w @ replicate (i - length w) None @ [Some p]) es v' \<Longrightarrow>
    protecting m \<Longrightarrow> w \<noteq> [] \<Longrightarrow> length w \<le> i \<Longrightarrow> from_source m p \<Longrightarrow> SequenceNumber p = first + word_of_nat i \<Longrightarrow>
    window_run m (first, w) es v'"

text \<open>The goroutine itself: \<open>RecvPacket\<close> step by step.\<close>

inductive stream_run :: "'w Env \<Rightarrow> Config \<Rightarrow> 'l packets \<Rightarrow> 'm writer_refs
    \<Rightarrow> ('l, 'm, 'w) qs \<Rightarrow> event list \<Rightarrow> ('l, 'm, 'w) qs \<Rightarrow> bool" for env cfg al wl where
  finish: "stream_run env cfg al wl qs [] qs"
| arrive: "stream_run env cfg al wl (Enqueue al q p, s) es qs' \<Longrightarrow>
    stream_run env cfg al wl (q, s) (Arrive p # es) qs'"
| emit: "al_Size al (queue q) > PaddingWindowSize q \<or> isFirstOk al q \<and> al_Size al (queue q) > 1 \<Longrightarrow>
    Dequeue env cfg al (q, s) = Ok (rp, q1, s1) \<Longrightarrow> extractFlv env cfg wl rp (q1, s1) = Ok qs2 \<Longrightarrow>
    stream_run env cfg al wl qs2 es qs' \<Longrightarrow>
    stream_run env cfg al wl (q, s) (Emit (FirstSeq q1 - 1) rp # es) qs'"

lemma stream_run_append:
  "stream_run env cfg al wl qs es qs1 \<Longrightarrow> stream_run env cfg al wl qs1 fs qs' \<Longrightarrow>
     stream_run env cfg al wl qs (es @ fs) qs'"
  by (induction rule: stream_run.induct) (auto intro: stream_run.intros)

text \<open>Every run of the code is a run of the step relation.\<close>

definition drains :: "'w Env \<Rightarrow> Config \<Rightarrow> 'l packets \<Rightarrow> 'm writer_refs
    \<Rightarrow> ('l, 'm, 'w) qs \<Rightarrow> ('l, 'm, 'w) qs \<Rightarrow> bool" where
  "drains env cfg al wl qs qs' \<longleftrightarrow> (\<exists>es. stream_run env cfg al wl qs es qs' \<and> arrivals es = [])"

lemma drains_refl: "drains env cfg al wl qs qs"
  by (auto simp: drains_def intro!: exI [of _ "[]"] stream_run.finish)

lemma drains_step:
  assumes "al_Size al (queue (fst qs)) > PaddingWindowSize (fst qs)
      \<or> isFirstOk al (fst qs) \<and> al_Size al (queue (fst qs)) > 1"
    and "andthen (Dequeue env cfg al qs) (\<lambda>(rp, qs). extractFlv env cfg wl rp qs) = Ok qs1"
    and "drains env cfg al wl qs1 qs'"
  shows "drains env cfg al wl qs qs'"
proof (cases qs)
  case (Pair q s)
  from assms(2) Pair obtain rp q1 s1 where "Dequeue env cfg al (q, s) = Ok (rp, q1, s1)"
      "extractFlv env cfg wl rp (q1, s1) = Ok qs1"
    by (auto simp: andthen_eq_Ok)
  moreover obtain es where "stream_run env cfg al wl qs1 es qs'" "arrivals es = []"
    using assms(3) by (auto simp: drains_def)
  ultimately show ?thesis
    using assms(1) Pair
    by (auto simp: drains_def intro!: exI [of _ "Emit (FirstSeq q1 - 1) rp # es"] stream_run.emit)
qed

lemma drain_window_drains:
  "drain_window env cfg al wl qs = Some r \<Longrightarrow> r = Ok qs' \<Longrightarrow> drains env cfg al wl qs qs'"
proof (induction arbitrary: qs' rule: drain_window.raw_induct [rotated, consumes 1, case_names step])
  case (step loop env cfg al wl qs r)
  then show ?case
    by (cases qs') (fastforce simp: drains_refl split: if_splits go.splits intro: drains_step)
qed

lemma drain_ready_drains:
  "drain_ready env cfg al wl qs = Some r \<Longrightarrow> r = Ok qs' \<Longrightarrow> drains env cfg al wl qs qs'"
proof (induction arbitrary: qs' rule: drain_ready.raw_induct [rotated, consumes 1, case_names step])
  case (step loop env cfg al wl qs r)
  then show ?case
    by (cases qs') (fastforce simp: drains_refl split: if_splits go.splits intro: drains_step)
qed

lemma drains_trans:
  "drains env cfg al wl qs qs1 \<Longrightarrow> drains env cfg al wl qs1 qs' \<Longrightarrow> drains env cfg al wl qs qs'"
  unfolding drains_def by (metis arrivals_append append_Nil stream_run_append)

lemma RecvPacket_one_drains:
  assumes "RecvPacket_one env cfg al wl p (q, s) = Some (Ok qs')"
  shows "drains env cfg al wl (Enqueue al q p, s) qs'"
proof -
  from assms obtain qs1 where "drain_window env cfg al wl (Enqueue al q p, s) = Some (Ok qs1)"
      "drain_ready env cfg al wl qs1 = Some (Ok qs')"
    by (auto simp: RecvPacket_one_def split: option.splits go.splits)
  then show ?thesis
    by (auto intro: drains_trans drain_window_drains drain_ready_drains)
qed

lemma RecvPacket_one_run:
  assumes "RecvPacket_one env cfg al wl p qs = Some (Ok qs')"
  shows "\<exists>es. stream_run env cfg al wl qs (Arrive p # es) qs' \<and> arrivals es = []"
  using assms RecvPacket_one_drains [of env cfg al wl p "fst qs" "snd qs" qs']
  by (cases qs) (auto simp: drains_def intro: stream_run.arrive)

lemma RecvPacket_Cons_run:
  assumes "RecvPacket env cfg al wl (p # ps) qs = Some (Ok qs')"
    and "\<And>qs1. RecvPacket env cfg al wl ps qs1 = Some (Ok qs') \<Longrightarrow>
      \<exists>es. stream_run env cfg al wl qs1 es qs' \<and> arrivals es = ps"
  shows "\<exists>es. stream_run env cfg al wl qs (Arrive p # es) qs' \<and> arrivals es = ps"
proof -
  obtain qs1 where "RecvPacket_one env cfg al wl p qs = Some (Ok qs1)"
      "RecvPacket env cfg al wl ps qs1 = Some (Ok qs')"
    using assms(1) by (auto split: option.splits go.splits)
  then obtain es fs where "stream_run env cfg al wl qs (Arrive p # es) qs1" "arrivals es = []"
      "stream_run env cfg al wl qs1 fs qs'" "arrivals fs = ps"
    using assms(2) RecvPacket_one_run by blast
  then show ?thesis
    using stream_run_append [of env cfg al wl qs "Arrive p # es"] by (intro exI [of _ "es @ fs"]) simp
qed

lemma RecvPacket_run:
  "RecvPacket env cfg al wl ps qs = Some (Ok qs') \<Longrightarrow>
     \<exists>es. stream_run env cfg al wl qs es qs' \<and> arrivals es = ps"
proof (induction ps arbitrary: qs)
  case Nil
  then show ?case by (auto intro!: exI [of _ "[]"] stream_run.finish)
next
  case (Cons p ps)
  from RecvPacket_Cons_run [OF Cons.prems Cons.IH] show ?case by fastforce
qed

lemma unat_back:
  fixes first :: u16
  assumes "0 < d" "d < 65536"
  shows "unat (first - (first + word_of_nat d)) = 65536 - d"
proof -
  have "first - (first + word_of_nat d) = 0 - word_of_nat d" by simp
  then show ?thesis
    using assms by (simp only: unat_u16_minus) (simp add: unat_of_nat_u16)
qed

subsection \<open>The goroutine implements the specification\<close>

lemma skip_gap:
  assumes "window_run m (first + word_of_nat d, drop d w) es v" "gap d w" "0 < d \<longrightarrow> protecting m"
  shows "window_run m (first, w) es v"
  using assms
proof (induction d arbitrary: first w)
  case (Suc d)
  then obtain u where w: "w = None # u" "gap d u"
    by (cases w) (auto simp: gap_def [of _ "[]"])
  then have "window_run m (first + 1, u) es v" "u \<noteq> []"
    using Suc.IH [of "first + 1" u] Suc.prems by (auto simp: add.assoc gap_def)
  with w Suc.prems show ?case
    by (simp add: window_run.skip)
qed simp

text \<open>
  A window whose missing head has been requested, and the answer to the request: it fills the
  head; or the head has been skipped, and the answer comes too late or goes beyond the window.
\<close>

lemma answer_cases:
  assumes ok: "window_ok (first, w)" "gap d w" "drop d w = y # t"
    and r: "\<forall>p. r = Some p \<longrightarrow> SequenceNumber p = first"
  obtains (same) "spec_answer r (first + word_of_nat d, drop d w) = (first + word_of_nat d, y # t)" "r = None \<or> 0 < d"
  | (recovered) p where "d = 0" "r = Some p" "spec_answer r (first + word_of_nat d, drop d w) = (first, Some p # t)"
  | (beyond) p i where "r = Some p" "0 < d" "length (y # t) \<le> i" "SequenceNumber p = first + word_of_nat d + word_of_nat i"
      "spec_answer r (first + word_of_nat d, drop d w)
        = (first + word_of_nat d, (y # t) @ replicate (i - length (y # t)) None @ [Some p])"
proof (cases r)
  case None
  with ok(3) that(1) show ?thesis by (simp add: spec_answer_def)
next
  case (Some p)
  with r have p: "SequenceNumber p = first" by simp
  show ?thesis
  proof (cases "d = 0 \<or> FirstBeforeSecond first (first + word_of_nat d)")
    case True
    with Some ok(3) p that(1,2) show ?thesis
      by (cases "d = 0") (simp_all add: spec_answer_def spec_enqueue_def put_at_0)
  next
    case False
    define i where "i = unat (first - (first + word_of_nat d))"
    have "length (y # t) \<le> i"
    proof -
      have "Suc (length t) = length w - d" using arg_cong [OF ok(3), of length] by simp
      moreover have "length w \<le> 60001" using ok(1) by (simp add: window_ok_def)
      ultimately show ?thesis
        using False gap_less [OF ok(2)] unat_back [of d first] by (simp add: i_def)
    qed
    moreover have "spec_answer r (first + word_of_nat d, drop d w) = (first + word_of_nat d, put_at (y # t) i p)"
      using False Some p ok(3) by (simp add: spec_answer_def spec_enqueue_def i_def)
    moreover have "SequenceNumber p = first + word_of_nat d + word_of_nat i"
      unfolding p i_def by simp
    ultimately show ?thesis
      using False Some that(3) [where i = i and p = p] by (simp add: put_at_def)
  qed
qed

lemma window_run_answer:
  assumes ok: "window_ok (first, w)" "gap d w" "w ! 0 = None" "0 < d \<longrightarrow> protecting m"
    and r: "\<forall>p. r = Some p \<longrightarrow> SequenceNumber p = first \<and> from_source m p" "recovering m \<longrightarrow> r \<noteq> None \<or> 0 < d"
    and v: "spec_answer r (first + word_of_nat d, drop d w) = (first', x # u)"
    and run: "window_run m (first' + 1, u) es v'" "keeping m \<longrightarrow> u \<noteq> []"
  shows "window_run m (first, w) (Emit first' x # es) v'"
proof (rule skip_gap [OF _ ok(2,4)])
  obtain y t where y: "drop d w = y # t" "y = w ! d"
    using gap_less [OF ok(2)] by (metis Cons_nth_drop_Suc)
  have seq: "\<forall>p. y = Some p \<longrightarrow> SequenceNumber p = first + word_of_nat d"
    using window_ok_drop [OF ok(1), of d] y(1) window_ok_head by metis
  have filled: "0 < d \<longrightarrow> y \<noteq> None"
    using gap_end [OF ok(2)] y(2) by simp
  have r': "\<forall>p. r = Some p \<longrightarrow> SequenceNumber p = first" using r(1) by blast
  from ok(1,2) y(1) r' show "window_run m (first + word_of_nat d, drop d w) (Emit first' x # es) v'"
  proof (cases rule: answer_cases)
    case same
    with v y(1) run r seq filled show ?thesis by (auto intro!: window_run.emit)
  next
    case (recovered p)
    with v y run r ok(3) show ?thesis by (auto intro!: window_run.emit)
  next
    case (beyond p i)
    with v have xu: "first' = first + word_of_nat d" "x = y"
        "x # u = (y # t) @ replicate (i - length (y # t)) None @ [Some p]" by simp_all
    have "window_run m (first', x # u) (Emit first' x # es) v'"
      using run seq filled beyond(2) xu(1,2) by (intro window_run.emit) simp_all
    then have "window_run m (first + word_of_nat d, y # t) (Emit first' x # es) v'"
      unfolding xu(3) using beyond(1-4) ok(4) xu(1) r(1) by (intro window_run.late [of m _ "y # t" i p]) simp_all
    then show ?thesis by (simp only: y(1))
  qed
qed

definition promises :: "Config \<Rightarrow> int \<Rightarrow> bool \<Rightarrow> (RtpPack \<Rightarrow> bool) \<Rightarrow> guarantees" where
  "promises cfg pw answering genuine =
     \<lparr>protecting = PROTECT cfg, keeping = (\<not> PROTECT cfg \<and> 1 \<le> pw), recovering = answering,
      from_source = genuine\<rparr>"

lemma promises_simps [simp]:
  "protecting (promises cfg pw answering genuine) = PROTECT cfg"
  "keeping (promises cfg pw answering genuine) \<longleftrightarrow> \<not> PROTECT cfg \<and> 1 \<le> pw"
  "recovering (promises cfg pw answering genuine) = answering"
  "from_source (promises cfg pw answering genuine) = genuine"
  by (simp_all add: promises_def)

text \<open>A state of the stream's goroutine between two of its steps.\<close>

definition stream_ok :: "'l packets \<Rightarrow> u32 \<Rightarrow> ('w quic_state \<Rightarrow> bool) \<Rightarrow> ('l, 'm, 'w) qs \<Rightarrow> bool" where
  "stream_ok al ssrc good qs \<longleftrightarrow> window_ok (window_of al (fst qs)) \<and> Ssrc (fst qs) = ssrc
     \<and> good (quic (snd qs)) \<and> 0 \<le> PaddingWindowSize (fst qs)"

locale stream = stream_base al env cfg ssrc good + retransmission env cfg ssrc good answering genuine
  for al :: "(RtpPack, 'l) arraylist_ops" and env :: "'w Env" and cfg ssrc good answering genuine
begin

lemma stream_ok_Enqueue: "stream_ok al ssrc good (q, s) \<Longrightarrow> stream_ok al ssrc good (Enqueue al q p, s)"
  by (simp add: stream_ok_def window_of_Enqueue_option window_ok_spec_answer)

lemma stream_ok_frame: "stream_ok al ssrc good (q, s) \<Longrightarrow> framed_by good q qs \<Longrightarrow> stream_ok al ssrc good qs"
  by (simp add: stream_ok_def same_stream_def window_of_def)

lemma stream_ok_nonempty:
  assumes "stream_ok al ssrc good (q, s)"
    and "al_Size al (queue q) > PaddingWindowSize q \<or> isFirstOk al q \<and> al_Size al (queue q) > 1"
  shows "al_Values al (queue q) \<noteq> []" "last (al_Values al (queue q)) \<noteq> None"
    "1 \<le> PaddingWindowSize q \<Longrightarrow> 2 \<le> length (al_Values al (queue q))"
proof -
  show ne: "al_Values al (queue q) \<noteq> []" using assms by (auto simp: size stream_ok_def)
  with assms show "last (al_Values al (queue q)) \<noteq> None" by (simp add: stream_ok_def window_ok_def window_of_def)
  assume "1 \<le> PaddingWindowSize q"
  with assms show "2 \<le> length (al_Values al (queue q))" by (auto simp: size)
qed

lemma length_spec_answer: "length (snd v) \<le> length (snd (spec_answer r v))"
  by (cases v) (auto simp: spec_answer_def spec_enqueue_def length_put_at split: option.splits)

lemma Dequeue_parts:
  assumes "Dequeue env cfg al (q, s) = Ok (rp, q', s')" "stream_ok al ssrc good (q, s)"
    and "al_Size al (queue q) > PaddingWindowSize q \<or> isFirstOk al q \<and> al_Size al (queue q) > 1"
  obtains first u d r where "window_of al q' = (first + 1, u)" "good (quic s')" "Ssrc q' = ssrc"
      "PaddingWindowSize q' = PaddingWindowSize q" "gap d (al_Values al (queue q))" "\<not> PROTECT cfg \<longrightarrow> d = 0"
      "spec_answer r (FirstSeq q + word_of_nat d, drop d (al_Values al (queue q))) = (first, rp # u)"
      "if isFirstOk al q then d = 0 \<and> r = None
       else (\<forall>p. r = Some p \<longrightarrow> SequenceNumber p = FirstSeq q \<and> genuine p) \<and> (answering \<longrightarrow> r \<noteq> None \<or> 0 < d)"
proof -
  let ?w = "al_Values al (queue q)"
  note ne = stream_ok_nonempty [OF assms(2,3)]
  have sg: "Ssrc q = ssrc" "good (quic s)"
    using assms(2) by (simp_all add: stream_ok_def)
  obtain first w where rp: "rp = (case w of [] \<Rightarrow> None | x # _ \<Rightarrow> x)"
      and out: "window_of al q' = (first + 1, tl w)" "good (quic s')" "Ssrc q' = ssrc"
      "PaddingWindowSize q' = PaddingWindowSize q"
      and cases: "isFirstOk al q \<and> (first, w) = window_of al q
       \<or> \<not> isFirstOk al q \<and> (\<exists>d r st st'.
            (first, w) = spec_answer r (FirstSeq q + word_of_nat d, drop d ?w)
            \<and> gap d ?w \<and> (\<not> PROTECT cfg \<longrightarrow> d = 0) \<and> good st
            \<and> (GetByQuic (quic_lib env) cfg ssrc (FirstSeq q) st = Ok (r, st') \<or> PROTECT cfg \<and> 0 < d \<and> r = None))"
    using Dequeue_effect [OF assms(1) ne(1,2) sg] by blast
  then obtain d r where d: "gap d ?w" "\<not> PROTECT cfg \<longrightarrow> d = 0"
      "spec_answer r (FirstSeq q + word_of_nat d, drop d ?w) = (first, w)"
      "if isFirstOk al q then d = 0 \<and> r = None
       else (\<forall>p. r = Some p \<longrightarrow> SequenceNumber p = FirstSeq q \<and> genuine p) \<and> (answering \<longrightarrow> r \<noteq> None \<or> 0 < d)"
  proof (cases "isFirstOk al q")
    case True
    with cases that [of 0 None] ne(1) show ?thesis by (simp add: spec_answer_def window_of_def)
  next
    case False
    with cases obtain d r st st' where g:
      "(first, w) = spec_answer r (FirstSeq q + word_of_nat d, drop d ?w)"
      "gap d ?w" "\<not> PROTECT cfg \<longrightarrow> d = 0" "good st"
      "GetByQuic (quic_lib env) cfg ssrc (FirstSeq q) st = Ok (r, st') \<or> PROTECT cfg \<and> 0 < d \<and> r = None"
      by blast
    have "\<forall>p. r = Some p \<longrightarrow> SequenceNumber p = FirstSeq q \<and> genuine p"
      using g(4,5) reply_seq by blast
    moreover have "answering \<longrightarrow> r \<noteq> None \<or> 0 < d" using g(4,5) answered by blast
    ultimately show ?thesis using that [of d r] g(1-3) False by simp
  qed
  have "w \<noteq> []"
    using length_spec_answer [of "(FirstSeq q + word_of_nat d, drop d ?w)" r] gap_less [OF d(1)]
    by (auto simp: d(3))
  then have "w = rp # tl w" by (cases w) (simp_all add: rp)
  with d(3) have "spec_answer r (FirstSeq q + word_of_nat d, drop d ?w) = (first, rp # tl w)" by simp
  from that [OF out d(1,2) this d(4)] show ?thesis .
qed

lemma Dequeue_run:
  assumes deq: "Dequeue env cfg al (q, s) = Ok (rp, q', s')" "stream_ok al ssrc good (q, s)"
    and guard: "al_Size al (queue q) > PaddingWindowSize q \<or> isFirstOk al q \<and> al_Size al (queue q) > 1"
    and run: "window_run (promises cfg (PaddingWindowSize q) answering genuine) (window_of al q') es v"
  shows "window_run (promises cfg (PaddingWindowSize q) answering genuine) (window_of al q) (Emit (FirstSeq q' - 1) rp # es) v"
proof -
  let ?w = "al_Values al (queue q)" and ?m = "promises cfg (PaddingWindowSize q) answering genuine"
  note ne = stream_ok_nonempty [OF deq(2) guard]
  obtain first u d r where out: "window_of al q' = (first + 1, u)" "good (quic s')" "Ssrc q' = ssrc"
      "PaddingWindowSize q' = PaddingWindowSize q" "gap d (al_Values al (queue q))" "\<not> PROTECT cfg \<longrightarrow> d = 0"
      "spec_answer r (FirstSeq q + word_of_nat d, drop d (al_Values al (queue q))) = (first, rp # u)"
      "if isFirstOk al q then d = 0 \<and> r = None
       else (\<forall>p. r = Some p \<longrightarrow> SequenceNumber p = FirstSeq q \<and> genuine p) \<and> (answering \<longrightarrow> r \<noteq> None \<or> 0 < d)"
    by (rule Dequeue_parts [OF deq guard])
  have wok: "window_ok (FirstSeq q, ?w)"
    using deq(2) by (simp add: stream_ok_def window_of_def)
  have "length ?w - d \<le> Suc (length u)"
    using length_spec_answer [of "(FirstSeq q + word_of_nat d, drop d ?w)" r] by (simp add: out(7))
  then have keep: "keeping ?m \<longrightarrow> u \<noteq> []"
    using ne(3) out(6) by (cases u) auto
  have "window_run ?m (FirstSeq q, ?w) (Emit first rp # es) v"
  proof (cases "isFirstOk al q")
    case True
    with out keep wok run show ?thesis
      by (auto simp: spec_answer_def isFirstOk_iff dest: window_ok_head intro!: window_run.emit)
  next
    case False
    with ne(1) have "?w ! 0 = None"
      by (cases ?w; cases "?w ! 0") (auto simp: isFirstOk_iff)
    with False out keep wok run show ?thesis
      by (intro window_run_answer [where d = d and r = r and u = u]) auto
  qed
  moreover have "FirstSeq q' - 1 = first" "window_of al q = (FirstSeq q, ?w)"
    using out(1) by (auto simp: window_of_def)
  ultimately show ?thesis by simp
qed

lemma stream_ok_Dequeue:
  assumes "Dequeue env cfg al (q, s) = Ok (rp, q', s')" "stream_ok al ssrc good (q, s)"
    and "al_Size al (queue q) > PaddingWindowSize q \<or> isFirstOk al q \<and> al_Size al (queue q) > 1"
  shows "stream_ok al ssrc good (q', s')" "PaddingWindowSize q' = PaddingWindowSize q"
proof -
  obtain first u d r where out: "window_of al q' = (first + 1, u)" "good (quic s')" "Ssrc q' = ssrc"
      "PaddingWindowSize q' = PaddingWindowSize q" "gap d (al_Values al (queue q))" "\<not> PROTECT cfg \<longrightarrow> d = 0"
      "spec_answer r (FirstSeq q + word_of_nat d, drop d (al_Values al (queue q))) = (first, rp # u)"
      "if isFirstOk al q then d = 0 \<and> r = None
       else (\<forall>p. r = Some p \<longrightarrow> SequenceNumber p = FirstSeq q \<and> genuine p) \<and> (answering \<longrightarrow> r \<noteq> None \<or> 0 < d)"
    by (rule Dequeue_parts [OF assms])
  have "window_ok (FirstSeq q, al_Values al (queue q))"
    using assms(2) by (simp add: stream_ok_def window_of_def)
  from window_ok_spec_answer [OF window_ok_drop [OF this], of r d] have "window_ok (first, rp # u)"
    by (simp only: out(7))
  from window_ok_tl [OF this] show "stream_ok al ssrc good (q', s')"
    using assms(2) out by (simp add: stream_ok_def)
  show "PaddingWindowSize q' = PaddingWindowSize q" by (rule out(4))
qed

theorem simulation:
  assumes "stream_run env cfg al wl qs es qs'" "stream_ok al ssrc good qs"
  shows "window_run (promises cfg (PaddingWindowSize (fst qs)) answering genuine)
      (window_of al (fst qs)) es (window_of al (fst qs'))
    \<and> stream_ok al ssrc good qs' \<and> PaddingWindowSize (fst qs') = PaddingWindowSize (fst qs)"
  using assms
proof (induction rule: stream_run.induct)
  case (finish qs)
  then show ?case by (simp add: window_run.finish)
next
  case (arrive q p s es qs')
  then show ?case
    by (simp add: stream_ok_Enqueue window_of_Enqueue_option window_run.arrive)
next
  case (emit q s rp q1 s1 qs2 es qs')
  have ok: "stream_ok al ssrc good (q1, s1)" and pw: "PaddingWindowSize q1 = PaddingWindowSize q"
    using stream_ok_Dequeue [OF emit(2,6,1)] by auto
  have "framed_by good q1 qs2"
    using ensuresD [OF extractFlv_frame emit(3), of q1] ok by (simp add: stream_ok_def)
  moreover from this have "stream_ok al ssrc good qs2" using stream_ok_frame [OF ok] by simp
  ultimately show ?case
    using emit.IH Dequeue_run [OF emit(2,6,1)] pw by (simp add: same_stream_def window_of_def)
qed

end

end
