(* ===== verification/Queue_Identity.thy ===== *)
theory Queue_Identity
  imports Queue_Order
begin

text \<open>
  What a stream's goroutine never changes of its queue: the stream it belongs to, its channel key,
  its input channel and its outputs; and of the shared state, the publisher table. The node's
  tables rely on this.
\<close>

definition ident :: "('l, 'm) Queue \<Rightarrow> u32 \<times> string \<times> RtpPack option chan \<times> nat option \<times> nat option" where
  "ident q = (Ssrc q, ChannelKey q, InChan q, hlsWriter q, flvFile q)"

lemma ident_upd [simp]:
  "ident (q\<lparr>accPackets := n\<rparr>) = ident q" "ident (q\<lparr>queue := l\<rparr>) = ident q" "ident (q\<lparr>FirstSeq := s\<rparr>) = ident q"
  "ident (q\<lparr>accLoss := n\<rparr>) = ident q" "ident (q\<lparr>flvRecord := r\<rparr>) = ident q"
  "ident (q\<lparr>previousLostSeq := s\<rparr>) = ident q" "ident (q\<lparr>startTime := t\<rparr>) = ident q"
  "ident (q\<lparr>delay := t\<rparr>) = ident q" "ident (q\<lparr>accFlvTags := n\<rparr>) = ident q" "ident (q\<lparr>cache := c\<rparr>) = ident q"
  "ident (q\<lparr>FlvWriters := w\<rparr>) = ident q"
  by (simp_all add: ident_def)

abbreviation (input) same_ident :: "('l, 'm, 'w) qs \<Rightarrow> ('l, 'm, 'w) qs \<Rightarrow> bool" where
  "same_ident qs qs' \<equiv> ident (fst qs') = ident (fst qs) \<and> Publishers_map (snd qs') = Publishers_map (snd qs)"

text \<open>
  What only the delivery of a tag changes: the clients of the stream, its initialisation segments,
  the writers, the HLS sources and the recordings. Taking a slot out of the window leaves all of it
  alone, and the number of tags.
\<close>

definition held :: "('l, 'm, 'w) qs \<Rightarrow> 'm \<times> SegmentCache \<times> (nat \<Rightarrow> FLVWriter) \<times> (nat \<Rightarrow> Source)" where
  "held qs = (FlvWriters (fst qs), cache (fst qs), writers (snd qs), sources (snd qs))"

lemma held_upd [simp]:
  "held (q\<lparr>accPackets := n\<rparr>, s) = held (q, s)" "held (q\<lparr>queue := l\<rparr>, s) = held (q, s)"
  "held (q\<lparr>FirstSeq := f\<rparr>, s) = held (q, s)" "held (q\<lparr>accLoss := n\<rparr>, s) = held (q, s)"
  "held (q\<lparr>flvRecord := r\<rparr>, s) = held (q, s)" "held (q\<lparr>previousLostSeq := f\<rparr>, s) = held (q, s)"
  "held (q\<lparr>startTime := t\<rparr>, s) = held (q, s)" "held (q\<lparr>delay := t\<rparr>, s) = held (q, s)"
  "held (q\<lparr>accFlvTags := n\<rparr>, s) = held (q, s)"
  "held (q, s\<lparr>quic := st\<rparr>) = held (q, s)" "held (q, s\<lparr>UdpBufferSize := n\<rparr>) = held (q, s)"
  "held (q, s\<lparr>files := fs\<rparr>) = held (q, s)"
  by (simp_all add: held_def)

abbreviation (input) untouched :: "('l, 'm, 'w) qs \<Rightarrow> ('l, 'm, 'w) qs \<Rightarrow> bool" where
  "untouched qs qs' \<equiv> same_ident qs qs' \<and> held qs' = held qs \<and> accFlvTags (fst qs') = accFlvTags (fst qs)
     \<and> files (snd qs') = files (snd qs)"

lemma Enqueue_ident [simp]:
  "ident (Enqueue al q p) = ident q" "held (Enqueue al q p, s) = held (q, s)" "accFlvTags (Enqueue al q p) = accFlvTags q"
  by (simp_all add: Enqueue_def Let_def split: option.split)

lemma reshape_loop_ident: "ensures (reshape_loop k al q n) (\<lambda>(q', _). ident q' = ident q \<and> held (q', s) = held (q, s)
    \<and> accFlvTags q' = accFlvTags q)"
  by (induction k al q n rule: reshape_loop.induct) (simp_all add: Let_def)

lemma reshape_ident: "ensures (reshape env cfg al qs) (\<lambda>(qs', _). untouched qs qs')"
proof (cases qs)
  case (Pair q s)
  have "ident a = ident q \<and> held (a, s) = held (q, s) \<and> accFlvTags a = accFlvTags q" if "reshape_loop k al q n = Ok (a, b)" for k n a b
    using ensuresD [OF reshape_loop_ident that] by simp
  with Pair show ?thesis
    by (auto simp: reshape_def ensures_andthen intro!: ensuresI split: prod.splits)
qed

lemma protect_reshape_ident: "ensures (protect_reshape env cfg al qs) (\<lambda>(qs', _). untouched qs qs')"
  unfolding protect_reshape_def ensures_andthen
  by (rule ensures_mono [OF reshape_ident]) (auto simp: Let_def split: prod.splits)

lemma check_congestion_ident: "ensures (check_congestion env cfg al seq qs) (\<lambda>(qs', _). untouched qs qs')"
proof (cases qs)
  case (Pair q s)
  show ?thesis
    unfolding Pair check_congestion_def
    by (auto simp: ensures_andthen intro!: ensuresI dest: ensuresD [OF protect_reshape_ident])
qed

lemma runQuic_ident: "ensures (runQuic env cfg al seq qs) (untouched qs)"
proof (cases qs)
  case (Pair q s)
  let ?q = "q\<lparr>accLoss := accLoss q + 1\<rparr>"
  have "untouched (q, s) (a, b)" if "check_congestion env cfg al seq (?q, s) = Ok ((a, b), c)" for a b c
    using ensuresD [OF check_congestion_ident that] by simp
  with Pair show ?thesis
    by (auto simp: runQuic_def ensures_andthen intro!: ensuresI split: prod.splits)
qed

lemma Dequeue_ident: "ensures (Dequeue env cfg al qs) (\<lambda>(_, qs'). untouched qs qs')"
proof (cases qs)
  case (Pair q s)
  have "untouched (q, s) (a, b)" if "runQuic env cfg al (FirstSeq q) (q, s) = Ok (a, b)" for a b
    using ensuresD [OF runQuic_ident that] by simp
  with Pair show ?thesis
    by (auto simp: Dequeue_def ensures_andthen Let_def intro!: ensuresI)
qed

lemma getDelay_ident: "ensures (getDelay env cfg tag qs) (untouched qs)"
  by (cases qs) (auto simp: getDelay_def ensures_andthen Let_def intro!: ensuresI split: prod.splits option.splits)

lemma count_tag_ident: "ensures (count_tag env cfg tag qs) (\<lambda>qs'. same_ident qs qs' \<and> held qs' = held qs
    \<and> files (snd qs') = files (snd qs))"
proof (cases qs)
  case (Pair q s)
  then show ?thesis
    using getDelay_ident [of env cfg tag "(q\<lparr>accFlvTags := accFlvTags q + 1\<rparr>, s)"]
    by (simp add: count_tag_def Let_def) (auto elim: ensures_mono)
qed

lemma remember_segment_ident: "ensures (remember_segment tag qs) (same_ident qs)"
  by (cases qs) (auto simp: remember_segment_def ensures_andthen intro!: ensuresI)

lemma fan_out_ident: "ensures (fan_out wl tag qs) (\<lambda>(qs', _). same_ident qs qs')"
  by (cases qs) (auto simp: fan_out_def ensures_andthen intro!: ensuresI)

lemma to_hls_ident: "ensures (to_hls env tag qs) (same_ident qs)"
  by (cases qs) (auto simp: to_hls_def ensures_andthen andthen_eq_Ok Let_def intro!: ensuresI split: option.splits)

lemma to_file_ident: "ensures (to_file tag qs) (\<lambda>qs'. same_ident qs qs' \<and> held qs' = held qs)"
  by (cases qs) (auto simp: to_file_def ensures_andthen andthen_eq_Ok intro!: ensuresI split: option.splits prod.splits)

lemma reset_record_ident [simp]: "untouched qs (reset_record qs)"
  by (cases qs) (simp add: reset_record_def)

lemma deliver_ident: "ensures (deliver env cfg wl tag qs) (same_ident qs)"
proof -
  have "same_ident qs qs'" if d: "deliver env cfg wl tag qs = Ok qs'" for qs'
  proof -
    obtain a b c failed where s: "count_tag env cfg tag qs = Ok a" "remember_segment tag a = Ok b"
        "fan_out wl tag b = Ok (c, failed)"
        "(if failed then Ok (reset_record c) else andthen (to_hls env tag c) (\<lambda>qs.
           andthen (to_file tag qs) (\<lambda>qs. Ok (reset_record qs)))) = Ok qs'"
      using d by (auto simp: deliver_def andthen_eq_Ok)
    have "same_ident qs c"
      using ensuresD [OF count_tag_ident s(1)] ensuresD [OF remember_segment_ident s(2)] ensuresD [OF fan_out_ident s(3)]
      by simp
    moreover have "same_ident c qs'"
    proof (cases failed)
      case True
      with s(4) show ?thesis by auto
    next
      case False
      with s(4) obtain d e where "to_hls env tag c = Ok d" "to_file tag d = Ok e" "qs' = reset_record e"
        by (auto simp: andthen_eq_Ok)
      with ensuresD [OF to_hls_ident this(1)] ensuresD [OF to_file_ident this(2)] show ?thesis by simp
    qed
    ultimately show ?thesis by simp
  qed
  then show ?thesis by (rule ensuresI)
qed

lemma extractFlv_ident: "ensures (extractFlv env cfg wl rp qs) (same_ident qs)"
proof (cases qs)
  case (Pair q s)
  have "ident a = ident q \<and> Publishers_map b = Publishers_map s"
    if "deliver env cfg wl tag (q\<lparr>flvRecord := r\<rparr>, s) = Ok (a, b)" for r tag a b
    using ensuresD [OF deliver_ident that] by simp
  with Pair show ?thesis
    by (auto simp: extractFlv_def ensures_andthen Let_def intro!: ensuresI split: option.splits)
qed

lemma stream_run_ident: "stream_run env cfg al wl qs es qs' \<Longrightarrow> same_ident qs qs'"
proof (induction rule: stream_run.induct)
  case (emit q s rp q1 s1 qs2 es qs')
  then show ?case
    using ensuresD [OF Dequeue_ident emit.hyps(2)] ensuresD [OF extractFlv_ident emit.hyps(3)] by simp
qed simp_all

lemma RecvPacket_one_ident:
  assumes "RecvPacket_one env cfg al wl p (q, s) = Some (Ok (q', s'))"
  shows "Ssrc q' = Ssrc q" "ChannelKey q' = ChannelKey q" "InChan q' = InChan q" "Publishers_map s' = Publishers_map s"
  using RecvPacket_one_run [OF assms] stream_run_ident by (fastforce simp: ident_def)+

end
