(* ===== verification/Go_Strings.thy ===== *)
theory Go_Strings
  imports Go_Prelude "HOL-Library.Sublist"
begin

text \<open>
  The functions of Go's \<open>strings\<close>, \<open>path\<close> and \<open>strconv\<close> packages that the HTTP servers use. A Go
  string is the list of its bytes.
\<close>

subsection \<open>Trimming and splitting\<close>

definition TrimLeft :: "string \<Rightarrow> char \<Rightarrow> string" where
  "TrimLeft s c = dropWhile (\<lambda>x. x = c) s"

definition HasSuffix :: "string \<Rightarrow> string \<Rightarrow> bool" where
  "HasSuffix s suf \<longleftrightarrow> length suf \<le> length s \<and> drop (length s - length suf) s = suf"

definition TrimSuffix :: "string \<Rightarrow> string \<Rightarrow> string" where
  "TrimSuffix s suf = (if HasSuffix s suf then take (length s - length suf) s else s)"

text \<open>\<open>strings.SplitN(s, sep, n)\<close> for a separator of one byte: at most \<open>n\<close> pieces.\<close>

fun SplitN :: "string \<Rightarrow> char \<Rightarrow> nat \<Rightarrow> string list" where
  "SplitN s c 0 = []"
| "SplitN s c (Suc n) =
     (if n = 0 \<or> c \<notin> set s then [s]
      else takeWhile (\<lambda>x. x \<noteq> c) s # SplitN (tl (dropWhile (\<lambda>x. x \<noteq> c) s)) c n)"

text \<open>\<open>strings.Split(s, sep)[0]\<close> for a separator that is not empty: what precedes its first occurrence.\<close>

fun split_head :: "string \<Rightarrow> string \<Rightarrow> string" where
  "split_head [] sep = []"
| "split_head (x # s) sep = (if prefix sep (x # s) then [] else x # split_head s sep)"

text \<open>\<open>strings.LastIndex(s, c)\<close>; \<open>None\<close> is Go's -1.\<close>

fun LastIndex :: "string \<Rightarrow> char \<Rightarrow> nat option" where
  "LastIndex [] c = None"
| "LastIndex (x # s) c =
     (case LastIndex s c of Some i \<Rightarrow> Some (Suc i) | None \<Rightarrow> if x = c then Some 0 else None)"

subsection \<open>Paths\<close>

text \<open>\<open>path.Ext\<close>: the suffix from the last dot of the last path element on.\<close>

definition Ext :: "string \<Rightarrow> string" where
  "Ext p = (let r = takeWhile (\<lambda>x. x \<noteq> CHR ''/'') (rev p) in
     if CHR ''.'' \<in> set r then CHR ''.'' # rev (takeWhile (\<lambda>x. x \<noteq> CHR ''.'') r) else [])"

text \<open>\<open>path.Base\<close>: the last element, without trailing slashes.\<close>

definition Base :: "string \<Rightarrow> string" where
  "Base p = (if p = [] then ''.''
     else let r = dropWhile (\<lambda>x. x = CHR ''/'') (rev p) in
       if r = [] then ''/'' else rev (takeWhile (\<lambda>x. x \<noteq> CHR ''/'') r))"

subsection \<open>Decimal numbers\<close>

definition digit :: "nat \<Rightarrow> char" where
  "digit d = char_of (48 + d)"

function decimal :: "nat \<Rightarrow> string" where
  "decimal n = (if n < 10 then [digit n] else decimal (n div 10) @ [digit (n mod 10)])"
  by pat_completeness auto
termination
  by (relation "measure id") auto

declare decimal.simps [simp del]

definition Itoa :: "int \<Rightarrow> string" where
  "Itoa i = (if i < 0 then CHR ''-'' # decimal (nat (- i)) else decimal (nat i))"

text \<open>
  The verb \<open>%.3f\<close> applied to \<open>float64(ms)/float64(1000)\<close>. The quotient has three decimals, and for
  \<open>|ms| < 2^52\<close> its nearest double rounds to them, so the digits are those of \<open>ms\<close>.
\<close>

definition millis :: "int \<Rightarrow> string" where
  "millis ms = (let n = nat \<bar>ms\<bar> in
     (if ms < 0 then [CHR ''-''] else []) @ decimal (n div 1000) @ CHR ''.''
     # [digit (n div 100 mod 10), digit (n div 10 mod 10), digit (n mod 10)])"

definition newline :: string where "newline = [char_of (10 :: nat)]"

subsection \<open>Laws\<close>

lemma TrimSuffix_append [simp]: "TrimSuffix (s @ suf) suf = s"
  by (simp add: TrimSuffix_def HasSuffix_def)

lemma TrimLeft_Cons [simp]: "TrimLeft (c # s) c = TrimLeft s c"
  by (simp add: TrimLeft_def)

lemma TrimLeft_id: "s = [] \<or> hd s \<noteq> c \<Longrightarrow> TrimLeft s c = s"
  by (cases s) (simp_all add: TrimLeft_def)

lemma SplitN_2:
  assumes "c \<notin> set a"
  shows "SplitN (a @ c # b) c (Suc (Suc 0)) = [a, b]"
proof -
  have "takeWhile (\<lambda>x. x \<noteq> c) (a @ c # b) = a" "dropWhile (\<lambda>x. x \<noteq> c) (a @ c # b) = c # b"
    using assms by (auto simp: takeWhile_append dropWhile_append)
  then show ?thesis by simp
qed

lemma SplitN_3:
  assumes "c \<notin> set a" "c \<notin> set b"
  shows "SplitN (a @ c # b @ c # d) c (Suc (Suc (Suc 0))) = [a, b, d]"
proof -
  have "takeWhile (\<lambda>x. x \<noteq> c) (a @ c # b @ c # d) = a" "dropWhile (\<lambda>x. x \<noteq> c) (a @ c # b @ c # d) = c # b @ c # d"
    using assms by (auto simp: takeWhile_append dropWhile_append)
  then show ?thesis using SplitN_2 [OF assms(2), of d] by simp
qed

lemma split_head_append:
  assumes "\<And>u v. s @ sep = u @ sep @ v \<Longrightarrow> v = []" "sep \<noteq> []"
  shows "split_head (s @ sep) sep = s"
  using assms
proof (induction s)
  case Nil
  then show ?case by (cases sep) simp_all
next
  case (Cons x s)
  have "\<not> prefix sep (x # s @ sep)"
    using Cons.prems(1) [of "[]"] by (auto simp: prefix_def)
  moreover have "\<And>u v. s @ sep = u @ sep @ v \<Longrightarrow> v = []"
    using Cons.prems(1) [of "x # _"] by simp
  ultimately show ?case using Cons.IH Cons.prems(2) by simp
qed

lemma LastIndex_None: "LastIndex s c = None \<longleftrightarrow> c \<notin> set s"
  by (induction s) (auto split: option.splits)

lemma LastIndex_append: "c \<notin> set b \<Longrightarrow> LastIndex (a @ c # b) c = Some (length a)"
  by (induction a) (auto simp: LastIndex_None split: option.splits)

lemma Ext_append:
  assumes "CHR ''/'' \<notin> set e" "CHR ''.'' \<notin> set e"
  shows "Ext (s @ CHR ''.'' # e) = CHR ''.'' # e"
proof -
  have "takeWhile (\<lambda>x. x \<noteq> CHR ''/'') (rev (s @ CHR ''.'' # e))
      = rev e @ CHR ''.'' # takeWhile (\<lambda>x. x \<noteq> CHR ''/'') (rev s)"
    using assms(1) by (auto simp: takeWhile_append)
  moreover have "takeWhile (\<lambda>x. x \<noteq> CHR ''.'') (rev e @ CHR ''.'' # takeWhile (\<lambda>x. x \<noteq> CHR ''/'') (rev s)) = rev e"
    using assms(2) by (auto simp: takeWhile_append)
  ultimately show ?thesis by (simp add: Ext_def Let_def)
qed

lemma Base_append:
  assumes "CHR ''/'' \<notin> set b" "b \<noteq> []"
  shows "Base (a @ CHR ''/'' # b) = b"
proof -
  obtain x r where r: "rev b = x # r" using assms(2) by (cases "rev b") simp_all
  then have "x \<noteq> CHR ''/''" using assms(1) by (metis in_set_conv_decomp rev_is_rev_conv rev.simps(2) set_rev list.set_intros(1))
  then have "dropWhile (\<lambda>x. x = CHR ''/'') (rev (a @ CHR ''/'' # b)) = rev b @ CHR ''/'' # rev a"
    by (simp add: r)
  moreover have "takeWhile (\<lambda>x. x \<noteq> CHR ''/'') (rev b @ CHR ''/'' # rev a) = rev b"
    using assms(1) by (auto simp: takeWhile_append)
  ultimately show ?thesis using assms(2) by (simp add: Base_def Let_def)
qed

lemma digit_not [simp]: "d < 10 \<Longrightarrow> digit d \<noteq> CHR ''/'' \<and> digit d \<noteq> CHR ''.''"
proof -
  assume "d < 10"
  then have "d \<in> {0, 1, 2, 3, 4, 5, 6, 7, 8, 9}" by auto
  then show ?thesis by (auto simp: digit_def char_of_def)
qed

lemma decimal_chars: "CHR ''/'' \<notin> set (decimal n) \<and> CHR ''.'' \<notin> set (decimal n)"
proof (induction n rule: decimal.induct)
  case (1 n)
  then show ?case
    by (subst (1 2) decimal.simps) (auto dest: digit_not [of n] digit_not [of "n mod 10"] simp: eq_commute [of _ "digit _"])
qed

lemma Itoa_chars: "CHR ''/'' \<notin> set (Itoa i)" "CHR ''.'' \<notin> set (Itoa i)"
  using decimal_chars by (auto simp: Itoa_def)

text \<open>Decimal notation can be read back.\<close>

definition number :: "string \<Rightarrow> nat" where
  "number s = foldl (\<lambda>n c. 10 * n + (of_char c - 48)) 0 s"

lemma of_char_digit: "d < 10 \<Longrightarrow> (of_char (digit d) :: nat) = 48 + d"
  by (simp add: digit_def)

lemma number_decimal [simp]: "number (decimal n) = n"
proof (induction n rule: decimal.induct)
  case (1 n)
  show ?case
  proof (cases "n < 10")
    case True
    then show ?thesis by (subst decimal.simps) (simp add: number_def of_char_digit)
  next
    case False
    with 1 show ?thesis by (subst decimal.simps) (simp add: number_def of_char_digit)
  qed
qed

lemma decimal_eq_iff [simp]: "decimal m = decimal n \<longleftrightarrow> m = n"
  by (metis number_decimal)

lemma decimal_not_minus: "decimal n \<noteq> CHR ''-'' # s"
proof
  assume "decimal n = CHR ''-'' # s"
  moreover have "hd (decimal k) \<noteq> CHR ''-''" for k
  proof (induction k rule: decimal.induct)
    case (1 k)
    have "digit d \<noteq> CHR ''-''" if "d < 10" for d
    proof -
      from that have "d \<in> {0, 1, 2, 3, 4, 5, 6, 7, 8, 9}" by auto
      then show ?thesis by (auto simp: digit_def char_of_def)
    qed
    moreover have "decimal (k div 10) \<noteq> []" by (subst decimal.simps) simp
    ultimately show ?case using 1 by (subst decimal.simps) simp
  qed
  ultimately show False by (metis list.sel(1))
qed

lemma Itoa_eq_iff [simp]: "Itoa i = Itoa j \<longleftrightarrow> i = j"
  using decimal_not_minus by (auto simp: Itoa_def dest: sym)

end
