(* ===== verification/Http.thy ===== *)
theory Http
  imports Go_Strings
begin

text \<open>
  Answers to HTTP requests, as the handlers of the HLS and the HTTP-FLV server produce them with
  Go's \<open>net/http\<close>.
\<close>

record HttpResponse =
  r_Status :: int
  r_Header :: "(string \<times> string) list"
  r_Body :: "byte list"

definition byte_of_char :: "char \<Rightarrow> byte" where
  "byte_of_char c = word_of_nat (of_char c)"

definition str_bytes :: "string \<Rightarrow> byte list" where
  "str_bytes s = map byte_of_char s"

text \<open>An answer to which nothing has been written is an empty one with status 200.\<close>

definition http_empty :: HttpResponse where
  "http_empty = \<lparr>r_Status = 200, r_Header = [], r_Body = []\<rparr>"

text \<open>\<open>http.Error\<close>\<close>

definition http_Error :: "string \<Rightarrow> int \<Rightarrow> HttpResponse" where
  "http_Error msg code = \<lparr>r_Status = code,
     r_Header = [(''Content-Type'', ''text/plain; charset=utf-8''), (''X-Content-Type-Options'', ''nosniff'')],
     r_Body = str_bytes (msg @ newline)\<rparr>"

end
