(* ===== verification/Http_Flv_Server.thy ===== *)
theory Http_Flv_Server
  imports Http Flv_Writer Publishers
begin

text \<open>
  The HTTP-FLV server (\<open>src/protocol/httpflv/server.go\<close>): the request for a stream, which registers a
  client, and the request for its start time. The server calls the node through the interface
  \<open>HttpHandler\<close>; it is the record \<open>HttpHandler\<close> of operations on an unknown state, and the locale
  \<open>flv_handler\<close> says what the server relies on.
\<close>

subsection \<open>The interface and its state\<close>

text \<open>
  Beside the three methods of the interface, \<open>hh_new\<close> stands for the allocation of a writer, to
  which the handler gets a pointer.
\<close>

record 's HttpHandler =
  hh_HandleNewFlvWriterRequest :: "string \<Rightarrow> nat \<Rightarrow> 's \<Rightarrow> 's go"
  hh_HandleDelayRequest :: "string \<Rightarrow> 's \<Rightarrow> int"
  hh_HasChannel :: "string \<Rightarrow> 's \<Rightarrow> bool"
  hh_new :: "FLVWriter \<Rightarrow> 's \<Rightarrow> nat \<times> 's"

text \<open>How the handler of a connection ends: with an answer, or waiting on its writer, which streams.\<close>

datatype 's conn_end = Answer HttpResponse 's | Streaming nat 's | Recovered 's

subsection \<open>Handlers\<close>

definition invalid_path :: HttpResponse where
  "invalid_path = http_Error ''invalid path'' 400"

text \<open>
  A panic of the handler is recovered. \<open>c\<close> is the response the writer streams to; \<open>Wait\<close> is called on
  the writer as it was created, whose \<open>closedChan\<close> only \<open>Close\<close> changes.
\<close>

definition handleConn :: "'s HttpHandler \<Rightarrow> string \<Rightarrow> http_response \<Rightarrow> string \<Rightarrow> string \<Rightarrow> 's \<Rightarrow> 's conn_end" where
  "handleConn h uid c full u s =
     (if (case LastIndex u CHR ''.'' of None \<Rightarrow> True | Some pos \<Rightarrow> drop pos u \<noteq> ''.flv'') then Answer invalid_path s
      else
        let path = TrimSuffix (TrimLeft u CHR ''/'') ''.flv''; paths = SplitN path CHR ''/'' 2 in
        if \<not> hh_HasChannel h path s then Answer http_empty s
        else if length paths \<noteq> 2 then Answer invalid_path s
        else case NewFLVWriter uid (paths ! 0) (paths ! 1) full c of
          Ok writer \<Rightarrow>
            (case hh_new h writer s of (r, s) \<Rightarrow>
             case hh_HandleNewFlvWriterRequest h path r s of
               Ok s \<Rightarrow> (case Wait writer of Ok _ \<Rightarrow> Answer http_empty s | Panic e \<Rightarrow> Recovered s | Blocked \<Rightarrow> Streaming r s)
             | Panic e \<Rightarrow> Recovered s
             | Blocked \<Rightarrow> Streaming r s)
        | Panic e \<Rightarrow> Recovered s
        | Blocked \<Rightarrow> Recovered s)"

text \<open>The JSON answer, as a value; \<open>SendJson\<close> sends it with the status it names.\<close>

record TimeResponse =
  tr_Status :: int
  tr_Data :: json

definition TimeResult :: "string \<Rightarrow> int \<Rightarrow> json" where
  "TimeResult path startTime = JObj [(''streamUrl'', JStr path), (''startTime'', JNum (of_int startTime))]"

definition SendJson :: "TimeResponse \<Rightarrow> int \<times> (string \<times> string) list \<times> json" where
  "SendJson r = (tr_Status r, [(''Content-Type'', ''application/json'')],
     JObj [(''status'', JNum (of_int (tr_Status r))), (''data'', tr_Data r)])"

definition handleTime :: "'s HttpHandler \<Rightarrow> string \<Rightarrow> 's \<Rightarrow> int \<times> (string \<times> string) list \<times> json" where
  "handleTime h path s =
     (let startTime = hh_HandleDelayRequest h path s;
          res = \<lparr>tr_Status = 200, tr_Data = JNull\<rparr>
      in SendJson (if startTime = 0 then res\<lparr>tr_Status := 404\<rparr> else res\<lparr>tr_Data := TimeResult path startTime\<rparr>))"

subsection \<open>Serving\<close>

definition PathExists :: "(string \<Rightarrow> string option) \<Rightarrow> string \<Rightarrow> bool" where
  "PathExists stat path = (stat path = None)"

text \<open>
  The certificate settings with which \<open>StartHTTPFlv\<close> serves, and whether \<open>Serve\<close> uses TLS; \<open>stat\<close> is
  the error \<open>os.Stat\<close> returns.
\<close>

definition StartHTTPFlv :: "(string \<Rightarrow> string option) \<Rightarrow> Config \<Rightarrow> Config" where
  "StartHTTPFlv stat cfg =
     (if \<not> PathExists stat (KEY_FILE cfg) \<or> \<not> PathExists stat (CERT_FILE cfg)
      then cfg\<lparr>KEY_FILE := [], CERT_FILE := []\<rparr> else cfg)"

definition Serve_tls :: "string \<Rightarrow> string \<Rightarrow> bool" where
  "Serve_tls certFile keyFile = (\<not> (certFile = [] \<or> keyFile = []))"

subsection \<open>Paths and new writers\<close>

lemma flv_path:
  assumes "a \<noteq> []" "CHR ''/'' \<notin> set a"
  shows "LastIndex (''/'' @ a @ ''/'' @ t @ ''.flv'') CHR ''.'' = Some (length (''/'' @ a @ ''/'' @ t))"
    "drop (length (''/'' @ a @ ''/'' @ t)) (''/'' @ a @ ''/'' @ t @ ''.flv'') = ''.flv''"
    "TrimSuffix (TrimLeft (''/'' @ a @ ''/'' @ t @ ''.flv'') CHR ''/'') ''.flv'' = a @ ''/'' @ t"
    "SplitN (a @ ''/'' @ t) CHR ''/'' 2 = [a, t]"
proof -
  show "LastIndex (''/'' @ a @ ''/'' @ t @ ''.flv'') CHR ''.'' = Some (length (''/'' @ a @ ''/'' @ t))"
    using LastIndex_append [of "CHR ''.''" "''flv''" "''/'' @ a @ ''/'' @ t"] by simp
  show "drop (length (''/'' @ a @ ''/'' @ t)) (''/'' @ a @ ''/'' @ t @ ''.flv'') = ''.flv''"
    by simp
  have "hd (a @ x) \<noteq> CHR ''/''" for x using assms by (metis hd_append2 hd_in_set)
  then have "TrimLeft (a @ ''/'' @ t @ ''.flv'') CHR ''/'' = a @ ''/'' @ t @ ''.flv''"
    by (intro TrimLeft_id) simp
  then show "TrimSuffix (TrimLeft (''/'' @ a @ ''/'' @ t @ ''.flv'') CHR ''/'') ''.flv'' = a @ ''/'' @ t"
    using TrimSuffix_append [of "a @ ''/'' @ t" "''.flv''"] by simp
  show "SplitN (a @ ''/'' @ t) CHR ''/'' 2 = [a, t]"
    using SplitN_2 [OF assms(2), of t] by (simp add: numeral_2_eq_2)
qed

text \<open>A writer that has just been created: it is open, idle, and has sent the file header.\<close>

definition fresh_writer :: "string \<Rightarrow> string \<Rightarrow> string \<Rightarrow> http_response \<Rightarrow> FLVWriter \<Rightarrow> bool" where
  "fresh_writer a t full c w \<longleftrightarrow> app_name w = a \<and> title w = t \<and> url w = full \<and> \<not> Closed w \<and> \<not> Init w
     \<and> packetQueue w = make_chan maxQueueNum \<and> Wait w = Blocked
     \<and> (\<not> hw_broken c \<longrightarrow> hw_out (ctx w) = hw_out c @ flv_file_header @ [0, 0, 0, 0])"

lemma NewFLVWriter_fresh: "\<exists>w. NewFLVWriter uid a t full c = Ok w \<and> fresh_writer a t full c w"
  by (simp add: NewFLVWriter_def sl_to_def sl_slice_def make_bytes_def of_bytes_def headerLen_def PutI32BE_def
      hw_write_def bytes_def fresh_writer_def Wait_def chan_recv_def make_chan_def numeral_eq_Suc)

subsection \<open>What the server relies on\<close>

text \<open>
  A key that \<open>HasChannel\<close> accepts can be registered for: the client joins the clients of that key,
  those of other streams stay as they are. \<open>inv\<close> is the invariant of the node and \<open>clients\<close> the
  writers registered for a key.
\<close>

locale flv_handler =
  fixes h :: "'s HttpHandler" and inv :: "'s \<Rightarrow> bool" and clients :: "'s \<Rightarrow> string \<Rightarrow> nat list"
    and writer :: "'s \<Rightarrow> nat \<Rightarrow> FLVWriter"
  assumes new_inv: "inv s \<Longrightarrow> hh_new h w s = (r, s') \<Longrightarrow>
      inv s' \<and> hh_HasChannel h key s' = hh_HasChannel h key s \<and> clients s' = clients s \<and> writer s' = (writer s)(r := w)"
    and register: "inv s \<Longrightarrow> hh_HasChannel h key s \<Longrightarrow>
      \<exists>s'. hh_HandleNewFlvWriterRequest h key r s = Ok s' \<and> inv s' \<and> writer s' = writer s
        \<and> clients s' key = clients s key @ [r]"
begin

lemma connect:
  assumes "inv s" "hh_HasChannel h key s"
  obtains w r s' s'' where "NewFLVWriter uid a t full c = Ok w" "fresh_writer a t full c w" "hh_new h w s = (r, s')"
    "hh_HandleNewFlvWriterRequest h key r s' = Ok s''" "inv s''" "writer s'' r = w"
    "clients s'' key = clients s key @ [r]"
proof -
  obtain w where w: "NewFLVWriter uid a t full c = Ok w" "fresh_writer a t full c w"
    using NewFLVWriter_fresh by blast
  obtain r s' where n: "hh_new h w s = (r, s')" by force
  from new_inv [OF assms(1) n] assms(2) obtain s'' where "hh_HandleNewFlvWriterRequest h key r s' = Ok s''"
      "inv s''" "writer s'' = writer s'" "clients s'' key = clients s' key @ [r]"
    using register [of s' key r] by metis
  with w n new_inv [OF assms(1) n] show thesis using that by auto
qed

text \<open>Whatever the request, its handler does not panic and keeps the invariant of the node.\<close>

lemma handleConn_safe:
  assumes "inv s"
  shows "\<exists>s'. inv s' \<and> (handleConn h uid c full u s = Answer invalid_path s'
    \<or> handleConn h uid c full u s = Answer http_empty s' \<or> (\<exists>r. handleConn h uid c full u s = Streaming r s'))"
proof -
  let ?path = "TrimSuffix (TrimLeft u CHR ''/'') ''.flv''"
  let ?paths = "SplitN ?path CHR ''/'' 2"
  show ?thesis
  proof (cases "hh_HasChannel h ?path s")
    case True
    obtain w r s' s'' where "NewFLVWriter uid (?paths ! 0) (?paths ! 1) full c = Ok w"
        "fresh_writer (?paths ! 0) (?paths ! 1) full c w" "hh_new h w s = (r, s')"
        "hh_HandleNewFlvWriterRequest h ?path r s' = Ok s''" "inv s''"
      using connect [OF assms True] by metis
    then show ?thesis
      using assms by (auto simp: handleConn_def Let_def fresh_writer_def split: option.split)
  next
    case False
    with assms show ?thesis by (auto simp: handleConn_def Let_def split: option.split)
  qed
qed

text \<open>A request for a stream of the node.\<close>

lemma handleConn_stream:
  assumes "inv s" "hh_HasChannel h (a @ ''/'' @ t) s" "a \<noteq> []" "CHR ''/'' \<notin> set a"
  shows "\<exists>r s'. handleConn h uid c full (''/'' @ a @ ''/'' @ t @ ''.flv'') s = Streaming r s' \<and> inv s'
    \<and> clients s' (a @ ''/'' @ t) = clients s (a @ ''/'' @ t) @ [r] \<and> fresh_writer a t full c (writer s' r)"
proof -
  obtain w r s' s'' where w: "NewFLVWriter uid a t full c = Ok w" "fresh_writer a t full c w" "hh_new h w s = (r, s')"
      "hh_HandleNewFlvWriterRequest h (a @ ''/'' @ t) r s' = Ok s''" "inv s''" "writer s'' r = w"
      "clients s'' (a @ ''/'' @ t) = clients s (a @ ''/'' @ t) @ [r]"
    using connect [OF assms(1,2)] by metis
  from flv_path [OF assms(3,4), of t] w assms(2) show ?thesis
    by (auto simp: handleConn_def Let_def fresh_writer_def)
qed

end

end
