(* ===== verification/Hls_Cache.thy ===== *)
theory Hls_Cache
  imports Go_Strings
begin

text \<open>
  The cache of transport stream segments of an HLS source (\<open>src/protocol/hls/cache.go\<close>,
  \<open>item.go\<close>): the last three segments by name, and the playlist that lists them.
\<close>

subsection \<open>Segments and the cache\<close>

record TSItem =
  ts_Name :: string
  ts_SeqNum :: int
  ts_Duration :: int
  ts_Data :: "byte list"

definition NewTSItem :: "string \<Rightarrow> int \<Rightarrow> int \<Rightarrow> byte list \<Rightarrow> TSItem" where
  "NewTSItem name dur seqNum b = \<lparr>ts_Name = name, ts_SeqNum = seqNum, ts_Duration = dur, ts_Data = b\<rparr>"

definition maxTSCacheNum :: int where "maxTSCacheNum = 3"

record TSCacheItem =
  tc_id :: string
  tc_num :: int
  tc_ll :: "string list"
  tc_lm :: "string \<rightharpoonup> TSItem"

definition NewTSCacheItem :: "string \<Rightarrow> TSCacheItem" where
  "NewTSCacheItem key = \<lparr>tc_id = key, tc_num = maxTSCacheNum, tc_ll = [], tc_lm = Map.empty\<rparr>"

definition TSCacheItem_ID :: "TSCacheItem \<Rightarrow> string" where
  "TSCacheItem_ID c = tc_id c"

text \<open>A full list is not empty, as \<open>num\<close> is three from the creation of the cache on.\<close>

definition SetItem :: "TSCacheItem \<Rightarrow> string \<Rightarrow> TSItem \<Rightarrow> TSCacheItem" where
  "SetItem c key item =
     (let c = (if int (length (tc_ll c)) = tc_num c then
                 (case tc_ll c of
                    [] \<Rightarrow> c
                  | k # ks \<Rightarrow> c\<lparr>tc_ll := ks, tc_lm := (tc_lm c)(k := None)\<rparr>)
               else c)
      in c\<lparr>tc_lm := (tc_lm c)(key \<mapsto> item), tc_ll := tc_ll c @ [key]\<rparr>)"

definition ErrNoKey :: string where "ErrNoKey = ''No key for cache''"

definition GetItem :: "TSCacheItem \<Rightarrow> string \<Rightarrow> string + TSItem" where
  "GetItem c key = (case tc_lm c key of None \<Rightarrow> Inl ErrNoKey | Some item \<Rightarrow> Inr item)"

subsection \<open>The playlist\<close>

definition extinf :: "TSItem \<Rightarrow> string" where
  "extinf v = ''#EXTINF:'' @ millis (ts_Duration v) @ '','' @ newline @ ts_Name v @ newline"

text \<open>The loop over the list: the state is \<open>seq\<close>, \<open>getSeq\<close>, \<open>maxDuration\<close> and the body.\<close>

fun playlist_loop :: "(string \<rightharpoonup> TSItem) \<Rightarrow> string list \<Rightarrow> int \<times> bool \<times> int \<times> string
    \<Rightarrow> int \<times> bool \<times> int \<times> string" where
  "playlist_loop lm [] st = st"
| "playlist_loop lm (key # ks) (seq, getSeq, maxDuration, body) =
     (case lm key of
        None \<Rightarrow> playlist_loop lm ks (seq, getSeq, maxDuration, body)
      | Some v \<Rightarrow> playlist_loop lm ks
          (if getSeq then seq else ts_SeqNum v, True,
           if ts_Duration v > maxDuration then ts_Duration v else maxDuration, body @ extinf v))"

text \<open>Go's integer division truncates towards zero; \<open>maxDuration\<close> is never negative.\<close>

definition playlist_head :: "int \<Rightarrow> int \<Rightarrow> string" where
  "playlist_head target seq =
     ''#EXTM3U'' @ newline @ ''#EXT-X-VERSION:3'' @ newline @ ''#EXT-X-ALLOW-CACHE:NO'' @ newline
     @ ''#EXT-X-TARGETDURATION:'' @ Itoa target @ newline
     @ ''#EXT-X-MEDIA-SEQUENCE:'' @ Itoa seq @ newline @ newline"

definition GenM3U8PlayList :: "TSCacheItem \<Rightarrow> string" where
  "GenM3U8PlayList c =
     (case playlist_loop (tc_lm c) (tc_ll c) (0, False, 0, []) of
        (seq, _, maxDuration, body) \<Rightarrow> playlist_head (maxDuration div 1000 + 1) seq @ body)"

subsection \<open>The cache as a window of segments\<close>

definition ts_ok :: "TSCacheItem \<Rightarrow> bool" where
  "ts_ok c \<longleftrightarrow> tc_num c = maxTSCacheNum \<and> length (tc_ll c) \<le> 3 \<and> distinct (tc_ll c)
     \<and> dom (tc_lm c) = set (tc_ll c)"

definition segments :: "TSCacheItem \<Rightarrow> TSItem list" where
  "segments c = map (\<lambda>k. the (tc_lm c k)) (tc_ll c)"

lemma ts_ok_New [simp]: "ts_ok (NewTSCacheItem key)"
  by (simp add: ts_ok_def NewTSCacheItem_def)

lemma segments_New [simp]: "segments (NewTSCacheItem key) = []"
  by (simp add: segments_def NewTSCacheItem_def)

fun set_items :: "TSCacheItem \<Rightarrow> (string \<times> TSItem) list \<Rightarrow> TSCacheItem" where
  "set_items c [] = c"
| "set_items c ((k, it) # xs) = set_items (SetItem c k it) xs"

definition last3 :: "'a list \<Rightarrow> 'a list" where
  "last3 xs = drop (length xs - 3) xs"

lemma last3_step:
  "last3 (xs @ [x]) = (if length (last3 xs) = 3 then tl (last3 xs) else last3 xs) @ [x]"
proof (cases "3 \<le> length xs")
  case True
  then have "length xs - 2 = Suc (length xs - 3)" by simp
  with True show ?thesis by (simp add: last3_def drop_Suc tl_drop)
next
  case False
  then show ?thesis by (auto simp: last3_def)
qed

lemma length_last3: "length (last3 xs) = min 3 (length xs)"
  by (simp add: last3_def)

lemma set_items_append: "set_items c (xs @ ys) = set_items (set_items c xs) ys"
  by (induction c xs rule: set_items.induct) simp_all

text \<open>
  The list of names is always that of the last three. A name is found only under the latest segment
  that has it; the segments just before decide whether it is found, since the removal of an older
  entry of the list also removes a newer segment with the same name.
\<close>

lemma set_items_list:
  "tc_num (set_items (NewTSCacheItem key) xs) = maxTSCacheNum
    \<and> tc_ll (set_items (NewTSCacheItem key) xs) = last3 (map fst xs)"
proof (induction xs rule: rev_induct)
  case Nil
  then show ?case by (simp add: NewTSCacheItem_def last3_def)
next
  case (snoc x xs)
  obtain k it where x: "x = (k, it)" by (cases x)
  let ?l = "last3 (map fst xs)"
  have "length ?l = 3 \<or> length ?l < 3" by (auto simp: length_last3)
  then show ?case
    using snoc last3_step [of "map fst xs" k]
    by (auto simp: x set_items_append SetItem_def maxTSCacheNum_def Let_def split: list.split)
qed

lemma SetItem_lookup:
  "tc_lm (SetItem c k it) = (if int (length (tc_ll c)) = tc_num c \<and> tc_ll c \<noteq> []
     then (tc_lm c)(hd (tc_ll c) := None) else tc_lm c)(k \<mapsto> it)"
  by (auto simp: SetItem_def Let_def split: list.split)

lemma SetItem_full:
  "tc_num (SetItem c k it) = tc_num c"
  "tc_ll (SetItem c k it) = (if int (length (tc_ll c)) = tc_num c then tl (tc_ll c) else tc_ll c) @ [k]"
  by (auto simp: SetItem_def Let_def split: list.split)

lemma found_latest:
  "tc_lm (set_items (NewTSCacheItem key) xs) k = Some it \<Longrightarrow> map_of (rev (last3 xs)) k = Some it"
proof (induction xs rule: rev_induct)
  case Nil
  then show ?case by (simp add: NewTSCacheItem_def)
next
  case (snoc x xs)
  let ?c = "set_items (NewTSCacheItem key) xs"
  obtain n v where x: "x = (n, v)" by (cases x)
  have c: "tc_num ?c = 3" "tc_ll ?c = map fst (last3 xs)"
    using set_items_list [of key xs] by (simp_all add: maxTSCacheNum_def last3_def drop_map)
  show ?case
  proof (cases "k = n")
    case True
    with snoc.prems show ?thesis by (simp add: x set_items_append SetItem_lookup last3_step)
  next
    case False
    show ?thesis
    proof (cases "length (last3 xs) = 3")
      case full: True
      then obtain y ys where y: "last3 xs = y # ys" by (cases "last3 xs") auto
      with snoc.prems False full have "k \<noteq> fst y" "tc_lm ?c k = Some it"
        by (simp_all add: x set_items_append SetItem_lookup c split: if_splits)
      with snoc.IH have "map_of (rev ys) k = Some it" by (simp add: y map_add_def split: option.splits if_splits)
      with full False show ?thesis by (simp add: x last3_step y)
    next
      case part: False
      have "tc_lm ?c k = Some it" using snoc.prems False part by (simp add: x set_items_append SetItem_lookup c)
      with snoc.IH part False show ?thesis by (simp add: x last3_step)
    qed
  qed
qed

text \<open>A segment stays as long as only entries with other names leave the list.\<close>

lemma found_survives:
  assumes "tc_num c = 3" "length (tc_ll c) \<le> 3" "tc_ll c = us @ ws" "k \<notin> set us" "tc_lm c k = Some it"
    and "length zs + length (tc_ll c) \<le> 3 + length us" "k \<notin> fst ` set zs"
  shows "tc_lm (set_items c zs) k = Some it"
  using assms
proof (induction zs arbitrary: c us ws)
  case (Cons z zs)
  obtain n v where z: "z = (n, v)" by (cases z)
  show ?case
  proof (cases "length (tc_ll c) = 3")
    case True
    with Cons.prems(3,6) obtain u us' where u: "us = u # us'" by (cases us) auto
    have "tc_lm (set_items (SetItem c n v) zs) k = Some it"
      by (rule Cons.IH [of _ us' "ws @ [n]"]) (use Cons.prems True u z in \<open>auto simp: SetItem_full SetItem_lookup\<close>)
    then show ?thesis by (simp add: z)
  next
    case False
    have "tc_lm (set_items (SetItem c n v) zs) k = Some it"
      by (rule Cons.IH [of _ us "ws @ [n]"]) (use Cons.prems False z in \<open>auto simp: SetItem_full SetItem_lookup\<close>)
    then show ?thesis by (simp add: z)
  qed
qed simp

definition last5 :: "'a list \<Rightarrow> 'a list" where
  "last5 xs = drop (length xs - 5) xs"

lemma last5_map: "last5 (map f xs) = map f (last5 xs)"
  by (simp add: last5_def drop_map)

lemma last3_map: "last3 (map f xs) = map f (last3 xs)"
  by (simp add: last3_def drop_map)

lemma last3_last5: "last3 (last5 xs) = last3 xs"
proof -
  have "length xs - (length xs - 5) - 3 + (length xs - 5) = length xs - 3 \<or> length xs \<le> 3" by linarith
  then show ?thesis by (auto simp: last3_def last5_def)
qed

lemma distinct_last3: "distinct (map f (last5 xs)) \<Longrightarrow> distinct (map f (last3 xs))"
proof -
  assume "distinct (map f (last5 xs))"
  then have "distinct (last3 (map f (last5 xs)))" unfolding last3_def by (rule distinct_drop)
  then show ?thesis by (simp only: last3_map last3_last5)
qed

lemma found_last3:
  assumes "distinct (map fst (last5 xs))" "(k, it) \<in> set (last3 xs)"
  shows "tc_lm (set_items (NewTSCacheItem key) xs) k = Some it"
proof -
  obtain as zs where l: "last3 xs = as @ (k, it) # zs" using assms(2) by (meson split_list)
  define ys where "ys = take (length xs - 3) xs @ as"
  have xs: "xs = ys @ (k, it) # zs"
    using append_take_drop_id [of "length xs - 3" xs, symmetric] by (simp add: ys_def l [unfolded last3_def])
  have zs: "length zs \<le> 2" using arg_cong [OF l, of length] by (simp add: length_last3)
  let ?c = "SetItem (set_items (NewTSCacheItem key) ys) k it"
  let ?us = "map fst (drop (length ys - 2) ys)"
  have "last3 (map fst (ys @ [(k, it)])) = ?us @ [k]" by (simp add: last3_def drop_map)
  then have c: "tc_num ?c = 3" "tc_ll ?c = ?us @ [k]"
    using set_items_list [of key "ys @ [(k, it)]"] by (simp_all add: set_items_append maxTSCacheNum_def)
  have "last5 xs = drop (length xs - 5) (take (length ys - 2) ys) @ drop (length ys - 2) ys @ (k, it) # zs"
  proof -
    have "xs = take (length ys - 2) ys @ drop (length ys - 2) ys @ (k, it) # zs" by (simp add: xs)
    moreover have "length xs - 5 - length (take (length ys - 2) ys) = 0" using zs by (simp add: xs)
    ultimately show ?thesis unfolding last5_def by (metis drop_append drop0)
  qed
  with assms(1) have d: "k \<notin> set ?us" "k \<notin> fst ` set zs" by auto
  have "tc_lm (set_items ?c zs) k = Some it"
    by (rule found_survives [OF c(1) _ c(2) d(1)]) (use c(2) d(2) zs in \<open>auto simp: SetItem_lookup\<close>)
  then show ?thesis by (simp add: xs set_items_append)
qed

lemma set_items_spec:
  assumes "distinct (map fst (last5 xs))"
  shows "ts_ok (set_items (NewTSCacheItem key) xs)
    \<and> tc_ll (set_items (NewTSCacheItem key) xs) = last3 (map fst xs)
    \<and> segments (set_items (NewTSCacheItem key) xs) = last3 (map snd xs)
    \<and> tc_lm (set_items (NewTSCacheItem key) xs) = map_of (last3 xs)"
proof -
  let ?c = "set_items (NewTSCacheItem key) xs"
  have d: "distinct (map fst (last3 xs))" by (rule distinct_last3 [OF assms])
  have lm: "tc_lm ?c = map_of (last3 xs)"
  proof
    fix k
    show "tc_lm ?c k = map_of (last3 xs) k"
    proof (cases "map_of (last3 xs) k")
      case None
      then have "map_of (rev (last3 xs)) k = None" by (simp add: map_of_eq_None_iff)
      with None found_latest [of key xs k] show ?thesis by (cases "tc_lm ?c k") auto
    next
      case (Some it)
      with found_last3 [OF assms map_of_SomeD] show ?thesis by simp
    qed
  qed
  have ll: "tc_ll ?c = map fst (last3 xs)" "tc_num ?c = maxTSCacheNum"
    using set_items_list [of key xs] by (simp_all add: last3_def drop_map)
  have "map (\<lambda>k. the (map_of (last3 xs) k)) (map fst (last3 xs)) = map snd (last3 xs)"
    using d by (auto simp: map_of_is_SomeI)
  then have "segments ?c = map snd (last3 xs)" by (simp add: segments_def ll lm)
  moreover have "ts_ok ?c" using d by (simp add: ts_ok_def ll lm dom_map_of_conv_image_fst length_last3)
  ultimately show ?thesis by (simp add: ll(1) lm) (simp add: last3_def drop_map)
qed

lemma foldl_max: "foldl max (m :: int) xs = Max (insert m (set xs))"
proof (induction xs arbitrary: m)
  case (Cons x xs)
  have "insert m (set (x # xs)) = insert x (insert m (set xs))" by auto
  moreover have "insert (max m x) (set xs) = set xs \<union> {max m x}" by simp
  ultimately show ?case
    using Cons.IH [of "max m x"] by (cases "xs = []") (simp_all add: max.assoc max.left_commute max.commute)
qed simp

lemma playlist_loop_spec:
  assumes "\<forall>k \<in> set ks. lm k \<noteq> None"
  shows "playlist_loop lm ks (seq, g, m, body) =
    (if g \<or> ks = [] then seq else ts_SeqNum (the (lm (hd ks))), g \<or> ks \<noteq> [],
     foldl max m (map (\<lambda>k. ts_Duration (the (lm k))) ks), body @ concat (map (\<lambda>k. extinf (the (lm k))) ks))"
  using assms
proof (induction ks arbitrary: seq g m body)
  case (Cons k ks)
  then obtain v where "lm k = Some v" by auto
  with Cons show ?case by (auto simp: max_def)
qed simp

text \<open>The playlist of given segments, as the specification of \<open>GenM3U8PlayList\<close>.\<close>

definition playlist_text :: "TSItem list \<Rightarrow> string" where
  "playlist_text its = playlist_head (Max (insert 0 (ts_Duration ` set its)) div 1000 + 1)
     (if its = [] then 0 else ts_SeqNum (hd its)) @ concat (map extinf its)"

lemma GenM3U8PlayList_ok:
  assumes "ts_ok c"
  shows "GenM3U8PlayList c = playlist_text (segments c)"
proof -
  have "\<forall>k \<in> set (tc_ll c). tc_lm c k \<noteq> None"
    using assms by (auto simp: ts_ok_def)
  moreover have "playlist_text (segments c) = playlist_head (foldl max 0 (map ts_Duration (segments c)) div 1000 + 1)
      (if segments c = [] then 0 else ts_SeqNum (hd (segments c))) @ concat (map extinf (segments c))"
    by (simp add: playlist_text_def foldl_max)
  ultimately show ?thesis
    using playlist_loop_spec [of "tc_ll c" "tc_lm c" 0 False 0 "[]"]
    by (cases "tc_ll c") (auto simp: GenM3U8PlayList_def segments_def comp_def)
qed

subsection \<open>Properties\<close>

text \<open>
  C25: The segment cache is a window on the last three segments. After any sequence of segments, a
  name that is found at all is one of the last three names, and what is found is the latest segment
  that has it. If no two of the last five segments share a name, a name is found exactly if it is
  among the last three, any other is reported as an error, and the playlist lists these three in order,
  with the sequence number of the first as media sequence and the longest of their durations, in
  whole seconds, plus one as target duration.
\<close>

theorem segment_window:
  fixes key name :: string and xs :: "(string \<times> TSItem) list"
  defines "c \<equiv> set_items (NewTSCacheItem key) xs"
    and "its \<equiv> map snd (last3 xs)"
  shows "(\<forall>it. GetItem c name = Inr it \<longrightarrow> map_of (rev (last3 xs)) name = Some it)
    \<and> (distinct (map fst (last5 xs)) \<longrightarrow>
         GetItem c name = (case map_of (last3 xs) name of None \<Rightarrow> Inl ErrNoKey | Some it \<Rightarrow> Inr it)
       \<and> GenM3U8PlayList c = playlist_head (Max (insert 0 (ts_Duration ` set its)) div 1000 + 1)
           (if its = [] then 0 else ts_SeqNum (hd its)) @ concat (map extinf its))"
proof (intro conjI allI impI)
  fix it
  show "GetItem c name = Inr it \<Longrightarrow> map_of (rev (last3 xs)) name = Some it"
    using found_latest [of key xs name it] by (auto simp: GetItem_def c_def split: option.splits)
next
  assume d: "distinct (map fst (last5 xs))"
  have c: "ts_ok c" "segments c = its" "tc_lm c = map_of (last3 xs)"
    using set_items_spec [OF d, of key] by (simp_all add: c_def its_def last3_map)
  show "GetItem c name = (case map_of (last3 xs) name of None \<Rightarrow> Inl ErrNoKey | Some it \<Rightarrow> Inr it)"
    by (simp add: GetItem_def c(3))
  show "GenM3U8PlayList c = playlist_head (Max (insert 0 (ts_Duration ` set its)) div 1000 + 1)
       (if its = [] then 0 else ts_SeqNum (hd its)) @ concat (map extinf its)"
    using GenM3U8PlayList_ok [OF c(1)] by (simp add: c(2) playlist_text_def)
qed

definition demo_segment :: "nat \<Rightarrow> string \<times> TSItem" where
  "demo_segment i = (decimal i, NewTSItem (decimal i) 3000 (int i) [1, 2])"

theorem segment_window_witness:
  "GetItem (set_items (NewTSCacheItem ''live/a'') (map demo_segment [1, 2, 3, 4])) (decimal 1) = Inl ErrNoKey
   \<and> GetItem (set_items (NewTSCacheItem ''live/a'') (map demo_segment [1, 2, 3, 4])) (decimal 4)
     = Inr (NewTSItem (decimal 4) 3000 4 [1, 2])
   \<and> GenM3U8PlayList (set_items (NewTSCacheItem ''live/a'') (map demo_segment [1, 2, 3, 4]))
     = playlist_head 4 2 @ concat (map (extinf \<circ> snd \<circ> demo_segment) [2, 3, 4])"
  using segment_window [of "''live/a''" "map demo_segment [1, 2, 3, 4]" "decimal 1"]
    segment_window [of "''live/a''" "map demo_segment [1, 2, 3, 4]" "decimal 4"]
  by (simp add: demo_segment_def last3_def last5_def NewTSItem_def)

end
