(* ===== verification/Hls_Segmenter.thy ===== *)
theory Hls_Segmenter
  imports Hls_Source Hls_Cache Flv_Tag "HOL-Library.Signed_Division"
begin

text \<open>
  The segmenter of an HLS source (\<open>src/protocol/hls/source.go\<close>, \<open>align.go\<close>, \<open>audio_cache.go\<close>, \<open>status.go\<close>):
  definitions. Its goroutine takes packets from the channel, smooths the time stamps of audio,
  groups audio frames, multiplexes into a transport stream and cuts a segment at a key frame
  once the running one is three seconds long. The demuxer, the codec parser and the transport
  stream multiplexer are those of the package \<open>livego\<close> and parameters of the model.
\<close>

subsection \<open>Computations whose state survives a panic\<close>

text \<open>
  A deferred \<open>recover\<close> ends a function after a panic and leaves the state as the panic found it, so
  the operations on a source return their state beside the outcome.
\<close>

type_synonym ('s, 'a) act = "'s \<Rightarrow> 's \<times> 'a go"

definition bind_act :: "('s, 'a) act \<Rightarrow> ('a \<Rightarrow> ('s, 'b) act) \<Rightarrow> ('s, 'b) act" where
  "bind_act m f s = (case m s of (s', r) \<Rightarrow>
     (case r of Ok a \<Rightarrow> f a s' | Panic e \<Rightarrow> (s', Panic e) | Blocked \<Rightarrow> (s', Blocked)))"

definition ret_act :: "'a \<Rightarrow> ('s, 'a) act" where
  "ret_act a s = (s, Ok a)"

definition upd_act :: "('s \<Rightarrow> 's) \<Rightarrow> ('s, unit) act" where
  "upd_act f s = (f s, Ok ())"

subsection \<open>Alignment of audio time stamps\<close>

definition syncms :: u64 where "syncms = 2"
definition h264_default_hz :: u64 where "h264_default_hz = 90"

record align_state =
  frameNum :: u64
  frameBase :: u64

definition align :: "align_state \<Rightarrow> u64 \<Rightarrow> u32 \<Rightarrow> align_state \<times> u64" where
  "align a dts inc =
     (let aFrameDts = dts;
          estPts = frameBase a + frameNum a * ucast inc;
          dPts = (if estPts \<ge> aFrameDts then estPts - aFrameDts else aFrameDts - estPts)
      in if dPts \<le> syncms * h264_default_hz then (a\<lparr>frameNum := frameNum a + 1\<rparr>, estPts)
         else (a\<lparr>frameNum := 1, frameBase := aFrameDts\<rparr>, dts))"

subsection \<open>The audio cache\<close>

definition cache_max_frames :: byte where "cache_max_frames = 6"
definition audio_cache_len :: nat where "audio_cache_len = 10 * 1024"

record audioCache =
  ac_soundFormat :: byte
  ac_num :: byte
  ac_offset :: int
  ac_pts :: u64
  ac_buf :: "byte list"

definition newAudioCache :: audioCache where
  "newAudioCache = \<lparr>ac_soundFormat = 0, ac_num = 0, ac_offset = 0, ac_pts = 0,
     ac_buf = replicate audio_cache_len 0\<rparr>"

definition Cache :: "audioCache \<Rightarrow> byte list \<Rightarrow> u64 \<Rightarrow> audioCache \<times> bool" where
  "Cache a src pts =
     (let a = (if ac_num a = 0 then a\<lparr>ac_offset := 0, ac_pts := pts, ac_buf := []\<rparr> else a)
      in (a\<lparr>ac_buf := ac_buf a @ src, ac_offset := ac_offset a + int (length src),
            ac_num := ac_num a + 1\<rparr>, False))"

definition GetFrame :: "audioCache \<Rightarrow> audioCache \<times> int \<times> u64 \<times> byte list" where
  "GetFrame a = (a\<lparr>ac_num := 0\<rparr>, ac_offset a, ac_pts a, ac_buf a)"

definition CacheNum :: "audioCache \<Rightarrow> byte" where
  "CacheNum a = ac_num a"

subsection \<open>Segment status\<close>

text \<open>The two points in time are readings of the clock; nothing reads them.\<close>

record status =
  st_hasVideo :: bool
  st_seqId :: int
  st_createdAt :: int
  st_segBeginAt :: int
  st_hasSetFirstTs :: bool
  st_firstTimestamp :: int
  st_lastTimestamp :: int

definition newStatus :: "int \<Rightarrow> status" where
  "newStatus now = \<lparr>st_hasVideo = False, st_seqId = 0, st_createdAt = 0, st_segBeginAt = now,
     st_hasSetFirstTs = False, st_firstTimestamp = 0, st_lastTimestamp = 0\<rparr>"

definition update :: "bool \<Rightarrow> u32 \<Rightarrow> status \<Rightarrow> status" where
  "update isVideo timestamp t =
     (let t = (if isVideo then t\<lparr>st_hasVideo := True\<rparr> else t);
          t = (if \<not> st_hasSetFirstTs t
               then t\<lparr>st_hasSetFirstTs := True, st_firstTimestamp := int (unat timestamp)\<rparr> else t)
      in t\<lparr>st_lastTimestamp := int (unat timestamp)\<rparr>)"

definition resetAndNew :: "int \<Rightarrow> status \<Rightarrow> status" where
  "resetAndNew now t = t\<lparr>st_seqId := st_seqId t + 1, st_hasVideo := False, st_createdAt := now,
     st_hasSetFirstTs := False\<rparr>"

definition durationMs :: "status \<Rightarrow> int" where
  "durationMs t = st_lastTimestamp t - st_firstTimestamp t"

subsection \<open>The source\<close>

text \<open>
  The objects of \<open>livego\<close> that a source owns, with one state for the three of them. \<open>Demux\<close> fills in
  the header and the data of a packet, \<open>Parse\<close> and \<open>Mux\<close> write to the buffer they are given, \<open>PAT\<close> and
  \<open>PMT\<close> return a table.
\<close>

record 'x livego =
  lg_new :: 'x
  lg_Demux :: "'x \<Rightarrow> av_Packet \<Rightarrow> ('x \<times> av_Header option \<times> slice \<times> string option) go"
  lg_ErrAvcEndSEQ :: string
  lg_Parse :: "'x \<Rightarrow> av_Packet \<Rightarrow> ('x \<times> byte list \<times> string option) go"
  lg_SampleRate :: "'x \<Rightarrow> int \<times> string option"
  lg_PAT :: "'x \<Rightarrow> 'x \<times> byte list"
  lg_PMT :: "'x \<Rightarrow> byte \<Rightarrow> bool \<Rightarrow> 'x \<times> byte list"
  lg_Mux :: "'x \<Rightarrow> av_Packet \<Rightarrow> ('x \<times> byte list \<times> string option) go"

text \<open>\<open>hs_running\<close> says whether the goroutine that \<open>NewSource\<close> starts is still running.\<close>

record 'x HlsSource = Source +
  hs_seq :: int
  hs_bwriter :: "byte list option"
  hs_btswriter :: "byte list option"
  hs_lib :: 'x
  hs_pts :: u64
  hs_dts :: u64
  hs_stat :: status
  hs_align :: align_state
  hs_cache :: "audioCache option"
  hs_tsCache :: "TSCacheItem option"
  hs_running :: bool

definition videoHZ :: int where "videoHZ = 90000"
definition aacSampleLen :: int where "aacSampleLen = 1024"
definition hls_duration :: int where "hls_duration = 3000"
definition ErrNoSupportVideoCodec :: string where "ErrNoSupportVideoCodec = ''no support video codec''"
definition ErrNoSupportAudioCodec :: string where "ErrNoSupportAudioCodec = ''no support audio codec''"
definition bwriter_len :: nat where "bwriter_len = 100 * 1024"

definition NewSource :: "'x livego \<Rightarrow> int \<Rightarrow> string \<Rightarrow> 'x HlsSource" where
  "NewSource lg now key =
     \<lparr>src_Key = key, src_closed = False, src_packetQueue = make_chan hls_maxQueueNum,
      hs_seq = 0, hs_bwriter = Some (replicate bwriter_len 0), hs_btswriter = None, hs_lib = lg_new lg,
      hs_pts = 0, hs_dts = 0, hs_stat = newStatus now, hs_align = \<lparr>frameNum = 0, frameBase = 0\<rparr>,
      hs_cache = Some newAudioCache, hs_tsCache = Some (NewTSCacheItem key), hs_running = True\<rparr>"

definition GetCacheInc :: "'x HlsSource \<Rightarrow> TSCacheItem option" where
  "GetCacheInc s = hs_tsCache s"

text \<open>\<open>DropPacket\<close>: the body of the loop, and the loop over \<open>maxQueueNum - 84\<close> rounds.\<close>

definition drop_round :: "av_Packet chan \<Rightarrow> av_Packet chan go" where
  "drop_round c =
     andthen (chan_recv c) (\<lambda>(tmpPkt, c). case tmpPkt of
       None \<Rightarrow> Ok c
     | Some p \<Rightarrow>
       andthen (if av_IsAudio p then
                  (if length (ch_buf c) > hls_maxQueueNum - 2 then andthen (chan_recv c) (\<lambda>(_, c). Ok c)
                   else chan_send c p)
                else Ok c) (\<lambda>c.
       if av_IsVideo p then
         andthen (case av_Header p of
                    Some videoPkt \<Rightarrow> if hd_IsSeq videoPkt \<or> hd_IsKeyFrame videoPkt then chan_send c p else Ok c
                  | None \<Rightarrow> Ok c) (\<lambda>c.
         if length (ch_buf c) > hls_maxQueueNum - 10 then andthen (chan_recv c) (\<lambda>(_, c). Ok c) else Ok c)
       else Ok c))"

fun drop_rounds :: "nat \<Rightarrow> av_Packet chan \<Rightarrow> av_Packet chan go" where
  "drop_rounds 0 c = Ok c"
| "drop_rounds (Suc n) c = andthen (drop_round c) (drop_rounds n)"

definition Source_DropPacket :: "av_Packet chan \<Rightarrow> av_Packet chan go" where
  "Source_DropPacket = drop_rounds (hls_maxQueueNum - 84)"

subsection \<open>Output\<close>

text \<open>
  Output to a buffer behind a pointer: a write through \<open>nil\<close> panics. A library call that writes
  nothing does not touch the buffer.
\<close>

definition buf_write :: "byte list option \<Rightarrow> byte list \<Rightarrow> byte list option go" where
  "buf_write b out = (case b of
     Some bs \<Rightarrow> Ok (Some (bs @ out))
   | None \<Rightarrow> if out = [] then Ok None else Panic NilDeref)"

definition Mux :: "'x livego \<Rightarrow> av_Packet \<Rightarrow> ('x HlsSource, string option) act" where
  "Mux lg p s = (case lg_Mux lg (hs_lib s) p of
     Ok (x, out, err) \<Rightarrow>
       (case buf_write (hs_btswriter s) out of
          Ok b \<Rightarrow> (s\<lparr>hs_lib := x, hs_btswriter := b\<rparr>, Ok err)
        | Panic e \<Rightarrow> (s, Panic e)
        | Blocked \<Rightarrow> (s, Blocked))
   | Panic e \<Rightarrow> (s, Panic e)
   | Blocked \<Rightarrow> (s, Blocked))"

definition Parse_into_bwriter :: "'x livego \<Rightarrow> av_Packet \<Rightarrow> ('x HlsSource, string option) act" where
  "Parse_into_bwriter lg p s = (case lg_Parse lg (hs_lib s) p of
     Ok (x, out, err) \<Rightarrow>
       (case buf_write (hs_bwriter s) out of
          Ok b \<Rightarrow> (s\<lparr>hs_lib := x, hs_bwriter := b\<rparr>, Ok err)
        | Panic e \<Rightarrow> (s, Panic e)
        | Blocked \<Rightarrow> (s, Blocked))
   | Panic e \<Rightarrow> (s, Panic e)
   | Blocked \<Rightarrow> (s, Blocked))"

definition audio_Packet :: "u32 \<Rightarrow> byte list \<Rightarrow> av_Packet" where
  "audio_Packet ts buf = \<lparr>av_IsAudio = False, av_IsVideo = False, av_IsMetadata = False,
     av_TimeStamp = ts, av_Header = None, av_Data = of_bytes buf\<rparr>"

definition muxAudio :: "'x livego \<Rightarrow> byte \<Rightarrow> ('x HlsSource, string option) act" where
  "muxAudio lg limit s = (case hs_cache s of
     None \<Rightarrow> (s, Panic NilDeref)
   | Some a \<Rightarrow>
     if CacheNum a < limit then (s, Ok None)
     else (case GetFrame a of (a, _, pts, buf) \<Rightarrow>
       Mux lg (audio_Packet (ucast (pts div h264_default_hz)) buf) (s\<lparr>hs_cache := Some a\<rparr>)))"

definition flushAudio :: "'x livego \<Rightarrow> ('x HlsSource, string option) act" where
  "flushAudio lg = muxAudio lg 1"

definition tsMux :: "'x livego \<Rightarrow> av_Packet \<Rightarrow> ('x HlsSource, string option) act" where
  "tsMux lg p s =
     (if av_IsVideo p then Mux lg p s
      else case hs_cache s of
        None \<Rightarrow> (s, Panic NilDeref)
      | Some a \<Rightarrow> muxAudio lg cache_max_frames
          (s\<lparr>hs_cache := Some (fst (Cache a (bytes (av_Data p)) (hs_pts s)))\<rparr>))"

definition calcPtsDts :: "'x livego \<Rightarrow> bool \<Rightarrow> u32 \<Rightarrow> u32 \<Rightarrow> ('x HlsSource, unit) act" where
  "calcPtsDts lg isVideo ts compositionTs s =
     (let s = s\<lparr>hs_dts := ucast ts * h264_default_hz\<rparr> in
      if isVideo then (s\<lparr>hs_pts := hs_dts s + ucast compositionTs * h264_default_hz\<rparr>, Ok ())
      else let sampleRate = fst (lg_SampleRate lg (hs_lib s)) in
        if sampleRate = 0 then (s, Panic DivideByZero)
        else case align (hs_align s) (hs_dts s) (word_of_int (videoHZ * aacSampleLen sdiv sampleRate)) of
          (a, dts) \<Rightarrow> (s\<lparr>hs_align := a, hs_dts := dts, hs_pts := dts\<rparr>, Ok ()))"

subsection \<open>Cutting and parsing\<close>

definition ts_filename :: "string \<Rightarrow> int \<Rightarrow> string" where
  "ts_filename key now = ''/'' @ key @ ''/'' @ Itoa now @ ''.ts''"

text \<open>The end of a segment: \<open>now\<close> is the clock in seconds.\<close>

definition finish_segment :: "int \<Rightarrow> ('x HlsSource, unit) act" where
  "finish_segment now s =
     (let s = s\<lparr>hs_seq := hs_seq s + 1\<rparr>;
          filename = ts_filename (src_Key s) now
      in case hs_btswriter s of
           None \<Rightarrow> (s, Panic NilDeref)
         | Some b \<Rightarrow>
           let item = NewTSItem filename (durationMs (hs_stat s)) (hs_seq s) b in
           case hs_tsCache s of
             None \<Rightarrow> (s, Panic NilDeref)
           | Some c \<Rightarrow> (s\<lparr>hs_tsCache := Some (SetItem c filename item), hs_btswriter := Some [],
                           hs_stat := resetAndNew now (hs_stat s)\<rparr>, Ok ()))"

definition write_tables :: "'x livego \<Rightarrow> ('x HlsSource, unit) act" where
  "write_tables lg s =
     (case lg_PAT lg (hs_lib s) of (x, pat) \<Rightarrow>
      case lg_PMT lg x SOUND_AAC True of (x', pmt) \<Rightarrow>
      case buf_write (hs_btswriter s) (pat @ pmt) of
        Ok b \<Rightarrow> (s\<lparr>hs_lib := x', hs_btswriter := b\<rparr>, Ok ())
      | Panic e \<Rightarrow> (s, Panic e)
      | Blocked \<Rightarrow> (s, Blocked))"

definition cut :: "'x livego \<Rightarrow> int \<Rightarrow> ('x HlsSource, unit) act" where
  "cut lg now s =
     (if hs_btswriter s = None then write_tables lg (s\<lparr>hs_btswriter := Some []\<rparr>)
      else if durationMs (hs_stat s) \<ge> hls_duration then
        bind_act (flushAudio lg) (\<lambda>_. bind_act (finish_segment now) (\<lambda>_. write_tables lg)) s
      else (s, Ok ()))"

text \<open>\<open>parse\<close> returns, beside its results, the packet whose data it has replaced.\<close>

definition parse_frame :: "'x livego \<Rightarrow> int \<Rightarrow> av_Packet \<Rightarrow> u32 \<Rightarrow> bool
    \<Rightarrow> ('x HlsSource, u32 \<times> bool \<times> string option \<times> av_Packet) act" where
  "parse_frame lg now p compTime keyFrame s =
     (if hs_bwriter s = None then (s, Panic NilDeref)
      else bind_act (Parse_into_bwriter lg p) (\<lambda>err. case err of
             Some e \<Rightarrow> ret_act (compTime, False, Some e, p)
           | None \<Rightarrow> (\<lambda>s.
               let p = p\<lparr>av_Data := of_bytes (case hs_bwriter s of Some b \<Rightarrow> b | None \<Rightarrow> [])\<rparr> in
               bind_act (if keyFrame then cut lg now else ret_act ())
                 (\<lambda>_. ret_act (compTime, False, None, p)) s))
             (s\<lparr>hs_bwriter := Some []\<rparr>))"

definition parse :: "'x livego \<Rightarrow> int \<Rightarrow> av_Packet
    \<Rightarrow> ('x HlsSource, u32 \<times> bool \<times> string option \<times> av_Packet) act" where
  "parse lg now p s = (case av_Header p of
     None \<Rightarrow> (s, Panic TypeAssertion)
   | Some hdr \<Rightarrow>
     if av_IsVideo p then
       (if hd_CodecID hdr \<noteq> VIDEO_H264 then (s, Ok (0, False, Some ErrNoSupportVideoCodec, p))
        else if hd_IsKeyFrame hdr \<and> hd_IsSeq hdr then
          bind_act (Parse_into_bwriter lg p) (\<lambda>err. ret_act (hd_CompositionTime hdr, True, err, p)) s
        else parse_frame lg now p (hd_CompositionTime hdr) (hd_IsKeyFrame hdr) s)
     else
       (if hd_SoundFormat hdr \<noteq> SOUND_AAC then (s, Ok (0, False, Some ErrNoSupportAudioCodec, p))
        else if hd_AACPacketType hdr = AAC_SEQHDR then
          bind_act (Parse_into_bwriter lg p) (\<lambda>err. ret_act (0, True, err, p)) s
        else parse_frame lg now p 0 False s))"

subsection \<open>The goroutine\<close>

text \<open>
  One round of the loop of \<open>SendPacket\<close>: \<open>None\<close> goes on, \<open>Some e\<close> returns the error \<open>e\<close>.
\<close>

definition send_frame :: "'x livego \<Rightarrow> int \<Rightarrow> av_Packet \<Rightarrow> ('x HlsSource, string option) act" where
  "send_frame lg now p =
     bind_act (parse lg now p) (\<lambda>(compTime, isSeq, err, p) s.
       if err \<noteq> None \<or> isSeq then (s, Ok None)
       else if hs_btswriter s \<noteq> None then
         bind_act (upd_act (\<lambda>s. s\<lparr>hs_stat := update (av_IsVideo p) (av_TimeStamp p) (hs_stat s)\<rparr>)) (\<lambda>_.
         bind_act (calcPtsDts lg (av_IsVideo p) (av_TimeStamp p) compTime) (\<lambda>_.
         bind_act (tsMux lg p) (\<lambda>_. ret_act None))) s
       else (s, Ok None))"

definition Source_SendPacket_round :: "'x livego \<Rightarrow> int \<Rightarrow> ('x HlsSource, string option) act" where
  "Source_SendPacket_round lg now s =
     (if src_closed s then (s, Ok (Some ''closed''))
      else case chan_recv (src_packetQueue s) of
        Ok (Some p, c) \<Rightarrow>
          (let s = s\<lparr>src_packetQueue := c\<rparr> in
           if av_IsMetadata p then (s, Ok None)
           else case lg_Demux lg (hs_lib s) p of
             Ok (x, hdr, dat, err) \<Rightarrow>
               (let s = s\<lparr>hs_lib := x\<rparr> in
                if err = Some (lg_ErrAvcEndSEQ lg) then (s, Ok None)
                else if err \<noteq> None then (s, Ok err)
                else send_frame lg now (p\<lparr>av_Header := hdr, av_Data := dat\<rparr>) s)
           | Panic e \<Rightarrow> (s, Panic e)
           | Blocked \<Rightarrow> (s, Blocked))
      | Ok (None, c) \<Rightarrow> (s, Ok (Some ''closed''))
      | Panic e \<Rightarrow> (s, Panic e)
      | Blocked \<Rightarrow> (s, Blocked))"

text \<open>
  The goroutine of \<open>NewSource\<close>: an error closes the source; after a panic, which \<open>SendPacket\<close>
  recovers, the error is \<open>nil\<close>, and the goroutine ends without closing it.
\<close>

definition source_goroutine :: "'x livego \<Rightarrow> int \<Rightarrow> 'x HlsSource \<Rightarrow> 'x HlsSource go" where
  "source_goroutine lg now s =
     (if \<not> hs_running s then Blocked
      else case Source_SendPacket_round lg now s of
        (s, Ok None) \<Rightarrow> Ok s
      | (s, Ok (Some e)) \<Rightarrow> Ok (s\<lparr>src_closed := True, hs_running := False\<rparr>)
      | (s, Panic e) \<Rightarrow> Ok (s\<lparr>hs_running := False\<rparr>)
      | (s, Blocked) \<Rightarrow> Blocked)"

definition cleanup :: "'x HlsSource \<Rightarrow> 'x HlsSource go" where
  "cleanup s =
     andthen (chan_close (src_packetQueue s)) (\<lambda>c.
       Ok (s\<lparr>src_packetQueue := c, hs_bwriter := None, hs_btswriter := None, hs_cache := None,
             hs_tsCache := None\<rparr>))"

definition Source_Close :: "'x HlsSource \<Rightarrow> 'x HlsSource go" where
  "Source_Close s =
     andthen (if \<not> src_closed s then cleanup s else Ok s) (\<lambda>s. Ok (s\<lparr>src_closed := True\<rparr>))"

subsection \<open>A library in memory\<close>

text \<open>
  A stand-in for the \<open>livego\<close> objects, for examples: a multiplexed packet is a marker byte and the
  data, the state counts the packets written, and an audio packet without a header is an error.
\<close>

definition demo_lg :: "nat livego" where
  "demo_lg = \<lparr>lg_new = 0, lg_Demux = (\<lambda>x p. Ok (x, av_Header p, av_Data p, if av_IsAudio p \<and> av_Header p = None then Some ''no header'' else None)),
     lg_ErrAvcEndSEQ = ''avc end sequence'', lg_Parse = (\<lambda>x p. Ok (x, bytes (av_Data p), None)),
     lg_SampleRate = (\<lambda>x. (44100, None)), lg_PAT = (\<lambda>x. (x + 1, [71, 0])),
     lg_PMT = (\<lambda>x f v. (x + 1, [71, 16])), lg_Mux = (\<lambda>x p. Ok (x + 1, 71 # bytes (av_Data p), None))\<rparr>"

end
