(* ===== verification/Hls_Segments.thy ===== *)
theory Hls_Segments
  imports Hls_Segmenter
begin

text \<open>
  The life of an HLS source as a step relation, and what holds of the segments it has cut: their
  numbers, names, lengths and contents. A round of the goroutine either lets the running segment
  grow (\<open>grows\<close>) or ends it (\<open>cuts\<close>); the effect of every operation is described in these terms.
\<close>

subsection \<open>Effects of the operations\<close>

definition running :: "'x HlsSource \<Rightarrow> byte list" where
  "running s = (case hs_btswriter s of None \<Rightarrow> [] | Some b \<Rightarrow> b)"

definition tables :: "'x livego \<Rightarrow> 'x \<Rightarrow> byte list" where
  "tables lg x = (case lg_PAT lg x of (x', pat) \<Rightarrow> pat @ snd (lg_PMT lg x' SOUND_AAC True))"

definition decodable :: "'x livego \<Rightarrow> byte list \<Rightarrow> bool" where
  "decodable lg b \<longleftrightarrow> (\<exists>x. prefix (tables lg x) b)"

definition opened :: "'x livego \<Rightarrow> 'x HlsSource \<Rightarrow> bool" where
  "opened lg s \<longleftrightarrow> (\<forall>b. hs_btswriter s = Some b \<longrightarrow> decodable lg b)"

definition grows :: "'x livego \<Rightarrow> 'x HlsSource \<Rightarrow> 'x HlsSource \<Rightarrow> bool" where
  "grows lg s s' \<longleftrightarrow> src_Key s' = src_Key s \<and> src_closed s' = src_closed s \<and> hs_seq s' = hs_seq s
     \<and> hs_tsCache s' = hs_tsCache s \<and> prefix (running s) (running s') \<and> (opened lg s \<longrightarrow> opened lg s')
     \<and> (hs_btswriter s \<noteq> None \<longrightarrow> hs_btswriter s' \<noteq> None)"

lemma decodable_append: "decodable lg b \<Longrightarrow> decodable lg (b @ out)"
  unfolding decodable_def by (metis prefix_prefix)

lemma grows_refl [simp]: "grows lg s s"
  by (simp add: grows_def)

lemma grows_trans: "grows lg s s' \<Longrightarrow> grows lg s' s'' \<Longrightarrow> grows lg s s''"
  by (auto simp: grows_def intro: prefix_order.trans)

text \<open>Updates of the fields that do not matter here.\<close>

lemma grows_upd [simp]:
  "grows lg s (s\<lparr>src_packetQueue := c\<rparr>)" "grows lg s (s\<lparr>hs_lib := x\<rparr>)" "grows lg s (s\<lparr>hs_bwriter := b\<rparr>)"
  "grows lg s (s\<lparr>hs_stat := st\<rparr>)" "grows lg s (s\<lparr>hs_cache := a\<rparr>)" "grows lg s (s\<lparr>hs_running := r\<rparr>)"
  "grows lg s (s\<lparr>hs_dts := d\<rparr>)" "grows lg s (s\<lparr>hs_pts := p, hs_dts := d\<rparr>)"
  "grows lg s (s\<lparr>hs_dts := d, hs_pts := p\<rparr>)"
  "grows lg s (s\<lparr>hs_align := al, hs_dts := d, hs_pts := p\<rparr>)"
  "grows lg s (s\<lparr>hs_lib := x, hs_bwriter := b\<rparr>)"
  by (simp_all add: grows_def running_def opened_def)

definition keeps :: "'x livego \<Rightarrow> ('x HlsSource, 'a) act \<Rightarrow> bool" where
  "keeps lg m \<longleftrightarrow> (\<forall>s. grows lg s (fst (m s)))"

lemma fst_bind_act:
  "fst (bind_act m f s) = (case snd (m s) of Ok a \<Rightarrow> fst (f a (fst (m s))) | _ \<Rightarrow> fst (m s))"
  by (simp add: bind_act_def split: prod.splits go.splits)

lemma keeps_bind:
  assumes "keeps lg m" "\<And>a. keeps lg (f a)"
  shows "keeps lg (bind_act m f)"
  using assms by (auto simp: keeps_def fst_bind_act intro: grows_trans split: go.splits)

lemma keeps_ret [simp]: "keeps lg (ret_act a)"
  by (simp add: keeps_def ret_act_def)

lemma grows_write:
  assumes "buf_write (hs_btswriter s) out = Ok b"
  shows "grows lg s (s\<lparr>hs_lib := x, hs_btswriter := b\<rparr>)"
  using assms
  by (auto simp: buf_write_def grows_def running_def opened_def decodable_append split: option.splits if_splits)

lemma keeps_Mux: "keeps lg (Mux lg p)"
  by (auto simp: keeps_def Mux_def grows_write split: go.splits)

lemma keeps_Parse: "keeps lg (Parse_into_bwriter lg p)"
  by (auto simp: keeps_def Parse_into_bwriter_def split: go.splits)

lemma keeps_muxAudio: "keeps lg (muxAudio lg n)"
  unfolding keeps_def muxAudio_def
  by (auto split: option.splits prod.splits simp: keeps_Mux [unfolded keeps_def]
      intro: grows_trans [OF _ keeps_Mux [unfolded keeps_def, rule_format]])

lemma keeps_tsMux: "keeps lg (tsMux lg p)"
  unfolding keeps_def tsMux_def
  by (auto split: option.splits simp: keeps_Mux [unfolded keeps_def]
      intro: grows_trans [OF _ keeps_muxAudio [unfolded keeps_def, rule_format]])

lemma keeps_calcPtsDts: "keeps lg (calcPtsDts lg v ts c)"
  by (auto simp: keeps_def calcPtsDts_def Let_def split: prod.splits)

lemmas keeps_ops = keeps_Mux keeps_Parse keeps_muxAudio keeps_tsMux keeps_calcPtsDts

subsection \<open>Cutting\<close>

definition cuts :: "'x livego \<Rightarrow> int \<Rightarrow> 'x HlsSource \<Rightarrow> 'x HlsSource \<Rightarrow> bool" where
  "cuts lg now s s' \<longleftrightarrow> (\<exists>c it. hs_tsCache s = Some c \<and> ts_Name it = ts_filename (src_Key s) now
     \<and> ts_SeqNum it = hs_seq s + 1 \<and> ts_Duration it \<ge> hls_duration \<and> prefix (running s) (ts_Data it)
     \<and> (opened lg s \<longrightarrow> decodable lg (ts_Data it)) \<and> hs_tsCache s' = Some (SetItem c (ts_Name it) it)
     \<and> hs_seq s' = hs_seq s + 1 \<and> src_Key s' = src_Key s \<and> src_closed s' = src_closed s \<and> opened lg s')"

lemma cuts_grows: "cuts lg now s s1 \<Longrightarrow> grows lg s1 s' \<Longrightarrow> cuts lg now s s'"
  unfolding cuts_def grows_def by metis

lemma grows_cuts: "grows lg s s1 \<Longrightarrow> cuts lg now s1 s' \<Longrightarrow> cuts lg now s s'"
  unfolding cuts_def grows_def by (metis prefix_order.trans)

definition effect :: "'x livego \<Rightarrow> int \<Rightarrow> ('x HlsSource, 'a) act \<Rightarrow> bool" where
  "effect lg now m \<longleftrightarrow> (\<forall>s. hs_tsCache s \<noteq> None \<longrightarrow> grows lg s (fst (m s)) \<or> cuts lg now s (fst (m s)))"

lemma keeps_effect: "keeps lg m \<Longrightarrow> effect lg now m"
  by (simp add: keeps_def effect_def)

lemma effect_bind1:
  assumes "keeps lg m" "\<And>a. effect lg now (f a)"
  shows "effect lg now (bind_act m f)"
  unfolding effect_def
proof (intro allI impI)
  fix s :: "'a HlsSource"
  assume c: "hs_tsCache s \<noteq> None"
  have g: "grows lg s (fst (m s))" using assms(1) by (simp add: keeps_def)
  then have "hs_tsCache (fst (m s)) \<noteq> None" using c by (simp add: grows_def)
  then have "grows lg (fst (m s)) (fst (f a (fst (m s)))) \<or> cuts lg now (fst (m s)) (fst (f a (fst (m s))))" for a
    using assms(2) [of a] by (simp add: effect_def)
  then show "grows lg s (fst (bind_act m f s)) \<or> cuts lg now s (fst (bind_act m f s))"
    using g by (auto simp: fst_bind_act split: go.splits intro: grows_trans grows_cuts)
qed

lemma effect_bind2:
  assumes "effect lg now m" "\<And>a. keeps lg (f a)"
  shows "effect lg now (bind_act m f)"
  unfolding effect_def
proof (intro allI impI)
  fix s :: "'a HlsSource"
  assume c: "hs_tsCache s \<noteq> None"
  have "grows lg s (fst (m s)) \<or> cuts lg now s (fst (m s))" using assms(1) c by (simp add: effect_def)
  moreover have "grows lg (fst (m s)) (fst (f a (fst (m s))))" for a
    using assms(2) [of a] by (simp add: keeps_def)
  ultimately show "grows lg s (fst (bind_act m f s)) \<or> cuts lg now s (fst (bind_act m f s))"
    by (auto simp: fst_bind_act split: go.splits intro: grows_trans cuts_grows)
qed

lemma effect_pre: "(\<And>s. grows lg s (g s)) \<Longrightarrow> effect lg now m \<Longrightarrow> effect lg now (\<lambda>s. m (g s))"
  unfolding effect_def by (metis grows_cuts grows_def grows_trans)

lemma effect_dep: "(\<And>a. effect lg now (m a)) \<Longrightarrow> effect lg now (\<lambda>s. m (h s) s)"
  by (simp add: effect_def)

lemma effect_if: "effect lg now m \<Longrightarrow> effect lg now m' \<Longrightarrow> effect lg now (\<lambda>s. if P s then m s else m' s)"
  by (simp add: effect_def)

lemma effect_const [simp]: "effect lg now (\<lambda>s. (s, r))"
  by (simp add: effect_def)

lemma write_tables_eq:
  assumes "hs_btswriter s = Some b"
  obtains x where "write_tables lg s = (s\<lparr>hs_lib := x, hs_btswriter := Some (b @ tables lg (hs_lib s))\<rparr>, Ok ())"
proof -
  obtain x pat x' pmt where "lg_PAT lg (hs_lib s) = (x, pat)" "lg_PMT lg x SOUND_AAC True = (x', pmt)"
    by force
  then show thesis using that [of x'] assms by (simp add: write_tables_def tables_def buf_write_def)
qed

lemma decodable_tables: "decodable lg (tables lg x)"
  by (auto simp: decodable_def)

lemma muxAudio_stat: "hs_stat (fst (muxAudio lg n s)) = hs_stat s"
  by (auto simp: muxAudio_def Mux_def GetFrame_def split: option.splits go.splits)

lemma cuts_finish:
  assumes "hs_tsCache s \<noteq> None" "hs_btswriter s \<noteq> None" "durationMs (hs_stat s) \<ge> hls_duration"
  shows "cuts lg now s (fst (bind_act (finish_segment now) (\<lambda>_. write_tables lg) s))"
proof -
  obtain c b where cb: "hs_tsCache s = Some c" "hs_btswriter s = Some b" using assms by auto
  let ?fn = "ts_filename (src_Key s) now"
  let ?it = "NewTSItem ?fn (durationMs (hs_stat s)) (hs_seq s + 1) b"
  let ?s = "s\<lparr>hs_seq := hs_seq s + 1, hs_tsCache := Some (SetItem c ?fn ?it), hs_btswriter := Some [],
    hs_stat := resetAndNew now (hs_stat s)\<rparr>"
  have "finish_segment now s = (?s, Ok ())" using cb by (simp add: finish_segment_def Let_def)
  moreover obtain x where "write_tables lg ?s = (?s\<lparr>hs_lib := x, hs_btswriter := Some (tables lg (hs_lib s))\<rparr>, Ok ())"
    using write_tables_eq [of ?s "[]" lg] by auto
  ultimately have e: "fst (bind_act (finish_segment now) (\<lambda>_. write_tables lg) s)
      = ?s\<lparr>hs_lib := x, hs_btswriter := Some (tables lg (hs_lib s))\<rparr>"
    by (simp add: bind_act_def)
  show ?thesis
    unfolding e cuts_def
    by (rule exI [of _ c], rule exI [of _ ?it])
      (use cb assms(3) in \<open>simp add: NewTSItem_def running_def opened_def decodable_tables resetAndNew_def\<close>)
qed

lemma effect_cut: "effect lg now (cut lg now)"
  unfolding effect_def
proof (intro allI impI)
  fix s :: "'a HlsSource"
  assume c: "hs_tsCache s \<noteq> None"
  show "grows lg s (fst (cut lg now s)) \<or> cuts lg now s (fst (cut lg now s))"
  proof (cases "hs_btswriter s")
    case None
    obtain x where "write_tables lg (s\<lparr>hs_btswriter := Some []\<rparr>)
        = (s\<lparr>hs_lib := x, hs_btswriter := Some (tables lg (hs_lib s))\<rparr>, Ok ())"
      using write_tables_eq [of "s\<lparr>hs_btswriter := Some []\<rparr>" "[]" lg] by auto
    with None show ?thesis
      by (simp add: cut_def grows_def running_def opened_def decodable_tables)
  next
    case (Some b)
    let ?s = "fst (flushAudio lg s)"
    have g: "grows lg s ?s" using keeps_muxAudio by (auto simp: flushAudio_def keeps_def)
    have "cuts lg now ?s (fst (bind_act (finish_segment now) (\<lambda>_. write_tables lg) ?s))"
      if "durationMs (hs_stat s) \<ge> hls_duration"
      using cuts_finish [of ?s] g c Some that by (simp add: grows_def flushAudio_def muxAudio_stat)
    with g Some show ?thesis
      by (auto simp: cut_def fst_bind_act [of "flushAudio lg"] intro: grows_cuts split: go.splits)
  qed
qed

lemma effect_parse_frame: "effect lg now (parse_frame lg now p ct k)"
proof -
  let ?rest = "\<lambda>err. case err of
      Some e \<Rightarrow> ret_act (ct, False, Some e, p)
    | None \<Rightarrow> (\<lambda>s. bind_act (if k then cut lg now else ret_act ())
        (\<lambda>_. ret_act (ct, False, None, p\<lparr>av_Data := of_bytes (case hs_bwriter s of Some b \<Rightarrow> b | None \<Rightarrow> [])\<rparr>)) s)"
  have "effect lg now (bind_act (if k then cut lg now else ret_act ()) (\<lambda>_. ret_act (ct, False, None, q)))" for q
    by (rule effect_bind2) (simp_all add: effect_cut keeps_effect)
  then have "effect lg now (?rest None)"
    unfolding option.case by (rule effect_dep)
  then have "effect lg now (?rest err)" for err
    by (cases err) (simp_all add: keeps_effect)
  then have "effect lg now (bind_act (Parse_into_bwriter lg p) ?rest)"
    by (rule effect_bind1 [OF keeps_Parse])
  then have "effect lg now (\<lambda>s. bind_act (Parse_into_bwriter lg p) ?rest (s\<lparr>hs_bwriter := Some []\<rparr>))"
    by (rule effect_pre [rotated]) simp
  then show ?thesis
    unfolding parse_frame_def Let_def by (rule effect_if [OF effect_const])
qed

lemma effect_parse: "effect lg now (parse lg now p)"
proof -
  have seq: "effect lg now (bind_act (Parse_into_bwriter lg p) (\<lambda>err. ret_act (f err)))" for f :: "_ \<Rightarrow> 'b"
    by (intro keeps_effect keeps_bind keeps_Parse keeps_ret)
  show ?thesis
    unfolding parse_def by (cases "av_Header p") (auto simp: effect_if effect_parse_frame seq)
qed

lemma effect_send_frame: "effect lg now (send_frame lg now p)"
  unfolding send_frame_def
proof (rule effect_bind2 [OF effect_parse])
  fix r :: "u32 \<times> bool \<times> string option \<times> av_Packet"
  obtain ct isSeq err p where r: "r = (ct, isSeq, err, p)" by (cases r)
  have u: "keeps lg (upd_act (\<lambda>s. s\<lparr>hs_stat := update v ts (hs_stat s)\<rparr>))" for v ts
    by (simp add: keeps_def upd_act_def update_def Let_def)
  have "keeps lg (bind_act (upd_act (\<lambda>s. s\<lparr>hs_stat := update (av_IsVideo p) (av_TimeStamp p) (hs_stat s)\<rparr>)) (\<lambda>_.
         bind_act (calcPtsDts lg (av_IsVideo p) (av_TimeStamp p) ct) (\<lambda>_.
         bind_act (tsMux lg p) (\<lambda>_. ret_act (None :: string option)))))"
    by (intro keeps_bind u keeps_ops keeps_ret)
  then show "keeps lg (case r of (ct, isSeq, err, p) \<Rightarrow> \<lambda>s.
       if err \<noteq> None \<or> isSeq then (s, Ok (None :: string option))
       else if hs_btswriter s \<noteq> None then
         bind_act (upd_act (\<lambda>s. s\<lparr>hs_stat := update (av_IsVideo p) (av_TimeStamp p) (hs_stat s)\<rparr>)) (\<lambda>_.
         bind_act (calcPtsDts lg (av_IsVideo p) (av_TimeStamp p) ct) (\<lambda>_.
         bind_act (tsMux lg p) (\<lambda>_. ret_act None))) s
       else (s, Ok None))"
    by (simp add: r keeps_def)
qed

lemma effect_round: "effect lg now (Source_SendPacket_round lg now)"
  unfolding effect_def
proof (intro allI impI)
  fix s :: "'a HlsSource"
  assume c: "hs_tsCache s \<noteq> None"
  have frame: "grows lg s (fst (send_frame lg now p s')) \<or> cuts lg now s (fst (send_frame lg now p s'))"
    if "grows lg s s'" for p s'
    using effect_send_frame [of lg now p] that c unfolding effect_def
    by (metis grows_cuts grows_def grows_trans)
  have "grows lg s (s\<lparr>src_packetQueue := q, hs_lib := x\<rparr>)" for q x
    by (simp add: grows_def running_def opened_def)
  then show "grows lg s (fst (Source_SendPacket_round lg now s)) \<or> cuts lg now s (fst (Source_SendPacket_round lg now s))"
    by (auto simp: Source_SendPacket_round_def Let_def frame split: go.splits prod.splits option.splits)
qed

lemma goroutine_effect:
  assumes "source_goroutine lg now s = Ok s'" "hs_tsCache s \<noteq> None"
  obtains s0 where "grows lg s s0 \<or> cuts lg now s s0" "src_closed s \<longrightarrow> s0 = s"
    "s' = s0 \<or> s' = s0\<lparr>src_closed := True, hs_running := False\<rparr> \<or> s' = s0\<lparr>hs_running := False\<rparr>"
proof
  let ?s0 = "fst (Source_SendPacket_round lg now s)"
  show "grows lg s ?s0 \<or> cuts lg now s ?s0" using effect_round [of lg now] assms(2) by (simp add: effect_def)
  show "src_closed s \<longrightarrow> ?s0 = s" by (simp add: Source_SendPacket_round_def)
  show "s' = ?s0 \<or> s' = ?s0\<lparr>src_closed := True, hs_running := False\<rparr> \<or> s' = ?s0\<lparr>hs_running := False\<rparr>"
    using assms(1)
    by (cases "Source_SendPacket_round lg now s")
      (auto simp: source_goroutine_def split: if_splits go.splits option.splits)
qed

lemma goroutine_closed:
  "source_goroutine lg now s = Ok s' \<Longrightarrow> src_closed s \<Longrightarrow> s' = s\<lparr>src_closed := True, hs_running := False\<rparr>"
  by (auto simp: source_goroutine_def Source_SendPacket_round_def split: if_splits)

subsection \<open>The life of a source\<close>

text \<open>
  A source is created, written to by the stream's goroutine, drained by its own, and closed. The
  relation keeps the list of all segments cut so far and the seconds of the clock at which they were
  cut, about which nothing is assumed: two may be the same.
\<close>

inductive source_run :: "'x livego \<Rightarrow> string \<Rightarrow> TSItem list \<Rightarrow> int list \<Rightarrow> 'x HlsSource \<Rightarrow> bool"
  for lg :: "'x livego" and key :: string where
  run_new: "source_run lg key [] [] (NewSource lg now key)"
| run_write: "source_run lg key its ts s \<Longrightarrow> Source_Write s p = Ok (s', e) \<Longrightarrow> source_run lg key its ts s'"
| run_send: "source_run lg key its ts s \<Longrightarrow> source_goroutine lg now s = Ok s' \<Longrightarrow> hs_seq s' = hs_seq s
    \<Longrightarrow> source_run lg key its ts s'"
| run_cut: "source_run lg key its ts s \<Longrightarrow> source_goroutine lg now s = Ok s' \<Longrightarrow> hs_seq s' \<noteq> hs_seq s
    \<Longrightarrow> hs_tsCache s' = Some c \<Longrightarrow> GetItem c (ts_filename key now) = Inr it
    \<Longrightarrow> source_run lg key (its @ [it]) (ts @ [now]) s'"
| run_close: "source_run lg key its ts s \<Longrightarrow> Source_Close s = Ok s' \<Longrightarrow> source_run lg key its ts s'"

abbreviation named :: "TSItem list \<Rightarrow> (string \<times> TSItem) list" where
  "named its \<equiv> map (\<lambda>it. (ts_Name it, it)) its"

definition history :: "'x livego \<Rightarrow> string \<Rightarrow> TSItem list \<Rightarrow> int list \<Rightarrow> bool" where
  "history lg key its ts \<longleftrightarrow> map ts_Name its = map (ts_filename key) ts
     \<and> map ts_SeqNum its = map int [1..<Suc (length its)]
     \<and> (\<forall>it \<in> set its. ts_Duration it \<ge> hls_duration \<and> decodable lg (ts_Data it))"

definition seg_inv :: "'x livego \<Rightarrow> string \<Rightarrow> TSItem list \<Rightarrow> int list \<Rightarrow> 'x HlsSource \<Rightarrow> bool" where
  "seg_inv lg key its ts s \<longleftrightarrow> src_Key s = key \<and> hs_seq s = int (length its) \<and> history lg key its ts
     \<and> opened lg s \<and> (case hs_tsCache s of None \<Rightarrow> src_closed s
                       | Some c \<Rightarrow> c = set_items (NewTSCacheItem key) (named its))"

lemma ts_filename_inj [simp]: "ts_filename key a = ts_filename key b \<longleftrightarrow> a = b"
  by (simp add: ts_filename_def)

lemma history_names: "history lg key its ts \<Longrightarrow> distinct ts \<longleftrightarrow> distinct (map ts_Name its)"
  by (simp add: history_def distinct_map inj_on_def)

lemma history_snoc:
  assumes "history lg key its ts" "ts_Name it = ts_filename key now"
    "ts_SeqNum it = int (length its) + 1" "ts_Duration it \<ge> hls_duration" "decodable lg (ts_Data it)"
  shows "history lg key (its @ [it]) (ts @ [now])"
  using assms by (auto simp: history_def)

lemma SetItem_named: "SetItem (set_items c (named its)) (ts_Name it) it = set_items c (named (its @ [it]))"
  by (simp add: set_items_append)

lemma GetItem_SetItem: "GetItem (SetItem c k it) k = Inr it"
  by (simp add: GetItem_def SetItem_def Let_def)

lemma seg_inv_cuts:
  assumes "seg_inv lg key its ts s" "cuts lg now s s'"
  shows "\<exists>it c. hs_tsCache s' = Some c \<and> GetItem c (ts_filename key now) = Inr it
    \<and> seg_inv lg key (its @ [it]) (ts @ [now]) s' \<and> prefix (running s) (ts_Data it)"
proof -
  obtain c it where c: "hs_tsCache s = Some c" and it: "ts_Name it = ts_filename (src_Key s) now"
      "ts_SeqNum it = hs_seq s + 1" "ts_Duration it \<ge> hls_duration" "prefix (running s) (ts_Data it)"
      "opened lg s \<longrightarrow> decodable lg (ts_Data it)" "hs_tsCache s' = Some (SetItem c (ts_Name it) it)"
      "hs_seq s' = hs_seq s + 1" "src_Key s' = src_Key s" "opened lg s'"
    using assms(2) unfolding cuts_def by blast
  have "c = set_items (NewTSCacheItem key) (named its)" "src_Key s = key" "hs_seq s = int (length its)"
      "history lg key its ts" "opened lg s"
    using assms(1) c by (simp_all add: seg_inv_def)
  with it have "seg_inv lg key (its @ [it]) (ts @ [now]) s'"
    by (simp add: seg_inv_def history_snoc set_items_append)
  with it \<open>src_Key s = key\<close> show ?thesis by (auto simp: GetItem_SetItem)
qed

lemma seg_inv_grows: "seg_inv lg key its ts s \<Longrightarrow> grows lg s s' \<Longrightarrow> seg_inv lg key its ts s'"
  by (simp add: seg_inv_def grows_def split: option.splits)

lemma seg_inv_end:
  "seg_inv lg key its ts s \<Longrightarrow> seg_inv lg key its ts (s\<lparr>src_closed := True, hs_running := r\<rparr>)"
  "seg_inv lg key its ts s \<Longrightarrow> seg_inv lg key its ts (s\<lparr>hs_running := r\<rparr>)"
  by (auto simp: seg_inv_def opened_def split: option.splits)

lemma seg_inv_open: "seg_inv lg key its ts s \<Longrightarrow> \<not> src_closed s \<Longrightarrow> hs_tsCache s \<noteq> None"
  by (auto simp: seg_inv_def split: option.splits)

lemma Write_grows: "Source_Write s p = Ok (s', e) \<Longrightarrow> grows lg s s'"
  by (auto simp: Source_Write_def split: if_splits go.splits)

lemma seg_inv_Close:
  assumes "seg_inv lg key its ts s" "Source_Close s = Ok s'"
  shows "seg_inv lg key its ts s'"
proof (cases "src_closed s")
  case True
  with assms show ?thesis by (auto simp: Source_Close_def seg_inv_def opened_def split: option.splits)
next
  case False
  with assms show ?thesis
    by (auto simp: Source_Close_def cleanup_def andthen_eq_Ok seg_inv_def opened_def)
qed

lemma run_step:
  assumes "seg_inv lg key its ts s" "source_goroutine lg now s = Ok s'"
  shows "seg_inv lg key its ts s' \<and> hs_seq s' = hs_seq s \<and> prefix (running s) (running s')
    \<or> hs_seq s' = hs_seq s + 1 \<and> (\<exists>it c. hs_tsCache s' = Some c
        \<and> GetItem c (ts_filename key now) = Inr it \<and> seg_inv lg key (its @ [it]) (ts @ [now]) s' \<and> prefix (running s) (ts_Data it))"
proof (cases "src_closed s")
  case True
  then have "s' = s\<lparr>src_closed := True, hs_running := False\<rparr>" using goroutine_closed [OF assms(2)] by simp
  then show ?thesis using seg_inv_end(1) [OF assms(1)] by (simp add: running_def)
next
  case False
  then have c: "hs_tsCache s \<noteq> None" using assms(1) seg_inv_open by blast
  obtain s0 where s0: "grows lg s s0 \<or> cuts lg now s s0"
      "s' = s0 \<or> s' = s0\<lparr>src_closed := True, hs_running := False\<rparr> \<or> s' = s0\<lparr>hs_running := False\<rparr>"
    using goroutine_effect [OF assms(2) c] by blast
  then have same: "hs_tsCache s' = hs_tsCache s0" "hs_seq s' = hs_seq s0" "running s' = running s0"
      "seg_inv lg key is u s0 \<Longrightarrow> seg_inv lg key is u s'" for "is" u
    by (auto simp: running_def intro: seg_inv_end)
  from s0(1) show ?thesis
  proof
    assume "grows lg s s0"
    with seg_inv_grows [OF assms(1) this] same show ?thesis by (auto simp: grows_def)
  next
    assume cut: "cuts lg now s s0"
    then have "hs_seq s0 = hs_seq s + 1" by (auto simp: cuts_def)
    with seg_inv_cuts [OF assms(1) cut] same show ?thesis by metis
  qed
qed

lemma run_inv: "source_run lg key its ts s \<Longrightarrow> seg_inv lg key its ts s"
proof (induction rule: source_run.induct)
  case (run_new now)
  show ?case by (simp add: seg_inv_def NewSource_def history_def opened_def)
next
  case (run_write its ts s p s' e)
  then show ?case by (metis Write_grows seg_inv_grows)
next
  case (run_send its ts s now s')
  then show ?case using run_step by fastforce
next
  case (run_cut its ts s now s' c it)
  then show ?case using run_step by fastforce
next
  case (run_close its ts s s')
  then show ?case by (metis seg_inv_Close)
qed

text \<open>A source that is on such a run for its key.\<close>

definition recorded :: "'x livego \<Rightarrow> 'x HlsSource \<Rightarrow> bool" where
  "recorded lg s \<longleftrightarrow> (\<exists>its ts. source_run lg (src_Key s) its ts s)"

lemma recorded_new [simp]: "recorded lg (NewSource lg now key)"
proof -
  have "src_Key (NewSource lg now key) = key" by (simp add: NewSource_def)
  with run_new [of lg key now] show ?thesis unfolding recorded_def by metis
qed

lemma recorded_write:
  assumes "recorded lg s" "Source_Write s p = Ok (s', e)"
  shows "recorded lg s' \<and> src_Key s' = src_Key s"
proof -
  have "src_Key s' = src_Key s" using Write_grows [OF assms(2)] by (simp add: grows_def)
  with assms run_write show ?thesis unfolding recorded_def by metis
qed

lemma recorded_cache: "recorded lg s \<Longrightarrow> hs_tsCache s \<noteq> None \<or> src_closed s"
  using run_inv seg_inv_open unfolding recorded_def by blast

lemma goroutine_key:
  assumes "source_goroutine lg now s = Ok s'" "hs_tsCache s \<noteq> None \<or> src_closed s"
  shows "src_Key s' = src_Key s"
proof (cases "src_closed s")
  case True
  then show ?thesis using goroutine_closed [OF assms(1)] by simp
next
  case False
  with assms(2) have "hs_tsCache s \<noteq> None" by simp
  then obtain s0 where "grows lg s s0 \<or> cuts lg now s s0"
      "s' = s0 \<or> s' = s0\<lparr>src_closed := True, hs_running := False\<rparr> \<or> s' = s0\<lparr>hs_running := False\<rparr>"
    using goroutine_effect [OF assms(1)] by blast
  then show ?thesis by (auto simp: grows_def cuts_def)
qed

lemma recorded_goroutine:
  assumes "recorded lg s" "source_goroutine lg now s = Ok s'"
  shows "recorded lg s' \<and> src_Key s' = src_Key s"
proof -
  obtain its ts where run: "source_run lg (src_Key s) its ts s" using assms(1) unfolding recorded_def by blast
  have key: "src_Key s' = src_Key s" by (rule goroutine_key [OF assms(2) recorded_cache [OF assms(1)]])
  show ?thesis
  proof (cases "hs_seq s' = hs_seq s")
    case True
    with key run_send [OF run assms(2) True] show ?thesis unfolding recorded_def by auto
  next
    case False
    with run_step [OF run_inv [OF run] assms(2)] obtain it c' where
      "hs_tsCache s' = Some c'" "GetItem c' (ts_filename (src_Key s) now) = Inr it"
      by auto
    from run_cut [OF run assms(2) False this] key show ?thesis unfolding recorded_def by auto
  qed
qed

lemma run_goroutine:
  assumes "source_run lg key its ts s" "source_goroutine lg now s = Ok s'"
  shows "hs_seq s' = hs_seq s \<Longrightarrow> source_run lg key its ts s'"
    "hs_seq s' \<noteq> hs_seq s \<Longrightarrow> \<exists>it. source_run lg key (its @ [it]) (ts @ [now]) s'"
  using run_send [OF assms] run_step [OF run_inv [OF assms(1)] assms(2)] run_cut [OF assms] by auto

subsection \<open>A small source\<close>

definition demo_frame :: "bool \<Rightarrow> u32 \<Rightarrow> byte list \<Rightarrow> av_Packet" where
  "demo_frame key ts d = \<lparr>av_IsAudio = False, av_IsVideo = True, av_IsMetadata = False, av_TimeStamp = ts,
     av_Header = Some \<lparr>hd_SoundFormat = 0, hd_AACPacketType = 0, hd_IsKeyFrame = key, hd_IsSeq = False,
       hd_CodecID = 7, hd_CompositionTime = 0\<rparr>, av_Data = of_bytes d\<rparr>"

definition demo_source :: "av_Packet list \<Rightarrow> nat HlsSource" where
  "demo_source ps = (let s = NewSource demo_lg 0 ''live/a'' in s\<lparr>src_packetQueue := (src_packetQueue s)\<lparr>ch_buf := ps\<rparr>\<rparr>)"

definition demo_item :: TSItem where
  "demo_item = NewTSItem (ts_filename ''live/a'' 5) 3500 1 [71, 0, 71, 16, 71, 1, 71, 2]"

lemmas demo_eval = source_goroutine_def Source_SendPacket_round_def chan_recv_def
  demo_frame_def demo_lg_def send_frame_def parse_def parse_frame_def bind_act_def ret_act_def upd_act_def
  Parse_into_bwriter_def buf_write_def cut_def write_tables_def flushAudio_def muxAudio_def finish_segment_def
  tsMux_def Mux_def calcPtsDts_def update_def resetAndNew_def durationMs_def hls_duration_def CacheNum_def
  newAudioCache_def newStatus_def VIDEO_H264_def h264_default_hz_def demo_source_def NewSource_def make_chan_def

lemma demo_source_run:
  "length ps \<le> 512 \<Longrightarrow> source_run demo_lg ''live/a'' [] [] (demo_source ps)"
proof (induction ps rule: rev_induct)
  case Nil
  have "demo_source [] = NewSource demo_lg 0 ''live/a''"
    by (simp add: demo_source_def NewSource_def make_chan_def)
  then show ?case using run_new by metis
next
  case (snoc p ps)
  then have "Source_Write (demo_source ps) p = Ok (demo_source (ps @ [p]), None)"
    by (simp add: Source_Write_def demo_source_def NewSource_def chan_send_def make_chan_def hls_maxQueueNum_def)
  then show ?case using snoc run_write by fastforce
qed

lemma demo_hls_rounds:
  "\<exists>s1 s2 s3. source_goroutine demo_lg 1 (demo_source [demo_frame True 0 [1], demo_frame False 3500 [2], demo_frame True 4000 [3]])
       = Ok s1 \<and> hs_seq s1 = 0 \<and> source_goroutine demo_lg 2 s1 = Ok s2 \<and> hs_seq s2 = 0
     \<and> source_goroutine demo_lg 5 s2 = Ok s3 \<and> hs_seq s3 = 1 \<and> \<not> src_closed s3
     \<and> running s2 = [71, 0, 71, 16, 71, 1, 71, 2]
     \<and> (\<exists>c. hs_tsCache s3 = Some c \<and> GetItem c (ts_filename ''live/a'' 5) = Inr demo_item)"
  by (simp add: demo_eval Let_def running_def GetItem_SetItem demo_item_def)

lemma demo_hls_run:
  obtains s2 s3 where "source_run demo_lg ''live/a'' [] [] s2" "hs_seq s2 = 0" "running s2 = [71, 0, 71, 16, 71, 1, 71, 2]"
    "source_goroutine demo_lg 5 s2 = Ok s3" "hs_seq s3 = 1" "\<not> src_closed s3"
    "source_run demo_lg ''live/a'' [demo_item] [5] s3"
proof -
  obtain s1 s2 s3 c where r: "source_goroutine demo_lg 1 (demo_source [demo_frame True 0 [1], demo_frame False 3500 [2], demo_frame True 4000 [3]])
       = Ok s1" "hs_seq s1 = 0" "source_goroutine demo_lg 2 s1 = Ok s2" "hs_seq s2 = 0"
       "running s2 = [71, 0, 71, 16, 71, 1, 71, 2]"
       "source_goroutine demo_lg 5 s2 = Ok s3" "hs_seq s3 = 1" "\<not> src_closed s3"
       "hs_tsCache s3 = Some c" "GetItem c (ts_filename ''live/a'' 5) = Inr demo_item"
    using demo_hls_rounds by blast
  have "source_run demo_lg ''live/a'' [] [] s1"
    using run_send [OF demo_source_run r(1)] r(2) by (simp add: demo_source_def NewSource_def)
  then have s2: "source_run demo_lg ''live/a'' [] [] s2" using run_send r(2-4) by metis
  then have "source_run demo_lg ''live/a'' [demo_item] [5] s3"
    using run_cut [OF s2 r(6) _ r(9,10)] r(4,7) by simp
  then show thesis using that s2 r by blast
qed

text \<open>Four segments, so that the first leaves the cache.\<close>

lemma demo_four_cuts:
  obtains s its where "source_run demo_lg ''live/a'' its [5, 9, 13, 17] s" "\<not> src_closed s" "length its = 4"
proof -
  let ?ps = "[demo_frame True 0 [1], demo_frame False 3500 [2], demo_frame True 4000 [3], demo_frame False 7500 [4],
    demo_frame True 8000 [5], demo_frame False 11500 [6], demo_frame True 12000 [7], demo_frame False 15500 [8],
    demo_frame True 16000 [9]]"
  obtain s1 s2 s3 s4 s5 s6 s7 s8 s9 where
    r: "source_goroutine demo_lg 1 (demo_source ?ps) = Ok s1" "source_goroutine demo_lg 2 s1 = Ok s2"
      "source_goroutine demo_lg 5 s2 = Ok s3" "source_goroutine demo_lg 6 s3 = Ok s4" "source_goroutine demo_lg 9 s4 = Ok s5"
      "source_goroutine demo_lg 10 s5 = Ok s6" "source_goroutine demo_lg 13 s6 = Ok s7" "source_goroutine demo_lg 14 s7 = Ok s8"
      "source_goroutine demo_lg 17 s8 = Ok s9"
    and n: "hs_seq s1 = 0" "hs_seq s2 = 0" "hs_seq s3 = 1" "hs_seq s4 = 1" "hs_seq s5 = 2" "hs_seq s6 = 2" "hs_seq s7 = 3"
      "hs_seq s8 = 3" "hs_seq s9 = 4" "\<not> src_closed s9"
    by (simp add: demo_eval Let_def)
  have n0: "hs_seq (demo_source ?ps) = 0" by (simp add: demo_source_def NewSource_def Let_def)
  have "source_run demo_lg ''live/a'' [] [] s2"
    using run_goroutine(1) [OF run_goroutine(1) [OF demo_source_run r(1)] r(2)] n n0 by simp
  from run_goroutine(2) [OF this r(3)] n obtain i1 where "source_run demo_lg ''live/a'' [i1] [5] s3" by auto
  from run_goroutine(2) [OF run_goroutine(1) [OF this r(4)] r(5)] n obtain i2
    where "source_run demo_lg ''live/a'' [i1, i2] [5, 9] s5" by auto
  from run_goroutine(2) [OF run_goroutine(1) [OF this r(6)] r(7)] n obtain i3
    where "source_run demo_lg ''live/a'' [i1, i2, i3] [5, 9, 13] s7" by auto
  from run_goroutine(2) [OF run_goroutine(1) [OF this r(8)] r(9)] n obtain i4
    where "source_run demo_lg ''live/a'' [i1, i2, i3, i4] [5, 9, 13, 17] s9" by auto
  with n(10) that show thesis by fastforce
qed

subsection \<open>Properties\<close>

lemma run_segments:
  assumes "source_run lg key its ts s" "\<not> src_closed s"
  shows "GetCacheInc s = Some (set_items (NewTSCacheItem key) (named its))
    \<and> map ts_Name its = map (ts_filename key) ts \<and> (distinct ts \<longleftrightarrow> distinct (map ts_Name its))
    \<and> hs_seq s = int (length its) \<and> map ts_SeqNum its = map int [1..<Suc (length its)]
    \<and> list_all (\<lambda>it. ts_Duration it \<ge> 3000 \<and> (\<exists>x. prefix (tables lg x) (ts_Data it))) its"
proof -
  have inv: "seg_inv lg key its ts s" by (rule run_inv [OF assms(1)])
  then have "history lg key its ts" by (simp add: seg_inv_def)
  from this history_names [OF this] inv assms(2) show ?thesis
    by (auto simp: seg_inv_def history_def GetCacheInc_def decodable_def hls_duration_def list_all_iff split: option.splits)
qed

text \<open>
  C14: What an HLS source has cut. At every point of the life of a source that is open, its cache is
  what storing all segments cut so far, one after the other, gives; these are numbered from one
  without gaps, are at least three seconds long, and each starts with the program tables, so that it
  can be decoded on its own. Each is named by the second in which it was cut, so that the names differ
  exactly if the seconds do.
\<close>

theorem segments_cut:
  assumes "source_run lg key its ts s" "\<not> src_closed s"
  shows "GetCacheInc s = Some (set_items (NewTSCacheItem key) (named its))
    \<and> map ts_Name its = map (ts_filename key) ts \<and> (distinct ts \<longleftrightarrow> distinct (map ts_Name its))
    \<and> hs_seq s = int (length its) \<and> map ts_SeqNum its = map int [1..<Suc (length its)]
    \<and> list_all (\<lambda>it. ts_Duration it \<ge> 3000 \<and> (\<exists>x. prefix (tables lg x) (ts_Data it))) its"
  using assms by (rule run_segments)

theorem segments_cut_witness:
  "\<exists>s. source_run demo_lg ''live/a'' [demo_item] [5] s \<and> ts_Name demo_item = ts_filename ''live/a'' 5
     \<and> GetCacheInc s = Some (set_items (NewTSCacheItem ''live/a'') (named [demo_item])) \<and> ts_SeqNum demo_item = 1"
proof -
  obtain s where "source_run demo_lg ''live/a'' [demo_item] [5] s" "\<not> src_closed s"
    using demo_hls_run by metis
  with segments_cut [OF this] show ?thesis by auto
qed

text \<open>
  C22: No output of the multiplexer is lost. In one round of the goroutine either no segment is cut
  and what the running segment contains stays in it, or one is cut, it is found under its name in
  the cache, and it contains what the running segment contained. Nothing is assumed of the clock.
\<close>

theorem segment_output_kept:
  assumes "source_run lg key its ts s" "source_goroutine lg now s = Ok s'"
  shows "hs_seq s' = hs_seq s \<and> prefix (running s) (running s')
    \<or> hs_seq s' = hs_seq s + 1 \<and> (\<exists>c it. GetCacheInc s' = Some c \<and> GetItem c (ts_filename key now) = Inr it
        \<and> ts_SeqNum it = hs_seq s' \<and> prefix (running s) (ts_Data it))"
proof -
  have inv: "seg_inv lg key its ts s" by (rule run_inv [OF assms(1)])
  have "ts_SeqNum it = int (length its) + 1" if "seg_inv lg key (its @ [it]) (ts @ [now]) s'" for it
    using that by (auto simp: seg_inv_def history_def)
  moreover have "hs_seq s = int (length its)" using inv by (simp add: seg_inv_def)
  ultimately show ?thesis
    using run_step [OF inv assms(2)] by (fastforce simp: GetCacheInc_def)
qed

theorem segment_output_kept_witness:
  "\<exists>(s' :: nat HlsSource) c it. GetCacheInc s' = Some c \<and> GetItem c (ts_filename ''live/a'' 5) = Inr it \<and> ts_SeqNum it = 1
     \<and> prefix [71, 0, 71, 16, 71, 1, 71, 2] (ts_Data it)"
proof -
  obtain s2 s3 where r: "source_run demo_lg ''live/a'' [] [] s2" "hs_seq s2 = 0"
      "running s2 = [71, 0, 71, 16, 71, 1, 71, 2]" "source_goroutine demo_lg 5 s2 = Ok s3" "hs_seq s3 = 1"
    using demo_hls_run by metis
  then show ?thesis using segment_output_kept [OF r(1,4)] by auto
qed

fun Source_Write_all :: "'x HlsSource \<Rightarrow> av_Packet list \<Rightarrow> 'x HlsSource go" where
  "Source_Write_all s [] = Ok s"
| "Source_Write_all s (p # ps) = andthen (Source_Write s p) (\<lambda>(s, _). Source_Write_all s ps)"

lemma Write_all_blocks:
  assumes "\<not> src_closed s" "\<not> ch_closed (src_packetQueue s)"
    "ch_cap (src_packetQueue s) < length (ch_buf (src_packetQueue s)) + length ps"
    "length (ch_buf (src_packetQueue s)) \<le> ch_cap (src_packetQueue s)"
  shows "Source_Write_all s ps = Blocked"
  using assms
proof (induction ps arbitrary: s)
  case (Cons p ps)
  show ?case
  proof (cases "length (ch_buf (src_packetQueue s)) < ch_cap (src_packetQueue s)")
    case True
    let ?c = "src_packetQueue s"
    have w: "Source_Write s p = Ok (s\<lparr>src_packetQueue := ?c\<lparr>ch_buf := ch_buf ?c @ [p]\<rparr>\<rparr>, None)"
      using True Cons.prems by (simp add: Source_Write_def chan_send_def)
    show ?thesis
      using Cons.IH [of "s\<lparr>src_packetQueue := ?c\<lparr>ch_buf := ch_buf ?c @ [p]\<rparr>\<rparr>"] Cons.prems True
      by (simp add: w)
  next
    case False
    with Cons.prems show ?thesis by (simp add: Source_Write_def chan_send_def)
  qed
qed simp

text \<open>
  C35: A panic in the segmenter stalls the stream. \<open>SendPacket\<close> recovers it and returns no error, so
  the source is not marked closed although nothing drains its channel any more; once the channel
  is full, writing to the source, which the stream's goroutine does for every tag, blocks forever.
\<close>

theorem segmenter_panic_stalls:
  assumes "source_run lg key its ts s" "hs_running s" "\<not> src_closed s"
    and "Source_SendPacket_round lg now s = (s0, Panic e)"
  shows "\<exists>s'. source_goroutine lg now s = Ok s' \<and> \<not> src_closed s'
    \<and> (\<forall>now'. source_goroutine lg now' s' = Blocked)
    \<and> (\<forall>ps c. c = src_packetQueue s' \<and> \<not> ch_closed c \<and> length (ch_buf c) \<le> ch_cap c
          \<and> ch_cap c < length (ch_buf c) + length ps \<longrightarrow> Source_Write_all s' ps = Blocked)"
proof -
  let ?s = "s0\<lparr>hs_running := False\<rparr>"
  have "hs_tsCache s \<noteq> None" using run_inv [OF assms(1)] assms(3) seg_inv_open by blast
  then have "grows lg s s0 \<or> cuts lg now s s0"
    using effect_round [of lg now] assms(4) by (auto simp: effect_def dest: spec [of _ s])
  then have "\<not> src_closed s0" using assms(3) by (auto simp: grows_def cuts_def)
  then show ?thesis
    using assms(2,4) by (intro exI [of _ ?s]) (auto simp: source_goroutine_def intro: Write_all_blocks)
qed

theorem segmenter_panic_stalls_witness:
  "\<exists>s'. source_goroutine demo_lg 1 (demo_source [(demo_frame True 0 [1])\<lparr>av_Header := None\<rparr>]) = Ok s'
     \<and> \<not> src_closed s' \<and> Source_Write_all s' (replicate 513 (demo_frame True 0 [1])) = Blocked"
proof -
  let ?s = "demo_source [(demo_frame True 0 [1])\<lparr>av_Header := None\<rparr>]"
  have r: "Source_SendPacket_round demo_lg 1 ?s = (demo_source [], Panic TypeAssertion)"
    by (simp add: demo_eval Let_def)
  then have g: "source_goroutine demo_lg 1 ?s = Ok ((demo_source [])\<lparr>hs_running := False\<rparr>)"
    by (simp add: source_goroutine_def) (simp add: demo_source_def NewSource_def)
  have "source_run demo_lg ''live/a'' [] [] ?s" "hs_running ?s" "\<not> src_closed ?s"
    using demo_source_run by (simp_all add: demo_source_def NewSource_def)
  from segmenter_panic_stalls [OF this r] g show ?thesis
    by (simp add: demo_source_def NewSource_def make_chan_def hls_maxQueueNum_def)
qed

end
