(* ===== verification/Hls_Server.thy ===== *)
theory Hls_Server
  imports Hls_Segments Utils Http
begin

text \<open>
  The HLS server (\<open>src/protocol/hls/hls.go\<close>): the table of sources, its clean-up, and the request
  handler that serves playlists and segments. Listening and HTTP itself belong to the
  environment; a request is its URL path, an answer the record \<open>HttpResponse\<close> of theory \<open>Http\<close>.
\<close>

subsection \<open>The table of sources\<close>

text \<open>
  Sources are reached through pointers: \<open>hw_server\<close> is the global \<open>hlsServer\<close> with its table, nil until
  the first stream, and \<open>hw_heap\<close> holds the sources, the next free address being \<open>hw_next\<close>.
\<close>

record 'x hls_world =
  hw_server :: "(string \<rightharpoonup> nat) option"
  hw_heap :: "nat \<Rightarrow> 'x HlsSource"
  hw_next :: nat

definition hls_NewServer :: "string \<rightharpoonup> nat" where
  "hls_NewServer = Map.empty"

text \<open>\<open>err\<close> is what \<open>net.Listen\<close> returns.\<close>

definition StartHls :: "string option \<Rightarrow> 'x hls_world \<Rightarrow> 'x hls_world go" where
  "StartHls err w = andthen (CheckError err) (\<lambda>_. Ok (w\<lparr>hw_server := Some hls_NewServer\<rparr>))"

definition GetWriter :: "'x livego \<Rightarrow> string option \<Rightarrow> int \<Rightarrow> string \<Rightarrow> 'x hls_world \<Rightarrow> ('x hls_world \<times> nat) go" where
  "GetWriter lg err now key w =
     andthen (if hw_server w = None then StartHls err w else Ok w) (\<lambda>w.
       case hw_server w of
         None \<Rightarrow> Panic NilDeref
       | Some conns \<Rightarrow>
         (case conns key of
            None \<Rightarrow>
              let s = hw_next w in
              Ok (w\<lparr>hw_heap := (hw_heap w)(s := NewSource lg now key), hw_next := s + 1,
                    hw_server := Some (conns(key \<mapsto> s))\<rparr>, s)
          | Some s \<Rightarrow> Ok (w, s)))"

definition getConn :: "(string \<rightharpoonup> nat) \<Rightarrow> string \<Rightarrow> nat option" where
  "getConn conns key = conns key"

text \<open>One round of \<open>checkStop\<close>; \<open>alive\<close> is the method of the embedded \<open>RWBaser\<close>.\<close>

definition checkStop_round :: "(nat \<Rightarrow> bool) \<Rightarrow> (string \<rightharpoonup> nat) \<Rightarrow> (string \<rightharpoonup> nat)" where
  "checkStop_round alive conns =
     (\<lambda>key. case conns key of None \<Rightarrow> None | Some v \<Rightarrow> if \<not> alive v then None else Some v)"

subsection \<open>Requests\<close>

definition ErrNoPublisher :: string where "ErrNoPublisher = ''no publisher''"
definition StatusForbidden :: int where "StatusForbidden = 403"
definition StatusBadRequest :: int where "StatusBadRequest = 400"

definition crossdomainxml :: string where
  "crossdomainxml = ''<?xml version=\"1.0\" ?>'' @ newline @ ''<cross-domain-policy>'' @ newline
     @ [char_of (9 :: nat)] @ ''<allow-access-from domain=\"*\" />'' @ newline
     @ [char_of (9 :: nat)] @ ''<allow-http-request-headers-from domain=\"*\" headers=\"*\"/>'' @ newline
     @ ''</cross-domain-policy>''"

text \<open>\<open>handle\<close> calls \<open>parseM3u8\<close> only with a path that has an extension.\<close>

definition parseM3u8 :: "string \<Rightarrow> string" where
  "parseM3u8 pathstr = (let p = TrimLeft pathstr CHR ''/'' in split_head p (Ext p))"

definition parseTs :: "string \<Rightarrow> string \<times> string option" where
  "parseTs pathstr = (let p = TrimLeft pathstr CHR ''/''; paths = SplitN p CHR ''/'' 3 in
     if length paths \<noteq> 3 then ([], Some (''invalid path='' @ p))
     else (paths ! 0 @ ''/'' @ paths ! 1, None))"

definition serve_playlist :: "TSCacheItem \<Rightarrow> HttpResponse" where
  "serve_playlist tsCache = (let body = GenM3U8PlayList tsCache in
     \<lparr>r_Status = 200, r_Header = [(''Access-Control-Allow-Origin'', ''*''), (''Cache-Control'', ''no-cache''),
        (''Content-Type'', ''application/x-mpegURL''), (''Content-Length'', Itoa (int (length body)))],
      r_Body = str_bytes body\<rparr>)"

definition serve_segment :: "TSItem \<Rightarrow> HttpResponse" where
  "serve_segment item =
     \<lparr>r_Status = 200, r_Header = [(''Access-Control-Allow-Origin'', ''*''), (''Content-Type'', ''video/mp2ts''),
        (''Content-Length'', Itoa (int (length (ts_Data item))))], r_Body = ts_Data item\<rparr>"

definition handle :: "(nat \<Rightarrow> 'x HlsSource) \<Rightarrow> (string \<rightharpoonup> nat) \<Rightarrow> string \<Rightarrow> HttpResponse go" where
  "handle heap conns p =
     (if Base p = ''crossdomain.xml'' then
        Ok \<lparr>r_Status = 200, r_Header = [(''Content-Type'', ''application/xml'')], r_Body = str_bytes crossdomainxml\<rparr>
      else if Ext p = ''.m3u8'' then
        (case getConn conns (parseM3u8 p) of
           None \<Rightarrow> Ok (http_Error ErrNoPublisher StatusForbidden)
         | Some conn \<Rightarrow>
           (case GetCacheInc (heap conn) of
              None \<Rightarrow> Ok (http_Error ErrNoPublisher StatusForbidden)
            | Some tsCache \<Rightarrow> Ok (serve_playlist tsCache)))
      else if Ext p = ''.ts'' then
        (case getConn conns (fst (parseTs p)) of
           None \<Rightarrow> Ok (http_Error ErrNoPublisher StatusForbidden)
         | Some conn \<Rightarrow>
           (case GetCacheInc (heap conn) of
              None \<Rightarrow> Panic NilDeref
            | Some tsCache \<Rightarrow>
              (case GetItem tsCache p of
                 Inl err \<Rightarrow> Ok (http_Error err StatusBadRequest)
               | Inr item \<Rightarrow> Ok (serve_segment item))))
      else Ok http_empty)"

subsection \<open>Paths\<close>

text \<open>The key of a stream: application and name, as the publisher list has them.\<close>

definition stream_key :: "string \<Rightarrow> bool" where
  "stream_key key \<longleftrightarrow> (\<exists>a b. key = a @ ''/'' @ b \<and> a \<noteq> [] \<and> CHR ''/'' \<notin> set a \<and> CHR ''/'' \<notin> set b)
     \<and> \<not> sublist ''.m3u8'' key"

lemma sublist_front:
  assumes "s @ x = u @ sep @ v" "length u + length sep \<le> length s"
  shows "sublist sep s"
proof -
  have "take (length u + length sep) (s @ x) = u @ sep" unfolding assms(1) by simp
  then have "take (length u + length sep) s = u @ sep" using assms(2) by simp
  then have "s = u @ sep @ drop (length u + length sep) s" by (metis append_take_drop_id append.assoc)
  then show ?thesis unfolding sublist_def by blast
qed

lemma m3u8_no_overlap:
  assumes "\<not> sublist ''.m3u8'' s" "s @ ''.m3u8'' = u @ ''.m3u8'' @ v"
  shows "v = []"
proof (rule ccontr)
  assume v: "v \<noteq> []"
  have len: "length s = length u + length v" using arg_cong [OF assms(2), of length] by simp
  show False
  proof (cases "length v \<ge> 5")
    case True
    then have "length (u @ ''.m3u8'') \<le> length s" using len by simp
    then have "sublist ''.m3u8'' s" by (intro sublist_front [OF assms(2)]) simp
    with assms(1) show False by simp
  next
    case False
    have "0 < length v" "length v < 5" using v False by simp_all
    then have "length v = 1 \<or> length v = 2 \<or> length v = 3 \<or> length v = 4" by linarith
    then have "(u @ ''.m3u8'' @ v) ! length s \<noteq> CHR ''.''"
      using len by (auto simp: nth_append)
    moreover have "(s @ ''.m3u8'') ! length s = CHR ''.''" by (simp add: nth_append)
    ultimately show False using assms(2) by simp
  qed
qed

lemma stream_key_hd: "stream_key key \<Longrightarrow> TrimLeft (key @ x) CHR ''/'' = key @ x"
  by (rule TrimLeft_id) (auto simp: stream_key_def hd_append, (metis hd_in_set)+)

lemma parseM3u8_key:
  assumes "stream_key key"
  shows "parseM3u8 (''/'' @ key @ ''.m3u8'') = key" "Ext (''/'' @ key @ ''.m3u8'') = ''.m3u8''"
proof -
  have e: "Ext (u @ ''.m3u8'') = ''.m3u8''" for u
    using Ext_append [of "''m3u8''" u] by simp
  show "Ext (''/'' @ key @ ''.m3u8'') = ''.m3u8''" using e [of "''/'' @ key"] by simp
  have "split_head (key @ ''.m3u8'') ''.m3u8'' = key"
    using assms m3u8_no_overlap by (intro split_head_append) (auto simp: stream_key_def)
  then show "parseM3u8 (''/'' @ key @ ''.m3u8'') = key"
    using stream_key_hd [OF assms, of "''.m3u8''"] e [of key] by (simp add: parseM3u8_def Let_def)
qed

lemma parseTs_key:
  assumes "stream_key key"
  shows "parseTs (ts_filename key t) = (key, None)" "Ext (ts_filename key t) = ''.ts''"
proof -
  obtain a b where k: "key = a @ ''/'' @ b" "CHR ''/'' \<notin> set a" "CHR ''/'' \<notin> set b"
    using assms by (auto simp: stream_key_def)
  have "SplitN (key @ ''/'' @ Itoa t @ ''.ts'') CHR ''/'' 3 = [a, b, Itoa t @ ''.ts'']"
    using SplitN_3 [OF k(2,3), of "Itoa t @ ''.ts''"] by (simp add: k(1) numeral_3_eq_3)
  then show "parseTs (ts_filename key t) = (key, None)"
    using stream_key_hd [OF assms, of "''/'' @ Itoa t @ ''.ts''"]
    by (simp add: parseTs_def ts_filename_def Let_def k(1))
  show "Ext (ts_filename key t) = ''.ts''"
    using Ext_append [of "''ts''" "''/'' @ key @ ''/'' @ Itoa t"] by (simp add: ts_filename_def)
qed

lemma Base_ts: "Base (ts_filename key t) = Itoa t @ ''.ts''"
  using Base_append [of "Itoa t @ ''.ts''" "''/'' @ key"] Itoa_chars(1) [of t] by (simp add: ts_filename_def)

lemma Base_m3u8:
  assumes "stream_key key"
  shows "Base (''/'' @ key @ ''.m3u8'') \<noteq> ''crossdomain.xml''"
proof -
  obtain a b where k: "key = a @ ''/'' @ b" "CHR ''/'' \<notin> set b"
    using assms by (auto simp: stream_key_def)
  have "Base (''/'' @ key @ ''.m3u8'') = b @ ''.m3u8''"
    using Base_append [of "b @ ''.m3u8''" "''/'' @ a"] k by simp
  moreover have "b @ ''.m3u8'' \<noteq> ''crossdomain.xml''"
    using arg_cong [of "b @ ''.m3u8''" "''crossdomain.xml''" last] by auto
  ultimately show ?thesis by simp
qed

subsection \<open>Properties\<close>

lemma history_segment_name:
  assumes "history lg key its ts" "it \<in> set its"
  obtains x where "ts_Name it = ts_filename key x"
proof -
  have "ts_Name it \<in> set (map ts_Name its)" using assms(2) by simp
  also have "set (map ts_Name its) = set (map (ts_filename key) ts)" using assms(1) by (simp only: history_def)
  finally have "ts_Name it \<in> range (ts_filename key)" by auto
  then show thesis using that by blast
qed

lemma handle_ts:
  assumes "stream_key key" "conns key = Some r" "GetCacheInc (heap r) = Some c"
  shows "handle heap conns (ts_filename key x) = (case GetItem c (ts_filename key x) of
      Inl err \<Rightarrow> Ok (http_Error err 400) | Inr it \<Rightarrow> Ok (serve_segment it))"
proof -
  have "Base (ts_filename key x) \<noteq> ''crossdomain.xml''"
    using arg_cong [of "Itoa x @ ''.ts''" "''crossdomain.xml''" last] by (auto simp: Base_ts)
  with assms show ?thesis
    by (simp add: handle_def parseTs_key getConn_def StatusBadRequest_def split: sum.split)
qed

lemma source_served:
  assumes "source_run lg key its ts s" "\<not> src_closed s" "stream_key key" "conns key = Some r" "heap r = s"
    and "distinct (last5 ts)"
  shows "\<exists>c. handle heap conns (''/'' @ key @ ''.m3u8'') = Ok (serve_playlist c) \<and> GenM3U8PlayList c = playlist_text (last3 its)"
    and "it \<in> set (last3 its) \<Longrightarrow> handle heap conns (ts_Name it) = Ok (serve_segment it)"
    and "it \<in> set its \<Longrightarrow> ts_Name it \<notin> ts_Name ` set (last3 its)
      \<Longrightarrow> handle heap conns (ts_Name it) = Ok (http_Error ErrNoKey 400)"
proof -
  have inv: "history lg key its ts" "hs_tsCache s = Some (set_items (NewTSCacheItem key) (named its))"
    using run_inv [OF assms(1)] seg_inv_open [OF run_inv [OF assms(1)] assms(2)] by (auto simp: seg_inv_def)
  have names: "map ts_Name its = map (ts_filename key) ts" using inv(1) by (simp add: history_def)
  have "map ts_Name (last5 its) = map (ts_filename key) (last5 ts)" using arg_cong [OF names, of last5] by (simp add: last5_map)
  with assms(6) have d: "distinct (map fst (last5 (named its)))" by (simp add: last5_map comp_def distinct_map inj_on_def)
  let ?c = "set_items (NewTSCacheItem key) (named its)"
  have c: "GetCacheInc (heap r) = Some ?c" by (simp add: GetCacheInc_def assms(5) inv(2))
  have w: "ts_ok ?c" "segments ?c = last3 its" "tc_lm ?c = map_of (last3 (named its))"
    using set_items_spec [OF d, of key] by (simp_all add: comp_def)
  have "handle heap conns (''/'' @ key @ ''.m3u8'') = Ok (serve_playlist ?c)"
    using parseM3u8_key [OF assms(3)] Base_m3u8 [OF assms(3)] assms(4) c by (simp add: handle_def getConn_def)
  with GenM3U8PlayList_ok [OF w(1)] show "\<exists>c. handle heap conns (''/'' @ key @ ''.m3u8'') = Ok (serve_playlist c)
      \<and> GenM3U8PlayList c = playlist_text (last3 its)"
    by (intro exI [of _ ?c]) (simp add: w(2))
  have served: "handle heap conns (ts_Name it) = (case map_of (last3 (named its)) (ts_Name it) of
      None \<Rightarrow> Ok (http_Error ErrNoKey 400) | Some x \<Rightarrow> Ok (serve_segment x))" if it: "it \<in> set its" for it
  proof -
    obtain x where "ts_Name it = ts_filename key x" using history_segment_name [OF inv(1) it] by blast
    then show ?thesis
      using handle_ts [where heap = heap and conns = conns and r = r, OF assms(3,4) c, of x]
      by (simp add: GetItem_def w(3) split: option.splits)
  qed
  show "handle heap conns (ts_Name it) = Ok (serve_segment it)" if "it \<in> set (last3 its)"
  proof -
    have "map_of (last3 (named its)) (ts_Name it) = Some it"
    proof (rule map_of_is_SomeI)
      show "distinct (map fst (last3 (named its)))" by (rule distinct_last3 [OF d])
      show "(ts_Name it, it) \<in> set (last3 (named its))" using that by (simp add: last3_map)
    qed
    moreover have "it \<in> set its" using that by (simp add: last3_def in_set_dropD)
    ultimately show ?thesis using served by simp
  qed
  show "handle heap conns (ts_Name it) = Ok (http_Error ErrNoKey 400)"
    if it: "it \<in> set its" "ts_Name it \<notin> ts_Name ` set (last3 its)"
  proof -
    have "map_of (last3 (named its)) (ts_Name it) = None"
      using it(2) by (simp add: last3_map map_of_eq_None_iff image_image)
    with served [OF it(1)] show ?thesis by simp
  qed
qed

lemma demo_key: "stream_key ''live/a''"
  unfolding stream_key_def
  by (intro conjI exI [of _ "''live''"] exI [of _ "''a''"]) (auto simp: sublist_code)

subsection \<open>The table over time\<close>

text \<open>
  What changes the table and the sources behind it: a new queue asks for its source, the
  clean-up drops sources, and a source is written to, drained or closed.
\<close>

inductive hls_run :: "'x livego \<Rightarrow> 'x hls_world \<Rightarrow> bool" for lg :: "'x livego" where
  hls_start: "hls_run lg \<lparr>hw_server = None, hw_heap = heap, hw_next = 0\<rparr>"
| hls_get: "hls_run lg w \<Longrightarrow> GetWriter lg err now key w = Ok (w', r) \<Longrightarrow> hls_run lg w'"
| hls_stop: "hls_run lg w \<Longrightarrow> hw_server w = Some conns
    \<Longrightarrow> hls_run lg (w\<lparr>hw_server := Some (checkStop_round alive conns)\<rparr>)"
| hls_write: "hls_run lg w \<Longrightarrow> Source_Write (hw_heap w r) p = Ok (s', e)
    \<Longrightarrow> hls_run lg (w\<lparr>hw_heap := (hw_heap w)(r := s')\<rparr>)"
| hls_send: "hls_run lg w \<Longrightarrow> source_goroutine lg now (hw_heap w r) = Ok s' \<Longrightarrow> hs_tsCache (hw_heap w r) \<noteq> None \<or> src_closed (hw_heap w r)
    \<Longrightarrow> hls_run lg (w\<lparr>hw_heap := (hw_heap w)(r := s')\<rparr>)"
| hls_close: "hls_run lg w \<Longrightarrow> Source_Close (hw_heap w r) = Ok s'
    \<Longrightarrow> hls_run lg (w\<lparr>hw_heap := (hw_heap w)(r := s')\<rparr>)"

definition table_ok :: "'x hls_world \<Rightarrow> bool" where
  "table_ok w \<longleftrightarrow> (\<forall>conns key r. hw_server w = Some conns \<and> conns key = Some r
     \<longrightarrow> r < hw_next w \<and> src_Key (hw_heap w r) = key)"

lemma table_ok_source: "table_ok w \<Longrightarrow> src_Key s' = src_Key (hw_heap w r) \<Longrightarrow> table_ok (w\<lparr>hw_heap := (hw_heap w)(r := s')\<rparr>)"
  by (auto simp: table_ok_def)

text \<open>The table, empty as long as there is no server.\<close>

definition table :: "'x hls_world \<Rightarrow> (string \<rightharpoonup> nat)" where
  "table w = (case hw_server w of None \<Rightarrow> Map.empty | Some conns \<Rightarrow> conns)"

lemma table_ok_table: "table_ok w \<Longrightarrow> table w k = Some x \<Longrightarrow> x < hw_next w \<and> src_Key (hw_heap w x) = k"
  by (simp add: table_ok_def table_def split: option.splits)

lemma GetWriter_ok:
  assumes "GetWriter lg err now key w = Ok (w', r)" "table_ok w"
  shows "table_ok w' \<and> (\<exists>conns. hw_server w' = Some conns \<and> conns key = Some r)
    \<and> (\<forall>conns r'. hw_server w = Some conns \<longrightarrow> conns key = Some r' \<longrightarrow> w' = w \<and> r = r')
    \<and> (table w key = None \<longrightarrow> r = hw_next w \<and> w' = w\<lparr>hw_heap := (hw_heap w)(r := NewSource lg now key),
         hw_next := r + 1, hw_server := Some ((table w)(key \<mapsto> r))\<rparr>)"
proof -
  obtain conns where c: "(if hw_server w = None then StartHls err w else Ok w) = Ok (w\<lparr>hw_server := Some conns\<rparr>)"
      "hw_server w = Some conns \<or> hw_server w = None \<and> conns = Map.empty"
    using assms(1)
    by (cases "hw_server w"; cases err)
      (auto simp: GetWriter_def StartHls_def CheckError_def hls_NewServer_def intro: that)
  show ?thesis
  proof (cases "conns key")
    case None
    let ?w = "w\<lparr>hw_heap := (hw_heap w)(hw_next w := NewSource lg now key), hw_next := hw_next w + 1,
        hw_server := Some (conns(key \<mapsto> hw_next w))\<rparr>"
    have "w' = ?w" "r = hw_next w" using assms(1) c None by (auto simp: GetWriter_def Let_def)
    moreover have "table_ok ?w"
    proof -
      have old: "x < hw_next w \<and> src_Key (hw_heap w x) = k" if "conns k = Some x" for k x
        using assms(2) c(2) that by (auto simp: table_ok_def)
      have "x < Suc (hw_next w) \<and> src_Key (((hw_heap w)(hw_next w := NewSource lg now key)) x) = k"
        if "(conns(key \<mapsto> hw_next w)) k = Some x" for k x
      proof (cases "k = key")
        case True
        with that show ?thesis by (simp add: NewSource_def)
      next
        case False
        with that old [of k x] show ?thesis by simp
      qed
      then show ?thesis by (simp add: table_ok_def)
    qed
    ultimately show ?thesis using c(2) None by (auto simp: table_def)
  next
    case (Some x)
    then have "hw_server w = Some conns" using c(2) by auto
    with assms c Some show ?thesis by (auto simp: GetWriter_def table_def)
  qed
qed

lemma hls_run_ok: "hls_run lg w \<Longrightarrow> table_ok w"
proof (induction rule: hls_run.induct)
  case (hls_start heap)
  show ?case by (simp add: table_ok_def)
next
  case (hls_get w err now key w' r)
  then show ?case using GetWriter_ok by blast
next
  case (hls_stop w conns alive)
  then show ?case by (auto simp: table_ok_def checkStop_round_def split: option.splits if_splits)
next
  case (hls_write w r p s' e)
  have "src_Key s' = src_Key (hw_heap w r)" using Write_grows [OF hls_write.hyps(2)] by (auto simp: grows_def)
  then show ?case by (rule table_ok_source [OF hls_write.IH])
next
  case (hls_send w now r s')
  then show ?case using table_ok_source goroutine_key by metis
next
  case (hls_close w r s')
  then have "src_Key s' = src_Key (hw_heap w r)"
    by (auto simp: Source_Close_def cleanup_def andthen_eq_Ok split: if_splits)
  then show ?case by (rule table_ok_source [OF hls_close.IH])
qed

text \<open>
  C29: The table of HLS sources. Whatever has happened, no two keys share a source, and each registered
  source is one that was created for the key it is registered under. Asking for the source of a key
  that is registered returns it and changes nothing. Asking for that of another key creates a source
  as \<open>NewSource\<close> makes it, at an address that no key has, and registers it under the key; all
  other entries and all other sources are as before.
\<close>

theorem source_table:
  assumes "hls_run lg w" "GetWriter lg err now key w = Ok (w', r)"
  shows "(\<forall>k x. table w' k = Some x \<longrightarrow> src_Key (hw_heap w' x) = k)
    \<and> (\<forall>key1 key2. getConn (table w') key1 \<noteq> None \<longrightarrow> getConn (table w') key1 = getConn (table w') key2 \<longrightarrow> key1 = key2)
    \<and> (\<forall>r'. getConn (table w) key = Some r' \<longrightarrow> w' = w \<and> r = r')
    \<and> (getConn (table w) key = None \<longrightarrow> (\<forall>k. getConn (table w) k \<noteq> Some r)
         \<and> hw_heap w' r = NewSource lg now key \<and> (\<forall>x. x \<noteq> r \<longrightarrow> hw_heap w' x = hw_heap w x)
         \<and> getConn (table w') key = Some r \<and> (\<forall>k. k \<noteq> key \<longrightarrow> getConn (table w') k = getConn (table w) k))"
proof -
  have ok: "table_ok w" by (rule hls_run_ok [OF assms(1)])
  note g = GetWriter_ok [OF assms(2) ok]
  have keys: "src_Key (hw_heap w' x) = k" if "table w' k = Some x" for k x
    using table_ok_table [of w'] g that by blast
  have same: "key1 = key2" if "table w' key1 \<noteq> None" "table w' key1 = table w' key2" for key1 key2
    using keys that by (metis not_None_eq)
  have known: "w' = w \<and> r = r'" if "table w key = Some r'" for r'
    using g that by (auto simp: table_def split: option.splits)
  have fresh: "(\<forall>k. table w k \<noteq> Some r) \<and> hw_heap w' r = NewSource lg now key \<and> (\<forall>x. x \<noteq> r \<longrightarrow> hw_heap w' x = hw_heap w x)
      \<and> table w' key = Some r \<and> (\<forall>k. k \<noteq> key \<longrightarrow> table w' k = table w k)" if "table w key = None"
  proof -
    have n: "r = hw_next w" "w' = w\<lparr>hw_heap := (hw_heap w)(r := NewSource lg now key), hw_next := r + 1,
        hw_server := Some ((table w)(key \<mapsto> r))\<rparr>"
      using g that by blast+
    have "table w k \<noteq> Some r" for k using table_ok_table [OF ok, of k r] n(1) by auto
    then show ?thesis by (simp add: n(2)) (simp add: table_def)
  qed
  show ?thesis
    unfolding getConn_def
  proof (intro conjI)
    show "\<forall>k x. table w' k = Some x \<longrightarrow> src_Key (hw_heap w' x) = k" by (intro allI impI) (rule keys)
    show "\<forall>key1 key2. table w' key1 \<noteq> None \<longrightarrow> table w' key1 = table w' key2 \<longrightarrow> key1 = key2"
      by (intro allI impI) (rule same)
    show "\<forall>r'. table w key = Some r' \<longrightarrow> w' = w \<and> r = r'" by (intro allI impI) (rule known)
  qed (rule impI, rule fresh)
qed

theorem source_table_witness:
  "\<exists>w r w' r'. GetWriter demo_lg None 0 ''live/a'' \<lparr>hw_server = None, hw_heap = (\<lambda>_. demo_source []), hw_next = 0\<rparr> = Ok (w, r)
     \<and> GetWriter demo_lg None 0 ''live/b'' w = Ok (w', r') \<and> r' \<noteq> r \<and> hw_heap w' r' = NewSource demo_lg 0 ''live/b''
     \<and> getConn (table w') ''live/a'' = Some r \<and> getConn (table w') ''live/b'' = Some r'"
proof -
  let ?w = "\<lparr>hw_server = None, hw_heap = (\<lambda>_. demo_source []), hw_next = 0\<rparr>"
  obtain w r where w: "GetWriter demo_lg None 0 ''live/a'' ?w = Ok (w, r)" "hw_server w = Some [''live/a'' \<mapsto> r]"
    by (simp add: GetWriter_def StartHls_def CheckError_def hls_NewServer_def)
  then obtain w' r' where w': "GetWriter demo_lg None 0 ''live/b'' w = Ok (w', r')" by (simp add: GetWriter_def Let_def)
  have t: "getConn (table w) ''live/a'' = Some r" "getConn (table w) ''live/b'' = None"
    by (simp_all add: table_def w(2) getConn_def)
  note n = source_table [OF hls_get [OF hls_start w(1)] w']
  have "getConn (table w) ''live/a'' \<noteq> Some r'" "hw_heap w' r' = NewSource demo_lg 0 ''live/b''"
      "getConn (table w') ''live/b'' = Some r'" "getConn (table w') ''live/a'' = getConn (table w) ''live/a''"
    using n t(2) by simp_all
  with t(1) w(1) w' show ?thesis
    by (intro exI [of _ w] exI [of _ r] exI [of _ w'] exI [of _ r']) simp
qed

end
