(* ===== verification/Edge_Node.thy ===== *)
theory Edge_Node
  imports Queue_Identity Http_Flv_Server Hls_Server
begin

text \<open>
  The edge node (\<open>src/main.go\<close>, \<open>src/cache/App.go\<close>): the tables of streams, the loop that receives
  datagrams, the creation of a stream, the handlers of HTTP requests and the liveness check.
  Queues, files and writers are reached through pointers, so the model keeps them in stores
  indexed by addresses. The libraries and the outside world are the parameters in the record
  \<open>Node\<close>.
\<close>

subsection \<open>State\<close>

record ('l, 'm, 'f, 'w, 'x) Node =
  nd_env :: "'w Env"
  nd_al :: "'l packets"
  nd_wl :: "'m writer_refs"
  nd_fl :: "(nat, 'f) arraylist_ops"
  nd_lg :: "'x livego"
  nd_listen :: "'w \<Rightarrow> string option"
  nd_now :: "'w \<Rightarrow> int"
  nd_create :: "string \<Rightarrow> 'w \<Rightarrow> string option \<times> bool"

text \<open>
  \<open>nd_lg\<close> are the objects of the package \<open>livego\<close> that HLS sources own, \<open>nd_listen\<close> the error of opening
  the HLS server's socket, \<open>nd_now\<close> the clock, \<open>nd_create\<close> the error of \<open>os.Create\<close> and whether the device
  fails afterwards. \<open>app_shared\<close> holds the fields of \<open>App\<close> that the queues use
  as well (\<open>Publishers\<close>, \<open>UdpBufferSize\<close>) and the stores behind the pointers; \<open>app_conf\<close> is
  \<open>configure.Conf\<close>, which the receive loop changes; \<open>app_hls\<close> is the HLS server with its sources.
\<close>

record ('l, 'm, 'f, 'w, 'x) App =
  RtpQueueMap :: "u32 \<rightharpoonup> nat"
  KeySsrcMap :: "string \<rightharpoonup> u32"
  FlvFiles :: 'f
  app_shared :: "'w Shared"
  app_queues :: "nat \<Rightarrow> ('l, 'm) Queue"
  app_conf :: Config
  app_hls :: "'x hls_world"
  next_queue :: nat
  next_file :: nat
  next_writer :: nat

text \<open>The tables as \<open>main\<close> creates them, over arbitrary stores.\<close>

definition main_App :: "('l, 'm, 'f, 'w, 'x) Node \<Rightarrow> Config \<Rightarrow> 'w Shared \<Rightarrow> (nat \<Rightarrow> ('l, 'm) Queue)
    \<Rightarrow> (nat \<Rightarrow> 'x HlsSource) \<Rightarrow> ('l, 'm, 'f, 'w, 'x) App" where
  "main_App nd cfg sh qs heap = \<lparr>RtpQueueMap = Map.empty, KeySsrcMap = Map.empty, FlvFiles = al_New (nd_fl nd),
     app_shared = sh\<lparr>Publishers_map := Map.empty, UdpBufferSize := 100 * 1024\<rparr>, app_queues = qs,
     app_conf = cfg, app_hls = \<lparr>hw_server = None, hw_heap = heap, hw_next = 0\<rparr>,
     next_queue = 0, next_file = 0, next_writer = 0\<rparr>"

text \<open>The deferred function of \<open>main\<close>: closing a nil file panics.\<close>

fun close_files :: "nat option list \<Rightarrow> (nat \<Rightarrow> File) \<Rightarrow> (nat \<Rightarrow> File) go" where
  "close_files [] fs = Ok fs"
| "close_files (None # rs) fs = Panic NilDeref"
| "close_files (Some r # rs) fs = close_files rs (fs(r := File_Close (fs r)))"

text \<open>A Go map of numbers yields zero for a missing key.\<close>

definition key_ssrc :: "('l, 'm, 'f, 'w, 'x) App \<Rightarrow> string \<Rightarrow> u32" where
  "key_ssrc app key = (case KeySsrcMap app key of None \<Rightarrow> 0 | Some ssrc \<Rightarrow> ssrc)"

subsection \<open>Streams\<close>

definition record_path :: "Config \<Rightarrow> string \<Rightarrow> string" where
  "record_path cfg name = RECORD_DIR cfg @ ''/'' @ name @ ''.flv''"

definition CreateFlvFile :: "Config \<Rightarrow> string \<Rightarrow> string option \<Rightarrow> bool \<Rightarrow> File option" where
  "CreateFlvFile cfg name create_err fail =
     (case CreateFile (record_path cfg name) create_err fail of Inl e \<Rightarrow> None | Inr f \<Rightarrow> Some f)"

text \<open>
  The recording of a new stream. Unless \<open>os.Create\<close> fails, a file of this name is truncated, also for those
  that have it open; a file that could not be created is a nil pointer in the list.
\<close>

definition open_record :: "('l, 'm, 'f, 'w, 'x) Node \<Rightarrow> string \<Rightarrow> ('l, 'm, 'f, 'w, 'x) App
    \<Rightarrow> ('l, 'm, 'f, 'w, 'x) App \<times> nat option" where
  "open_record nd channel app =
     (if ENABLE_RECORD (app_conf app) then
        (case nd_create nd channel (world (app_shared app)) of (err, fail) \<Rightarrow>
          let r = next_file app; sh = app_shared app;
              fs = (if err = None then on_path (record_path (app_conf app) channel) [] (files sh) else files sh) in
          case CreateFlvFile (app_conf app) channel err fail of
            None \<Rightarrow> (app\<lparr>FlvFiles := al_Add (nd_fl nd) (FlvFiles app) None, app_shared := sh\<lparr>files := fs\<rparr>\<rparr>, None)
          | Some f \<Rightarrow>
            (app\<lparr>FlvFiles := al_Add (nd_fl nd) (FlvFiles app) (Some r), next_file := r + 1,
                 app_shared := sh\<lparr>files := put_file r f fs\<rparr>\<rparr>, Some r))
      else (app, None))"

text \<open>The source that a new queue writes to, if HLS is enabled.\<close>

definition hls_writer :: "('l, 'm, 'f, 'w, 'x) Node \<Rightarrow> string \<Rightarrow> ('l, 'm, 'f, 'w, 'x) App
    \<Rightarrow> (('l, 'm, 'f, 'w, 'x) App \<times> nat) go" where
  "hls_writer nd key app =
     (if ENABLE_HLS (app_conf app) then
        andthen (GetWriter (nd_lg nd) (nd_listen nd (world (app_shared app))) (nd_now nd (world (app_shared app)))
                   key (app_hls app)) (\<lambda>(w, src). Ok (app\<lparr>app_hls := w\<rparr>, src))
      else Ok (app, 0))"

definition handleNewStream :: "('l, 'm, 'f, 'w, 'x) Node \<Rightarrow> u32 \<Rightarrow> ('l, 'm, 'f, 'w, 'x) App
    \<Rightarrow> (('l, 'm, 'f, 'w, 'x) App \<times> nat) go" where
  "handleNewStream nd ssrc app =
     (case HttpGet (nd_env nd) (livestat_url (app_conf app)) (world (app_shared app)) of (res, n) \<Rightarrow>
      andthen (UpdatePublishers res) (\<lambda>pubs.
      let app = app\<lparr>app_shared := (set_world n (app_shared app))\<lparr>Publishers_map := pubs\<rparr>\<rparr> in
      andthen (nonnil (pubs ssrc)) (\<lambda>pub.
      let key = Key pub; app = app\<lparr>KeySsrcMap := (KeySsrcMap app)(key \<mapsto> ssrc)\<rparr>;
          parts = SplitN key CHR ''/'' 2 in
      if \<not> 1 < length parts then Panic IndexOutOfRange else
      case open_record nd (parts ! 1) app of (app, file) \<Rightarrow>
      andthen (hls_writer nd key app) (\<lambda>(app, src).
      andthen (NewQueue (nd_al nd) (nd_wl nd) (app_conf app) src ssrc key
                 (RTP_QUEUE_PADDING_WINDOW_SIZE (app_conf app)) NewFlvRecord file) (\<lambda>q.
      let r = next_queue app in
      Ok (app\<lparr>app_queues := (app_queues app)(r := q), next_queue := r + 1,
              RtpQueueMap := (RtpQueueMap app)(ssrc \<mapsto> r)\<rparr>, r))))))"

definition handleNewPacket :: "('l, 'm, 'f, 'w, 'x) Node \<Rightarrow> RtpPack \<Rightarrow> ('l, 'm, 'f, 'w, 'x) App \<Rightarrow> ('l, 'm, 'f, 'w, 'x) App go" where
  "handleNewPacket nd rp app =
     andthen (case RtpQueueMap app (SSRC rp) of Some r \<Rightarrow> Ok (app, r) | None \<Rightarrow> handleNewStream nd (SSRC rp) app) (\<lambda>(app, r).
     andthen (chan_send (InChan (app_queues app r)) (Some rp)) (\<lambda>c.
       Ok (app\<lparr>app_queues := (app_queues app)(r := (app_queues app r)\<lparr>InChan := c\<rparr>)\<rparr>)))"

text \<open>
  A queue's goroutine sees of an HLS source only the fields of the record \<open>Source\<close>: it works on them,
  and the rest of the source stays as it is.
\<close>

definition shared_view :: "('l, 'm, 'f, 'w, 'x) App \<Rightarrow> 'w Shared" where
  "shared_view app = (app_shared app)\<lparr>sources := \<lambda>r. Source.truncate (hw_heap (app_hls app) r)\<rparr>"

definition store_shared :: "'w Shared \<Rightarrow> ('l, 'm, 'f, 'w, 'x) App \<Rightarrow> ('l, 'm, 'f, 'w, 'x) App" where
  "store_shared sh app = app\<lparr>app_shared := sh, app_hls := (app_hls app)\<lparr>hw_heap :=
     \<lambda>r. Source.extend (sources sh r) (Source.more (hw_heap (app_hls app) r))\<rparr>\<rparr>"

text \<open>The goroutine of a queue: one packet from its channel. \<open>None\<close> is a loop that does not end.\<close>

definition queue_goroutine :: "('l, 'm, 'f, 'w, 'x) Node \<Rightarrow> nat \<Rightarrow> ('l, 'm, 'f, 'w, 'x) App \<Rightarrow> ('l, 'm, 'f, 'w, 'x) App go option" where
  "queue_goroutine nd r app =
     (case chan_recv (InChan (app_queues app r)) of
        Ok (Some p, c) \<Rightarrow>
          (case RecvPacket_one (nd_env nd) (app_conf app) (nd_al nd) (nd_wl nd) p
                  ((app_queues app r)\<lparr>InChan := c\<rparr>, shared_view app) of
             None \<Rightarrow> None
           | Some (Ok (q, sh)) \<Rightarrow> Some (Ok (store_shared sh (app\<lparr>app_queues := (app_queues app)(r := q)\<rparr>)))
           | Some (Panic e) \<Rightarrow> Some (Panic e)
           | Some Blocked \<Rightarrow> Some Blocked)
      | Ok (None, c) \<Rightarrow> Some (Ok app)
      | Panic e \<Rightarrow> Some (Panic e)
      | Blocked \<Rightarrow> Some Blocked)"

subsection \<open>Handlers of HTTP requests\<close>

definition HandleNewFlvWriterRequest :: "('l, 'm, 'f, 'w, 'x) Node \<Rightarrow> string \<Rightarrow> nat \<Rightarrow> ('l, 'm, 'f, 'w, 'x) App
    \<Rightarrow> ('l, 'm, 'f, 'w, 'x) App go" where
  "HandleNewFlvWriterRequest nd key flvWriter app =
     (let ssrc = key_ssrc app key in
      andthen (nonnil (RtpQueueMap app ssrc)) (\<lambda>r.
      let q = app_queues app r in
      Ok (app\<lparr>app_queues := (app_queues app)(r := q\<lparr>FlvWriters := al_Add (nd_wl nd) (FlvWriters q) (Some flvWriter)\<rparr>)\<rparr>)))"

text \<open>The nil dereference for an unknown stream is recovered; the result is then zero.\<close>

definition HandleDelayRequest :: "string \<Rightarrow> ('l, 'm, 'f, 'w, 'x) App \<Rightarrow> int" where
  "HandleDelayRequest key app =
     (case andthen (nonnil (Publishers_map (app_shared app) (key_ssrc app key))) (\<lambda>p. Ok (StartTime p)) of
        Ok t \<Rightarrow> t | _ \<Rightarrow> 0)"

definition HasChannel :: "string \<Rightarrow> ('l, 'm, 'f, 'w, 'x) App \<Rightarrow> bool" where
  "HasChannel path app \<longleftrightarrow> key_ssrc app path \<noteq> 0"

definition new_writer :: "FLVWriter \<Rightarrow> ('l, 'm, 'f, 'w, 'x) App \<Rightarrow> nat \<times> ('l, 'm, 'f, 'w, 'x) App" where
  "new_writer w app = (let r = next_writer app; sh = app_shared app in
     (r, app\<lparr>next_writer := r + 1, app_shared := sh\<lparr>writers := (writers sh)(r := w)\<rparr>\<rparr>))"

definition MyHttpHandler :: "('l, 'm, 'f, 'w, 'x) Node \<Rightarrow> ('l, 'm, 'f, 'w, 'x) App HttpHandler" where
  "MyHttpHandler nd = \<lparr>hh_HandleNewFlvWriterRequest = HandleNewFlvWriterRequest nd,
     hh_HandleDelayRequest = HandleDelayRequest, hh_HasChannel = HasChannel, hh_new = new_writer\<rparr>"

subsection \<open>Receiving\<close>

text \<open>
  The socket: an address with a host part is that of a multicast group, one without is a port on
  all interfaces.
\<close>

definition isMulticast :: "Config \<Rightarrow> bool" where
  "isMulticast cfg = (CHR ''.'' \<in> set (UDP_SOCKET_ADDR cfg) \<and> UDP_SOCKET_ADDR cfg ! 0 \<noteq> CHR ''.'')"

definition listen_addr :: "Config \<Rightarrow> string" where
  "listen_addr cfg = (if isMulticast cfg then UDP_SOCKET_ADDR cfg else ''0.0.0.0'' @ UDP_SOCKET_ADDR cfg)"

text \<open>\<open>dg_rand\<close> is the number below 10000 that \<open>IsPacketLoss\<close> draws for the datagram.\<close>

record Datagram =
  dg_data :: "byte list"
  dg_ip :: string
  dg_err :: "string option"
  dg_rand :: int

definition IsPacketLoss :: "Config \<Rightarrow> int \<Rightarrow> bool" where
  "IsPacketLoss cfg r = (if of_int r / 10000 \<ge> PACKET_LOSS_RATE cfg then False else True)"

definition udp_buffer :: "Datagram \<Rightarrow> slice" where
  "udp_buffer d = \<lparr>sl_mem = take 1300 (dg_data d) @ replicate (1300 - length (dg_data d)) 0,
     sl_len = min 1300 (length (dg_data d))\<rparr>"

definition port :: "byte \<Rightarrow> byte \<Rightarrow> string" where
  "port a b = '':'' @ Itoa (int (unat (push_bit 8 (ucast a) + ucast b :: u16)))"

text \<open>
  The first datagram: the cloud's address, and the initial message with the ports. The length that
  is tested is that of the buffer. The Boolean says that the loop continues with the next one.
\<close>

definition first_datagram :: "Datagram \<Rightarrow> Config \<Rightarrow> Config \<times> bool" where
  "first_datagram d cfg =
     (let buff = sl_mem (udp_buffer d);
          cfg = (if CLOUD_HOST cfg = [] then cfg\<lparr>CLOUD_HOST := dg_ip d\<rparr> else cfg)
      in if buff ! 0 = 48 \<and> buff ! 1 = 48 \<and> buff ! 2 = 48 \<and> buff ! 3 = 49 \<and> length buff = 8
         then (cfg\<lparr>QUIC_ADDR := port (buff ! 4) (buff ! 5), API_ADDR := port (buff ! 6) (buff ! 7), INIT := True\<rparr>, True)
         else (cfg, False))"

definition receiveRtp_round :: "('l, 'm, 'f, 'w, 'x) Node \<Rightarrow> Datagram \<Rightarrow> ('l, 'm, 'f, 'w, 'x) App \<times> bool
    \<Rightarrow> (('l, 'm, 'f, 'w, 'x) App \<times> bool) go" where
  "receiveRtp_round nd d = (\<lambda>(app, firstPkt).
     andthen (CheckError (dg_err d)) (\<lambda>_.
     case (if firstPkt then first_datagram d (app_conf app) else (app_conf app, False)) of (cfg, continue) \<Rightarrow>
     let app = app\<lparr>app_conf := cfg\<rparr> in
     if continue then Ok (app, False)
     else if IsPacketLoss cfg (dg_rand d) then Ok (app, False)
     else andthen (Parse (udp_buffer d)) (\<lambda>rp. case rp of
            None \<Rightarrow> Ok (app, False)
          | Some rp \<Rightarrow> andthen (handleNewPacket nd rp app) (\<lambda>app. Ok (app, False)))))"

fun receiveRtp :: "('l, 'm, 'f, 'w, 'x) Node \<Rightarrow> Datagram list \<Rightarrow> ('l, 'm, 'f, 'w, 'x) App \<times> bool
    \<Rightarrow> (('l, 'm, 'f, 'w, 'x) App \<times> bool) go" where
  "receiveRtp nd [] st = Ok st"
| "receiveRtp nd (d # ds) st = andthen (receiveRtp_round nd d st) (receiveRtp nd ds)"

subsection \<open>Liveness\<close>

text \<open>
  The loop over the streams of \<open>CheckAlive\<close>, in the order in which the map is traversed, and one
  round of the check.
\<close>

fun check_streams :: "('l, 'm, 'f, 'w, 'x) Node \<Rightarrow> u32 list \<Rightarrow> ('l, 'm, 'f, 'w, 'x) App \<Rightarrow> ('l, 'm, 'f, 'w, 'x) App go" where
  "check_streams nd [] app = Ok app"
| "check_streams nd (ssrc # order) app =
     (case Publishers_map (app_shared app) ssrc of
        Some info \<Rightarrow> check_streams nd order app
      | None \<Rightarrow>
        andthen (nonnil (RtpQueueMap app ssrc)) (\<lambda>r.
        let q = app_queues app r;
            app = app\<lparr>KeySsrcMap := (KeySsrcMap app)(ChannelKey q := None),
                      RtpQueueMap := (RtpQueueMap app)(Ssrc q := None)\<rparr>
        in case Queue_Close (q, app_shared app) of (q, sh) \<Rightarrow>
           andthen (CloseQuic (quic_lib (nd_env nd)) (quic sh)) (\<lambda>st.
             check_streams nd order
               (app\<lparr>app_queues := (app_queues app)(r := q), app_shared := sh\<lparr>quic := st\<rparr>\<rparr>))))"

definition CheckAlive_round :: "('l, 'm, 'f, 'w, 'x) Node \<Rightarrow> u32 list \<Rightarrow> ('l, 'm, 'f, 'w, 'x) App \<Rightarrow> ('l, 'm, 'f, 'w, 'x) App go" where
  "CheckAlive_round nd order app =
     (if \<not> INIT (app_conf app) then Ok app
      else case HttpGet (nd_env nd) (livestat_url (app_conf app)) (world (app_shared app)) of (res, n) \<Rightarrow>
        andthen (UpdatePublishers res) (\<lambda>pubs.
          check_streams nd order (app\<lparr>app_shared := (set_world n (app_shared app))\<lparr>Publishers_map := pubs\<rparr>\<rparr>)))"

end
