(* ===== verification/Node_Tables.thy ===== *)
theory Node_Tables
  imports Edge_Node
begin

text \<open>
  The tables of the edge node: the invariant that ties the keys of streams to their queues, that
  everything the node does preserves it, and what follows for dispatch and for HTTP clients.
\<close>

subsection \<open>The invariant\<close>

definition app_ok :: "('l, 'm, 'f, 'w, 'x) App \<Rightarrow> bool" where
  "app_ok app \<longleftrightarrow>
     (\<forall>key ssrc. KeySsrcMap app key = Some ssrc
        \<longrightarrow> (\<exists>r. RtpQueueMap app ssrc = Some r \<and> ChannelKey (app_queues app r) = key))
     \<and> (\<forall>ssrc r. RtpQueueMap app ssrc = Some r \<longrightarrow> r < next_queue app \<and> Ssrc (app_queues app r) = ssrc)"

lemma app_ok_ref: "app_ok app \<Longrightarrow> RtpQueueMap app a = Some r \<Longrightarrow> RtpQueueMap app b = Some r \<Longrightarrow> a = b"
  unfolding app_ok_def by metis

text \<open>Changing a queue keeps the invariant if its stream and its key stay the same.\<close>

lemma app_ok_queue:
  assumes "app_ok app" "Ssrc q = Ssrc (app_queues app r)" "ChannelKey q = ChannelKey (app_queues app r)"
  shows "app_ok (app\<lparr>app_queues := (app_queues app)(r := q)\<rparr>)"
proof -
  have "ChannelKey (((app_queues app)(r := q)) x) = ChannelKey (app_queues app x)"
      "Ssrc (((app_queues app)(r := q)) x) = Ssrc (app_queues app x)" for x
    using assms(2,3) by simp_all
  with assms(1) show ?thesis by (simp add: app_ok_def del: fun_upd_apply)
qed

lemma app_ok_frame [simp]:
  "app_ok (app\<lparr>app_shared := sh\<rparr>) = app_ok app" "app_ok (app\<lparr>app_conf := cfg\<rparr>) = app_ok app"
  "app_ok (app\<lparr>FlvFiles := l\<rparr>) = app_ok app" "app_ok (app\<lparr>next_file := n\<rparr>) = app_ok app"
  "app_ok (app\<lparr>next_writer := n\<rparr>) = app_ok app" "app_ok (app\<lparr>app_hls := h\<rparr>) = app_ok app"
  by (simp_all add: app_ok_def)

text \<open>The packets that wait in the channel of a stream.\<close>

definition pending :: "('l, 'm, 'f, 'w, 'x) App \<Rightarrow> u32 \<Rightarrow> RtpPack option list" where
  "pending app ssrc = (case RtpQueueMap app ssrc of None \<Rightarrow> [] | Some r \<Rightarrow> ch_buf (InChan (app_queues app r)))"

subsection \<open>New streams\<close>

lemma NewQueue_fields:
  assumes "NewQueue al wl cfg h ssrc key wz record f = Ok q"
  shows "Ssrc q = ssrc \<and> ChannelKey q = key \<and> ch_buf (InChan q) = []"
  using assms by (auto simp: NewQueue_def Let_def andthen_eq_Ok make_chan_int_def make_chan_def split: if_splits)

lemma open_record_frame:
  assumes "open_record nd ch app = (app', f)"
  shows "RtpQueueMap app' = RtpQueueMap app \<and> KeySsrcMap app' = KeySsrcMap app \<and> app_queues app' = app_queues app
    \<and> app_conf app' = app_conf app \<and> next_queue app' = next_queue app \<and> next_writer app' = next_writer app
    \<and> app_hls app' = app_hls app \<and> (\<exists>fs. app_shared app' = (app_shared app)\<lparr>files := fs\<rparr>)"
proof -
  have same: "\<exists>fs. sh = sh\<lparr>files := fs\<rparr>" for sh :: "'d Shared"
    by (rule exI [of _ "files sh"]) simp
  from assms show ?thesis
    by (auto simp: open_record_def Let_def same split: if_splits prod.splits option.splits)
qed

lemma hls_writer_frame:
  assumes "hls_writer nd key app = Ok (app', src)"
  shows "\<exists>h. app' = app\<lparr>app_hls := h\<rparr> \<and> (ENABLE_HLS (app_conf app) \<longrightarrow>
        GetWriter (nd_lg nd) (nd_listen nd (world (app_shared app))) (nd_now nd (world (app_shared app))) key (app_hls app)
          = Ok (h, src))
    \<and> (\<not> ENABLE_HLS (app_conf app) \<longrightarrow> h = app_hls app)"
  using assms by (auto simp: hls_writer_def andthen_eq_Ok split: if_splits intro: exI [of _ "app_hls app"])

text \<open>The creation of a stream, step by step, and everything that it changes in the node.\<close>

lemma new_stream_steps:
  assumes "handleNewStream nd ssrc app = Ok (app', r)"
  obtains res n pubs pub app_l app_o rf app_h src q where
    "HttpGet (nd_env nd) (livestat_url (app_conf app)) (world (app_shared app)) = (res, n)" "pubs ssrc = Some pub"
    "app_l = app\<lparr>app_shared := (set_world n (app_shared app))\<lparr>Publishers_map := pubs\<rparr>, KeySsrcMap := (KeySsrcMap app)(Key pub \<mapsto> ssrc)\<rparr>"
    "open_record nd (SplitN (Key pub) CHR ''/'' 2 ! 1) app_l = (app_o, rf)" "hls_writer nd (Key pub) app_o = Ok (app_h, src)"
    "NewQueue (nd_al nd) (nd_wl nd) (app_conf app_h) src ssrc (Key pub) (RTP_QUEUE_PADDING_WINDOW_SIZE (app_conf app_h)) NewFlvRecord rf = Ok q"
    "app' = app_h\<lparr>app_queues := (app_queues app_h)(r := q), next_queue := r + 1, RtpQueueMap := (RtpQueueMap app_h)(ssrc \<mapsto> r)\<rparr>"
    "r = next_queue app_h"
proof -
  obtain res n where h: "HttpGet (nd_env nd) (livestat_url (app_conf app)) (world (app_shared app)) = (res, n)" by force
  obtain pubs where p: "UpdatePublishers res = Ok pubs" using assms h by (auto simp: handleNewStream_def andthen_eq_Ok)
  let ?app = "app\<lparr>app_shared := (set_world n (app_shared app))\<lparr>Publishers_map := pubs\<rparr>\<rparr>"
  obtain pub where pub: "pubs ssrc = Some pub"
    using assms h p by (auto simp: handleNewStream_def nonnil_def split: option.splits)
  let ?app2 = "?app\<lparr>KeySsrcMap := (KeySsrcMap app)(Key pub \<mapsto> ssrc)\<rparr>"
  obtain app3 rf where o: "open_record nd (SplitN (Key pub) CHR ''/'' 2 ! 1) ?app2 = (app3, rf)" by force
  obtain app4 src q where q: "hls_writer nd (Key pub) app3 = Ok (app4, src)"
      "NewQueue (nd_al nd) (nd_wl nd) (app_conf app4) src ssrc (Key pub)
        (RTP_QUEUE_PADDING_WINDOW_SIZE (app_conf app4)) NewFlvRecord rf = Ok q"
      "app' = app4\<lparr>app_queues := (app_queues app4)(r := q), next_queue := r + 1,
        RtpQueueMap := (RtpQueueMap app4)(ssrc \<mapsto> r)\<rparr>" "r = next_queue app4"
    using assms h p pub o
    by (auto simp: handleNewStream_def nonnil_def Let_def andthen_eq_Ok split: if_splits)
  show thesis by (rule that [where app_l = ?app2]) (rule h pub refl o q)+
qed

lemma handleNewStream_Ok:
  assumes "handleNewStream nd ssrc app = Ok (app', r)"
  obtains key q res n pub src rf where
    "r = next_queue app" "HttpGet (nd_env nd) (livestat_url (app_conf app)) (world (app_shared app)) = (res, n)"
    "RtpQueueMap app' = (RtpQueueMap app)(ssrc \<mapsto> r)" "KeySsrcMap app' = (KeySsrcMap app)(key \<mapsto> ssrc)"
    "app_queues app' = (app_queues app)(r := q)" "next_queue app' = next_queue app + 1"
    "app_conf app' = app_conf app" "next_writer app' = next_writer app"
    "Publishers_map (app_shared app') ssrc = Some pub" "Key pub = key"
    "writers (app_shared app') = writers (app_shared app)" "quic (app_shared app') = (quic (app_shared app))\<lparr>net := n\<rparr>"
    "NewQueue (nd_al nd) (nd_wl nd) (app_conf app) src ssrc key (RTP_QUEUE_PADDING_WINDOW_SIZE (app_conf app))
       NewFlvRecord rf = Ok q"
    "ENABLE_HLS (app_conf app) \<Longrightarrow> GetWriter (nd_lg nd) (nd_listen nd n) (nd_now nd n) key (app_hls app) = Ok (app_hls app', src)"
    "\<not> ENABLE_HLS (app_conf app) \<Longrightarrow> app_hls app' = app_hls app"
proof -
  obtain res n pubs pub app3 rf app4 src q where h: "HttpGet (nd_env nd) (livestat_url (app_conf app)) (world (app_shared app)) = (res, n)"
      and pub: "pubs ssrc = Some pub"
      and o: "open_record nd (SplitN (Key pub) CHR ''/'' 2 ! 1) (app\<lparr>app_shared := (set_world n (app_shared app))\<lparr>Publishers_map := pubs\<rparr>,
        KeySsrcMap := (KeySsrcMap app)(Key pub \<mapsto> ssrc)\<rparr>) = (app3, rf)"
      and q: "hls_writer nd (Key pub) app3 = Ok (app4, src)"
      "NewQueue (nd_al nd) (nd_wl nd) (app_conf app4) src ssrc (Key pub)
        (RTP_QUEUE_PADDING_WINDOW_SIZE (app_conf app4)) NewFlvRecord rf = Ok q"
      "app' = app4\<lparr>app_queues := (app_queues app4)(r := q), next_queue := r + 1,
        RtpQueueMap := (RtpQueueMap app4)(ssrc \<mapsto> r)\<rparr>" "r = next_queue app4"
    by (rule new_stream_steps [OF assms]) blast
  let ?app2 = "app\<lparr>app_shared := (set_world n (app_shared app))\<lparr>Publishers_map := pubs\<rparr>, KeySsrcMap := (KeySsrcMap app)(Key pub \<mapsto> ssrc)\<rparr>"
  obtain fs where o': "app_shared app3 = (app_shared ?app2)\<lparr>files := fs\<rparr>" "app_conf app3 = app_conf app"
      "RtpQueueMap app3 = RtpQueueMap app" "KeySsrcMap app3 = (KeySsrcMap app)(Key pub \<mapsto> ssrc)"
      "app_queues app3 = app_queues app" "next_queue app3 = next_queue app" "next_writer app3 = next_writer app"
      "app_hls app3 = app_hls app"
    using open_record_frame [OF o] by auto
  obtain h where h': "app4 = app3\<lparr>app_hls := h\<rparr>"
      "ENABLE_HLS (app_conf app) \<Longrightarrow> GetWriter (nd_lg nd) (nd_listen nd n) (nd_now nd n) (Key pub) (app_hls app) = Ok (h, src)"
      "\<not> ENABLE_HLS (app_conf app) \<Longrightarrow> h = app_hls app"
    using hls_writer_frame [OF q(1)] by (auto simp: o')
  have r: "r = next_queue app" using q(4) by (simp add: h'(1) o')
  have nq: "NewQueue (nd_al nd) (nd_wl nd) (app_conf app) src ssrc (Key pub)
      (RTP_QUEUE_PADDING_WINDOW_SIZE (app_conf app)) NewFlvRecord rf = Ok q"
    using q(2) by (simp add: h'(1) o')
  have "app_hls app' = h" "RtpQueueMap app' = (RtpQueueMap app)(ssrc \<mapsto> r)"
      "KeySsrcMap app' = (KeySsrcMap app)(Key pub \<mapsto> ssrc)" "app_queues app' = (app_queues app)(r := q)"
      "next_queue app' = next_queue app + 1" "app_conf app' = app_conf app" "next_writer app' = next_writer app"
      "Publishers_map (app_shared app') ssrc = Some pub" "writers (app_shared app') = writers (app_shared app)"
      "quic (app_shared app') = (quic (app_shared app))\<lparr>net := n\<rparr>"
    by (simp_all add: q(3) h'(1) o' pub r)
  with that [OF r h _ _ _ _ _ _ _ refl _ _ nq] h'(2,3) show thesis by simp
qed

lemma app_ok_new:
  assumes "app_ok app" "handleNewStream nd ssrc app = Ok (app', r)" "RtpQueueMap app ssrc = None"
  shows "app_ok app' \<and> pending app' = pending app \<and> RtpQueueMap app' ssrc = Some r \<and> app_conf app' = app_conf app"
proof -
  obtain key q where n: "r = next_queue app" "RtpQueueMap app' = (RtpQueueMap app)(ssrc \<mapsto> r)"
      "KeySsrcMap app' = (KeySsrcMap app)(key \<mapsto> ssrc)" "app_queues app' = (app_queues app)(r := q)"
      "next_queue app' = next_queue app + 1" "app_conf app' = app_conf app"
      "Ssrc q = ssrc" "ChannelKey q = key" "ch_buf (InChan q) = []"
  proof (rule handleNewStream_Ok [OF assms(2)], goal_cases)
    case (1 key q res n pub src rf)
    with NewQueue_fields [OF 1(14)] that [of key q] show ?case by simp
  qed
  have fresh: "RtpQueueMap app s \<noteq> Some r" for s using assms(1) n(1) by (auto simp: app_ok_def)
  have old: "\<exists>x. RtpQueueMap app s = Some x \<and> ChannelKey (app_queues app x) = k" if "KeySsrcMap app k = Some s" for k s
    using assms(1) that by (simp add: app_ok_def)
  have "app_ok app'"
    unfolding app_ok_def n(2-5)
  proof (intro conjI allI impI)
    fix k s assume "((KeySsrcMap app)(key \<mapsto> ssrc)) k = Some s"
    then show "\<exists>x. ((RtpQueueMap app)(ssrc \<mapsto> r)) s = Some x \<and> ChannelKey (((app_queues app)(r := q)) x) = k"
    proof (cases "k = key")
      case True
      with \<open>((KeySsrcMap app)(key \<mapsto> ssrc)) k = Some s\<close> n(8) show ?thesis by (intro exI [of _ r]) simp
    next
      case False
      with \<open>((KeySsrcMap app)(key \<mapsto> ssrc)) k = Some s\<close> obtain x where
        "RtpQueueMap app s = Some x" "ChannelKey (app_queues app x) = k" using old [of k s] by auto
      with assms(3) fresh [of s] show ?thesis by (intro exI [of _ x]) auto
    qed
  next
    fix s x assume "((RtpQueueMap app)(ssrc \<mapsto> r)) s = Some x"
    then show "x < next_queue app + 1" "Ssrc (((app_queues app)(r := q)) x) = s"
      using assms(1) fresh [of s] n(1,7) by (auto simp: app_ok_def less_SucI split: if_splits)
  qed
  moreover have "pending app' s = pending app s" for s
    using assms(3) fresh [of s] n(9) by (auto simp: pending_def n(2,4) split: option.split)
  ultimately show ?thesis using n(2,6) by auto
qed

lemma app_ok_packet:
  assumes "app_ok app" "handleNewPacket nd rp app = Ok app'"
  shows "app_ok app' \<and> app_conf app' = app_conf app
    \<and> pending app' ssrc = pending app ssrc @ (if SSRC rp = ssrc then [Some rp] else [])"
proof -
  obtain app1 r where s: "(case RtpQueueMap app (SSRC rp) of Some r \<Rightarrow> Ok (app, r)
        | None \<Rightarrow> handleNewStream nd (SSRC rp) app) = Ok (app1, r)"
      "andthen (chan_send (InChan (app_queues app1 r)) (Some rp)) (\<lambda>c.
        Ok (app1\<lparr>app_queues := (app_queues app1)(r := (app_queues app1 r)\<lparr>InChan := c\<rparr>)\<rparr>)) = Ok app'"
    using assms(2) by (auto simp: handleNewPacket_def andthen_eq_Ok)
  have a1: "app_ok app1 \<and> pending app1 = pending app \<and> RtpQueueMap app1 (SSRC rp) = Some r \<and> app_conf app1 = app_conf app"
  proof (cases "RtpQueueMap app (SSRC rp)")
    case None
    with s(1) app_ok_new [OF assms(1), of nd "SSRC rp" app1 r] show ?thesis by simp
  next
    case (Some x)
    with s(1) assms(1) show ?thesis by simp
  qed
  from s(2) obtain c where c: "c = (InChan (app_queues app1 r))\<lparr>ch_buf := ch_buf (InChan (app_queues app1 r)) @ [Some rp]\<rparr>"
      "app' = app1\<lparr>app_queues := (app_queues app1)(r := (app_queues app1 r)\<lparr>InChan := c\<rparr>)\<rparr>"
    by (auto simp: andthen_eq_Ok chan_send_Ok)
  have "app_ok app'" unfolding c(2) using a1 by (intro app_ok_queue) auto
  moreover have "pending app' ssrc = pending app1 ssrc @ (if SSRC rp = ssrc then [Some rp] else [])"
  proof (cases "SSRC rp = ssrc")
    case True
    have "RtpQueueMap app1 (SSRC rp) = Some r" using a1 by simp
    with True show ?thesis by (auto simp: pending_def c)
  next
    case False
    then have "RtpQueueMap app1 ssrc \<noteq> Some r" using a1 app_ok_ref by metis
    with False show ?thesis by (auto simp: pending_def c split: option.split)
  qed
  ultimately show ?thesis using a1 c(2) by auto
qed

subsection \<open>Everything else the node does\<close>

definition accepted :: "Config \<Rightarrow> Datagram \<Rightarrow> RtpPack list" where
  "accepted cfg d = (if IsPacketLoss cfg (dg_rand d) then []
     else case Parse (udp_buffer d) of Ok (Some rp) \<Rightarrow> [rp] | _ \<Rightarrow> [])"

lemma receive_round_ok:
  assumes "app_ok app" "receiveRtp_round nd d (app, False) = Ok (app', f)"
  shows "app_ok app' \<and> app_conf app' = app_conf app \<and> \<not> f
    \<and> pending app' ssrc = pending app ssrc @ map Some (filter (\<lambda>rp. SSRC rp = ssrc) (accepted (app_conf app) d))"
proof (cases "IsPacketLoss (app_conf app) (dg_rand d)")
  case True
  with assms show ?thesis by (auto simp: receiveRtp_round_def accepted_def andthen_eq_Ok)
next
  case False
  have eta: "app\<lparr>app_conf := app_conf app\<rparr> = app" by simp
  from False assms(2) obtain rp where rp: "Parse (udp_buffer d) = Ok rp"
      "(case rp of None \<Rightarrow> Ok (app, False)
        | Some rp \<Rightarrow> andthen (handleNewPacket nd rp app) (\<lambda>app. Ok (app, False))) = Ok (app', f)"
    by (auto simp: receiveRtp_round_def andthen_eq_Ok eta)
  show ?thesis
  proof (cases rp)
    case None
    with rp assms(1) show ?thesis by (simp add: accepted_def)
  next
    case (Some p)
    with rp(2) have "handleNewPacket nd p app = Ok app'" "\<not> f" by (auto simp: andthen_eq_Ok)
    with app_ok_packet [OF assms(1) this(1), of ssrc] rp(1) Some False show ?thesis
      by (simp add: accepted_def)
  qed
qed

text \<open>The first datagram only sets the address of the cloud node: its buffer has 1300 bytes.\<close>

lemma first_datagram_eq:
  "first_datagram d cfg = (if CLOUD_HOST cfg = [] then cfg\<lparr>CLOUD_HOST := dg_ip d\<rparr> else cfg, False)"
proof -
  have "length (sl_mem (udp_buffer d)) = 1300" by (simp add: udp_buffer_def min_def)
  then show ?thesis by (simp add: first_datagram_def Let_def)
qed

lemma receive_first:
  "receiveRtp_round nd d (app, True) = receiveRtp_round nd d (app\<lparr>app_conf := fst (first_datagram d (app_conf app))\<rparr>, False)"
  by (simp add: receiveRtp_round_def first_datagram_eq)

lemma accepted_host [simp]: "accepted (cfg\<lparr>CLOUD_HOST := h\<rparr>) = accepted cfg"
  by (simp add: accepted_def IsPacketLoss_def fun_eq_iff)

lemma receive_round_any:
  assumes "app_ok app" "receiveRtp_round nd d (app, first) = Ok (app', f)"
  shows "app_ok app' \<and> INIT (app_conf app') = INIT (app_conf app) \<and> accepted (app_conf app') = accepted (app_conf app)
    \<and> pending app' ssrc = pending app ssrc @ map Some (filter (\<lambda>rp. SSRC rp = ssrc) (accepted (app_conf app) d))"
proof (cases first)
  case True
  let ?app = "app\<lparr>app_conf := fst (first_datagram d (app_conf app))\<rparr>"
  have r: "receiveRtp_round nd d (?app, False) = Ok (app', f)" using assms(2) True by (simp add: receive_first)
  have p: "pending ?app ssrc = pending app ssrc" by (simp add: pending_def split: option.split)
  from receive_round_ok [OF _ r, of ssrc] assms(1) show ?thesis unfolding p by (auto simp: first_datagram_eq)
next
  case False
  with receive_round_ok [OF assms(1)] assms(2) show ?thesis by simp
qed

lemma receive_ok:
  assumes "app_ok app" "receiveRtp nd ds (app, first) = Ok (app', f)"
  shows "pending app' ssrc = pending app ssrc
      @ map Some (filter (\<lambda>rp. SSRC rp = ssrc) (concat (map (accepted (app_conf app)) ds)))"
  using assms
proof (induction ds arbitrary: app first)
  case (Cons d ds)
  then obtain app1 f1 where r: "receiveRtp_round nd d (app, first) = Ok (app1, f1)"
      "receiveRtp nd ds (app1, f1) = Ok (app', f)"
    by (auto simp: andthen_eq_Ok)
  from receive_round_any [OF Cons.prems(1) r(1), of ssrc] Cons.IH [OF _ r(2)] show ?case by auto
qed simp

lemma queue_goroutine_Ok:
  assumes "queue_goroutine nd r app = Some (Ok app')"
  obtains (idle) "app' = app"
    | (packet) p c q sh where "chan_recv (InChan (app_queues app r)) = Ok (Some p, c)"
      "RecvPacket_one (nd_env nd) (app_conf app) (nd_al nd) (nd_wl nd) p
          ((app_queues app r)\<lparr>InChan := c\<rparr>, shared_view app) = Some (Ok (q, sh))"
      "app' = store_shared sh (app\<lparr>app_queues := (app_queues app)(r := q)\<rparr>)"
proof (cases "chan_recv (InChan (app_queues app r))")
  case (Ok xc)
  obtain x c where xc: "xc = (x, c)" by (cases xc)
  show thesis
  proof (cases x)
    case None
    with idle assms Ok xc show thesis by (simp add: queue_goroutine_def)
  next
    case (Some p)
    with assms Ok xc packet [of p c] show thesis
      by (simp add: queue_goroutine_def split: option.splits go.splits prod.splits)
  qed
qed (use assms in \<open>simp_all add: queue_goroutine_def\<close>)

lemma store_shared_fields [simp]:
  "RtpQueueMap (store_shared sh app) = RtpQueueMap app" "KeySsrcMap (store_shared sh app) = KeySsrcMap app"
  "app_queues (store_shared sh app) = app_queues app" "app_conf (store_shared sh app) = app_conf app"
  "next_queue (store_shared sh app) = next_queue app" "next_writer (store_shared sh app) = next_writer app"
  "app_shared (store_shared sh app) = sh" "app_ok (store_shared sh app) = app_ok app"
  by (simp_all add: store_shared_def)

lemma queue_goroutine_ok:
  assumes "app_ok app" "queue_goroutine nd r app = Some (Ok app')"
  shows "app_ok app' \<and> app_conf app' = app_conf app"
  using assms(2)
proof (cases rule: queue_goroutine_Ok)
  case (packet p c q sh)
  then have "app_ok (app\<lparr>app_queues := (app_queues app)(r := q)\<rparr>)"
    using RecvPacket_one_ident [OF packet(2)] by (intro app_ok_queue assms(1)) simp_all
  with packet(3) show ?thesis by simp
qed (use assms(1) in simp)

lemma check_streams_ok:
  assumes "app_ok app" "check_streams nd order app = Ok app'" "distinct order" "set order \<subseteq> dom (RtpQueueMap app)"
  shows "app_ok app' \<and> app_conf app' = app_conf app"
  using assms
proof (induction order arbitrary: app)
  case (Cons ssrc order)
  show ?case
  proof (cases "Publishers_map (app_shared app) ssrc")
    case (Some info)
    with Cons show ?thesis by simp
  next
    case None
    obtain r where r: "RtpQueueMap app ssrc = Some r" using Cons.prems(4) by auto
    let ?q = "app_queues app r"
    have ssrc: "Ssrc ?q = ssrc" using Cons.prems(1) r by (simp add: app_ok_def)
    let ?app = "app\<lparr>KeySsrcMap := (KeySsrcMap app)(ChannelKey ?q := None), RtpQueueMap := (RtpQueueMap app)(ssrc := None)\<rparr>"
    obtain q sh where c: "Queue_Close (?q, app_shared app) = (q, sh)" by force
    obtain st where st: "CloseQuic (quic_lib (nd_env nd)) (quic sh) = Ok st"
        "check_streams nd order (?app\<lparr>app_queues := (app_queues app)(r := q), app_shared := sh\<lparr>quic := st\<rparr>\<rparr>) = Ok app'"
      using Cons.prems(2) None r c ssrc by (auto simp: nonnil_def Let_def andthen_eq_Ok)
    have other: "RtpQueueMap app s \<noteq> Some r" if "s \<noteq> ssrc" for s
      using app_ok_ref [OF Cons.prems(1) r] that by blast
    have ok: "app_ok (?app\<lparr>app_queues := (app_queues app)(r := q), app_shared := sh\<lparr>quic := st\<rparr>\<rparr>)"
      unfolding app_ok_def
    proof (intro conjI allI impI, goal_cases)
      case (1 k s)
      then have "k \<noteq> ChannelKey ?q" "KeySsrcMap app k = Some s" by (simp_all split: if_splits)
      then obtain x where "RtpQueueMap app s = Some x" "ChannelKey (app_queues app x) = k"
        using Cons.prems(1) unfolding app_ok_def by blast
      moreover from this r \<open>k \<noteq> ChannelKey ?q\<close> have "s \<noteq> ssrc" "x \<noteq> r" by auto
      ultimately show ?case by simp
    next
      case (2 s x)
      then show ?case using Cons.prems(1) by (auto simp: app_ok_def split: if_splits)
    next
      case (3 s x)
      then have "s \<noteq> ssrc" "RtpQueueMap app s = Some x" by (simp_all split: if_splits)
      with other [of s] Cons.prems(1) show ?case by (auto simp: app_ok_def)
    qed
    have "set order \<subseteq> dom (RtpQueueMap (?app\<lparr>app_queues := (app_queues app)(r := q), app_shared := sh\<lparr>quic := st\<rparr>\<rparr>))"
      using Cons.prems(3,4) by auto
    from Cons.IH [OF ok st(2) _ this] Cons.prems(3) show ?thesis by simp
  qed
qed simp

lemma CheckAlive_ok:
  assumes "app_ok app" "CheckAlive_round nd order app = Ok app'" "distinct order" "set order = dom (RtpQueueMap app)"
  shows "app_ok app' \<and> app_conf app' = app_conf app"
proof (cases "INIT (app_conf app)")
  case True
  with assms(2) obtain res n pubs where
    "check_streams nd order (app\<lparr>app_shared := (set_world n (app_shared app))\<lparr>Publishers_map := pubs\<rparr>\<rparr>) = Ok app'"
    by (cases "HttpGet (nd_env nd) (livestat_url (app_conf app)) (world (app_shared app))")
      (auto simp: CheckAlive_round_def andthen_eq_Ok)
  from check_streams_ok [OF _ this assms(3)] assms(1,4) show ?thesis by simp
next
  case False
  with assms show ?thesis by (simp add: CheckAlive_round_def)
qed

subsection \<open>Runs\<close>

text \<open>
  What happens in the node: the HTTP-FLV server settles its certificates, a datagram arrives, a
  queue's goroutine takes a packet, a request is answered or a client connects, the liveness check
  runs, a client's sender writes a tag or fails, a client disconnects, an HLS source's goroutine
  takes a packet, the HLS table is cleaned up. The Boolean of a state is the variable \<open>firstPkt\<close> of
  the receive loop.
\<close>

datatype node_event = Configured | Received Datagram | Handled nat | Answered | Connected nat | Checked
  | Sent nat | Failed nat | Disconnected nat | Segmented nat | Swept

definition set_writer :: "nat \<Rightarrow> FLVWriter \<Rightarrow> ('l, 'm, 'f, 'w, 'x) App \<Rightarrow> ('l, 'm, 'f, 'w, 'x) App" where
  "set_writer x w app = app\<lparr>app_shared := (app_shared app)\<lparr>writers := (writers (app_shared app))(x := w)\<rparr>\<rparr>"

definition set_source :: "nat \<Rightarrow> 'x HlsSource \<Rightarrow> ('l, 'm, 'f, 'w, 'x) App \<Rightarrow> ('l, 'm, 'f, 'w, 'x) App" where
  "set_source r src app = app\<lparr>app_hls := (app_hls app)\<lparr>hw_heap := (hw_heap (app_hls app))(r := src)\<rparr>\<rparr>"

inductive node_step :: "('l, 'm, 'f, 'w, 'x) Node \<Rightarrow> ('l, 'm, 'f, 'w, 'x) App \<times> bool \<Rightarrow> node_event
    \<Rightarrow> ('l, 'm, 'f, 'w, 'x) App \<times> bool \<Rightarrow> bool" for nd :: "('l, 'm, 'f, 'w, 'x) Node" where
  step_certs: "node_step nd (app, first) Configured (app\<lparr>app_conf := StartHTTPFlv stat (app_conf app)\<rparr>, first)"
| step_receive: "receiveRtp_round nd d (app, first) = Ok (app', first')
    \<Longrightarrow> node_step nd (app, first) (Received d) (app', first')"
| step_queue: "r < next_queue app \<Longrightarrow> queue_goroutine nd r app = Some (Ok app')
    \<Longrightarrow> node_step nd (app, first) (Handled r) (app', first)"
| step_answer: "handleConn (MyHttpHandler nd) uid c addr u app = Answer resp app'
    \<Longrightarrow> node_step nd (app, first) Answered (app', first)"
| step_client: "handleConn (MyHttpHandler nd) uid c addr u app = Streaming x app'
    \<Longrightarrow> node_step nd (app, first) (Connected x) (app', first)"
| step_alive: "distinct order \<Longrightarrow> set order = dom (RtpQueueMap app) \<Longrightarrow> CheckAlive_round nd order app = Ok app'
    \<Longrightarrow> node_step nd (app, first) Checked (app', first)"
| step_sent: "x < next_writer app \<Longrightarrow> \<not> Closed (writers (app_shared app) x)
    \<Longrightarrow> SendPacket_round (writers (app_shared app) x) = Ok (w, None)
    \<Longrightarrow> node_step nd (app, first) (Sent x) (set_writer x w app, first)"
| step_failed: "x < next_writer app \<Longrightarrow> \<not> Closed (writers (app_shared app) x)
    \<Longrightarrow> SendPacket_round (writers (app_shared app) x) = Ok (w, Some e)
    \<Longrightarrow> node_step nd (app, first) (Failed x) (set_writer x (w\<lparr>Closed := True\<rparr>) app, first)"
| step_disconnect: "x < next_writer app \<Longrightarrow> w = writers (app_shared app) x
    \<Longrightarrow> node_step nd (app, first) (Disconnected x) (set_writer x (w\<lparr>ctx := (ctx w)\<lparr>hw_broken := True\<rparr>\<rparr>) app, first)"
| step_segment: "r < hw_next (app_hls app) \<Longrightarrow> src = hw_heap (app_hls app) r
    \<Longrightarrow> source_goroutine (nd_lg nd) now src = Ok src'
    \<Longrightarrow> node_step nd (app, first) (Segmented r) (set_source r src' app, first)"
| step_sweep: "hw_server (app_hls app) = Some conns
    \<Longrightarrow> node_step nd (app, first) Swept (app\<lparr>app_hls := (app_hls app)\<lparr>hw_server := Some (checkStop_round alive conns)\<rparr>\<rparr>, first)"

inductive node_trace :: "('l, 'm, 'f, 'w, 'x) Node \<Rightarrow> ('l, 'm, 'f, 'w, 'x) App \<times> bool \<Rightarrow> node_event list
    \<Rightarrow> ('l, 'm, 'f, 'w, 'x) App \<times> bool \<Rightarrow> bool" for nd :: "('l, 'm, 'f, 'w, 'x) Node" and st where
  trace_nil: "node_trace nd st [] st"
| trace_snoc: "node_trace nd st evs st' \<Longrightarrow> node_step nd st' e st'' \<Longrightarrow> node_trace nd st (evs @ [e]) st''"

text \<open>The states of the node: those it reaches after \<open>main\<close> has created its tables.\<close>

definition node_run :: "('l, 'm, 'f, 'w, 'x) Node \<Rightarrow> Config \<Rightarrow> ('l, 'm, 'f, 'w, 'x) App \<Rightarrow> bool \<Rightarrow> bool" where
  "node_run nd cfg app first \<longleftrightarrow>
     (\<exists>sh qs heap evs. node_trace nd (main_App nd cfg sh qs heap, True) evs (app, first))"

lemma node_run_main: "node_run nd cfg (main_App nd cfg sh qs heap) True"
  unfolding node_run_def by (blast intro: trace_nil)

lemma node_run_step: "node_run nd cfg app first \<Longrightarrow> node_step nd (app, first) e (app', first') \<Longrightarrow> node_run nd cfg app' first'"
  unfolding node_run_def by (blast intro: trace_snoc)

lemma node_run_trace:
  assumes "node_trace nd st evs st'" "node_run nd cfg (fst st) (snd st)"
  shows "node_run nd cfg (fst st') (snd st')"
  using assms
proof (induction rule: node_trace.induct)
  case (trace_snoc evs st' e st'')
  then show ?case by (cases st'; cases st'') (auto intro: node_run_step)
qed simp

lemma node_run_induct [consumes 1, case_names main step]:
  assumes "node_run nd cfg app first"
    and main: "\<And>sh qs heap. P (main_App nd cfg sh qs heap) True"
    and step: "\<And>app first e app' first'. node_run nd cfg app first \<Longrightarrow> P app first
      \<Longrightarrow> node_step nd (app, first) e (app', first') \<Longrightarrow> P app' first'"
  shows "P app first"
proof -
  have "node_run nd cfg (fst st') (snd st') \<and> P (fst st') (snd st')"
    if "node_trace nd st evs st'" "\<exists>sh qs heap. st = (main_App nd cfg sh qs heap, True)" for st evs st'
    using that
  proof (induction rule: node_trace.induct)
    case trace_nil
    then show ?case using main by (auto intro: node_run_main)
  next
    case (trace_snoc evs st' e st'')
    then show ?case using step by (cases st'; cases st'') (auto intro: node_run_step)
  qed
  with assms(1) show ?thesis unfolding node_run_def by fastforce
qed

subsection \<open>The node as a handler of HTTP requests\<close>

definition clients :: "('l, 'm, 'f, 'w, 'x) Node \<Rightarrow> ('l, 'm, 'f, 'w, 'x) App \<Rightarrow> string \<Rightarrow> nat list" where
  "clients nd app key = (case KeySsrcMap app key of
     None \<Rightarrow> []
   | Some ssrc \<Rightarrow> (case RtpQueueMap app ssrc of
       None \<Rightarrow> []
     | Some r \<Rightarrow> map the (filter (\<lambda>w. w \<noteq> None) (al_Values (nd_wl nd) (FlvWriters (app_queues app r))))))"

locale edge_node = arraylist "nd_wl nd" for nd :: "('l, 'm, 'f, 'w, 'x) Node"
begin

lemma register_client:
  assumes "app_ok app" "HasChannel key app"
  shows "\<exists>app'. HandleNewFlvWriterRequest nd key w app = Ok app' \<and> app_ok app' \<and> app_shared app' = app_shared app
    \<and> app_conf app' = app_conf app \<and> clients nd app' key = clients nd app key @ [w]"
proof -
  obtain ssrc where k: "KeySsrcMap app key = Some ssrc"
    using assms(2) by (auto simp: HasChannel_def key_ssrc_def split: option.splits)
  then obtain r where r: "RtpQueueMap app ssrc = Some r" using assms(1) unfolding app_ok_def by blast
  let ?q = "(app_queues app r)\<lparr>FlvWriters := al_Add (nd_wl nd) (FlvWriters (app_queues app r)) (Some w)\<rparr>"
  let ?app = "app\<lparr>app_queues := (app_queues app)(r := ?q)\<rparr>"
  have "HandleNewFlvWriterRequest nd key w app = Ok ?app"
    using k r by (simp add: HandleNewFlvWriterRequest_def key_ssrc_def nonnil_def Let_def)
  moreover have "app_ok ?app" by (rule app_ok_queue [OF assms(1)]) simp_all
  moreover have "clients nd ?app key = clients nd app key @ [w]"
    using k r by (simp add: clients_def values_add)
  ultimately show ?thesis by auto
qed

end

sublocale edge_node \<subseteq> handler: flv_handler "MyHttpHandler nd" app_ok "clients nd" "\<lambda>app. writers (app_shared app)"
proof
  fix app app' :: "('l, 'm, 'f, 'w, 'x) App" and w r key
  assume "app_ok app" "hh_new (MyHttpHandler nd) w app = (r, app')"
  then show "app_ok app' \<and> hh_HasChannel (MyHttpHandler nd) key app' = hh_HasChannel (MyHttpHandler nd) key app
      \<and> clients nd app' = clients nd app \<and> writers (app_shared app') = (writers (app_shared app))(r := w)"
    by (auto simp: MyHttpHandler_def new_writer_def Let_def HasChannel_def key_ssrc_def clients_def fun_eq_iff
        split: option.split)
next
  fix app :: "('l, 'm, 'f, 'w, 'x) App" and key r
  assume "app_ok app" "hh_HasChannel (MyHttpHandler nd) key app"
  then show "\<exists>app'. hh_HandleNewFlvWriterRequest (MyHttpHandler nd) key r app = Ok app' \<and> app_ok app'
      \<and> writers (app_shared app') = writers (app_shared app) \<and> clients nd app' key = clients nd app key @ [r]"
    using register_client [of app key r] by (auto simp: MyHttpHandler_def)
qed

end
