(* ===== verification/Quic_Service.thy ===== *)
theory Quic_Service
  imports Queue_Window "HOL-Library.Sublist"
begin

text \<open>
  The exchange with the cloud node that answers retransmission requests. The node and the QUIC
  library are outside the repository. The locale \<open>cloud_io\<close> is what they document: streams deliver what
  was written, in order; any operation may fail; a write without an error has written all bytes, and
  one with an error a part of them; a read delivers at most as many bytes as were asked for, and
  possibly fewer. The node answers each request, four bytes SSRC and two bytes sequence number on the
  information stream, with the length of the cached packet (zero if it has none) there and the
  packet on the data stream. The locale \<open>cloud_node\<close> adds that nothing fails and that reads are full.
\<close>

record cloud =
  c_request :: "byte list"
  c_info :: "byte list"
  c_data :: "byte list"

definition no_traffic :: cloud where
  "no_traffic = \<lparr>c_request = [], c_info = [], c_data = []\<rparr>"

definition serve :: "(u32 \<Rightarrow> u16 \<Rightarrow> byte list) \<Rightarrow> cloud \<Rightarrow> byte list \<Rightarrow> cloud" where
  "serve store c bs =
     (let r = c_request c @ bs in
      if length r < 6 then c\<lparr>c_request := r\<rparr>
      else let p = store (be32 (r ! 0) (r ! 1) (r ! 2) (r ! 3)) (be16 (r ! 4) (r ! 5)) in
        \<lparr>c_request = drop 6 r, c_info = c_info c @ put16 (word_of_nat (length p)), c_data = c_data c @ p\<rparr>)"

lemma serve_request:
  "serve store (serve store no_traffic (put32 ssrc)) (put16 seq)
     = \<lparr>c_request = [], c_info = put16 (word_of_nat (length (store ssrc seq))), c_data = store ssrc seq\<rparr>"
  by (simp add: serve_def no_traffic_def put32_def put16_def Let_def be32_put32 be16_put16)

text \<open>Between two requests: not connected, or connected with nothing in flight.\<close>

definition idle :: "('w \<Rightarrow> cloud) \<Rightarrow> nat \<Rightarrow> nat \<Rightarrow> nat \<Rightarrow> 'w quic_state \<Rightarrow> bool" where
  "idle view sess info data st = (case QuicConn st of None \<Rightarrow> True
     | Some c \<Rightarrow> view (net st) = no_traffic \<and> Connection c = sess \<and> infoStream c = Some info
         \<and> (dataStream c = None \<or> dataStream c = Some data))"

locale cloud_io =
  fixes qg :: "'w quic_go" and view :: "'w \<Rightarrow> cloud" and store :: "u32 \<Rightarrow> u16 \<Rightarrow> byte list"
    and sess info data :: nat
  assumes dial_io: "DialAddr qg addr n = (Inr s, n') \<Longrightarrow> s = sess \<and> view n' = no_traffic"
    and open_io: "OpenStream qg sess n = (r, n') \<Longrightarrow> view n' = view n \<and> (\<forall>s. r = Inr s \<longrightarrow> s = info)"
    and accept_io: "AcceptStream qg sess n = (r, n') \<Longrightarrow> view n' = view n \<and> (\<forall>s. r = Inr s \<longrightarrow> s = data)"
    and write_io: "StreamWrite qg info bs n = (e, n')
      \<Longrightarrow> \<exists>j \<le> length bs. (e = None \<longrightarrow> j = length bs) \<and> view n' = serve store (view n) (take j bs)"
    and read_info_io: "StreamRead qg info k n = ((bs, e), n') \<Longrightarrow> length bs \<le> k \<and> prefix bs (c_info (view n))
      \<and> view n' = (view n)\<lparr>c_info := drop (length bs) (c_info (view n))\<rparr>"
    and read_data_io: "StreamRead qg data k n = ((bs, e), n') \<Longrightarrow> length bs \<le> k \<and> prefix bs (c_data (view n))
      \<and> view n' = (view n)\<lparr>c_data := drop (length bs) (c_data (view n))\<rparr>"
    and store_fits: "length (store ssrc seq) < 65536"

text \<open>A read without an error has delivered everything that was asked for.\<close>

definition full_reads :: "'w quic_go \<Rightarrow> bool" where
  "full_reads qg \<longleftrightarrow> (\<forall>s k n bs n'. StreamRead qg s k n = ((bs, None), n') \<longrightarrow> length bs = k)"

text \<open>What a received length field means.\<close>

definition length_field :: "byte list \<Rightarrow> u16" where
  "length_field bs = be16 (read_into 2 bs ! 0) (read_into 2 bs ! 1)"

lemma length_read_into [simp]: "length (read_into k bs) = k"
  by (simp add: read_into_def)

lemma length_field_put16: "length_field (put16 v) = v"
  by (simp add: length_field_def read_into_def) (simp add: put16_def be16_put16)

lemma length_field_Nil: "length_field [] = 0"
  by (simp add: length_field_def read_into_def be16_def numeral_2_eq_2)

context cloud_io
begin

text \<open>A successful \<open>ReadRtp\<close>, whatever the reads have delivered.\<close>

lemma ReadRtp_io:
  assumes "ReadRtp qg c n = Ok (c', Inr pkt, n')" "Connection c = sess" "infoStream c = Some info"
    and "dataStream c = None \<or> dataStream c = Some data"
  obtains bs ds where "prefix bs (c_info (view n))" "prefix ds (c_data (view n))" "length_field bs \<noteq> 0"
    "length ds \<le> unat (length_field bs)" "Parse (of_bytes (read_into (unat (length_field bs)) ds)) = Ok pkt"
    "view n' = (view n)\<lparr>c_info := drop (length bs) (c_info (view n)), c_data := drop (length ds) (c_data (view n))\<rparr>"
    "c' = c\<lparr>dataStream := Some data\<rparr>" "full_reads qg \<longrightarrow> length bs = 2 \<and> length ds = unat (length_field bs)"
proof -
  let ?c = "c\<lparr>dataStream := Some data\<rparr>"
  have same: "dataStream c = Some data \<Longrightarrow> ?c = c" by (cases c) simp
  obtain n1 where n1: "(if dataStream c = None then
              (case AcceptStream qg (Connection c) n of
                 (Inl e, n) \<Rightarrow> (Some e, c, n)
               | (Inr s, n) \<Rightarrow> (None, c\<lparr>dataStream := Some s\<rparr>, n))
            else (None, c, n)) = (None, ?c, n1)" "view n1 = view n"
  proof (cases "dataStream c = None")
    case True
    obtain r m where a: "AcceptStream qg sess n = (r, m)" by force
    with assms(1,2) True obtain s where "r = Inr s" by (cases r) (auto simp: ReadRtp_def)
    with accept_io [OF a] a True assms(2) that show thesis by auto
  next
    case False
    with assms(4) same that show thesis by auto
  qed
  obtain b e n2 where b: "StreamRead qg info 2 n1 = ((b, e), n2)" by (metis surj_pair)
  have u: "Uint16 (of_bytes (read_into 2 b)) = Ok (length_field b)"
    by (simp add: Uint16_def length_field_def)
  have e: "e = None" and k: "length_field b \<noteq> 0"
    using assms(1) n1(1) assms(3) b u by (auto simp: ReadRtp_def ReadLen_def split: option.splits if_splits)
  obtain d e' n3 where d: "StreamRead qg data (unat (length_field b)) n2 = ((d, e'), n3)" by (metis surj_pair)
  have r: "e' = None \<and> Parse (of_bytes (read_into (unat (length_field b)) d)) = Ok pkt \<and> c' = ?c \<and> n' = n3"
    using assms(1) n1(1) assms(3) b u e k d by (auto simp: ReadRtp_def ReadLen_def andthen_eq_Ok split: option.splits)
  show thesis
  proof (rule that)
    show "prefix b (c_info (view n))" using read_info_io [OF b] n1(2) by simp
    show "prefix d (c_data (view n))" "length d \<le> unat (length_field b)"
      using read_data_io [OF d] read_info_io [OF b] n1(2) by simp_all
    show "view n' = (view n)\<lparr>c_info := drop (length b) (c_info (view n)), c_data := drop (length d) (c_data (view n))\<rparr>"
      using read_data_io [OF d] read_info_io [OF b] n1(2) r by simp
    show "full_reads qg \<longrightarrow> length b = 2 \<and> length d = unat (length_field b)"
      using b d e r unfolding full_reads_def by blast
  qed (use k r in simp_all)
qed

text \<open>The two parts of a request: both arrive completely, or the node answers nothing.\<close>

lemma serve_parts:
  assumes "i \<le> 4" "j \<le> 2"
  shows "serve store (serve store no_traffic (take i (put32 ssrc))) (take j (put16 seq))
      = \<lparr>c_request = [], c_info = put16 (word_of_nat (length (store ssrc seq))), c_data = store ssrc seq\<rparr>
    \<or> c_info (serve store (serve store no_traffic (take i (put32 ssrc))) (take j (put16 seq))) = []"
proof (cases "i = 4 \<and> j = 2")
  case True
  then have "take i (put32 ssrc) = put32 ssrc" "take j (put16 seq) = put16 seq" by (simp_all add: put32_def put16_def)
  with serve_request [of store ssrc seq] show ?thesis by simp
next
  case False
  then have "length (take i (put32 ssrc)) + length (take j (put16 seq)) < 6" using assms by (auto simp: min_def)
  then show ?thesis by (simp add: serve_def no_traffic_def)
qed

lemma initQuic_io:
  assumes "initQuic qg cfg n = Ok (Some c, n')"
  shows "c = \<lparr>Connection = sess, infoStream = Some info, dataStream = None\<rparr> \<and> view n' = no_traffic"
proof -
  obtain s n1 where d: "DialAddr qg (CLOUD_HOST cfg @ QUIC_ADDR cfg) n = (Inr s, n1)"
    using assms by (auto simp: initQuic_def split: prod.splits sum.splits)
  obtain r n2 where o: "OpenStream qg sess n1 = (r, n2)" by force
  with dial_io [OF d] open_io [OF o] d assms show ?thesis
    by (cases r) (auto simp: initQuic_def newConn_def)
qed

text \<open>How \<open>GetByQuic\<close> comes to read: with or without a new connection, after writes that may have failed.\<close>

lemma GetByQuic_reads:
  assumes "idle view sess info data st" "\<not> DISABLE_QUIC cfg" "GetByQuic qg cfg ssrc seq st = Ok (Some p, st')"
  obtains c n c' n' where "Connection c = sess" "infoStream c = Some info" "dataStream c = None \<or> dataStream c = Some data"
    "view n = \<lparr>c_request = [], c_info = put16 (word_of_nat (length (store ssrc seq))), c_data = store ssrc seq\<rparr>
      \<or> c_info (view n) = []"
    "ReadRtp qg c n = Ok (c', Inr (Some p), n')" "st' = st\<lparr>QuicConn := Some c', net := n'\<rparr>"
proof -
  let ?ready = "\<lambda>c n. Connection c = sess \<and> infoStream c = Some info \<and> (dataStream c = None \<or> dataStream c = Some data)
    \<and> view n = no_traffic"
  have fresh: "?ready c n'" if "initQuic qg cfg n = Ok (Some c, n')" for n c n' using initQuic_io [OF that] by simp
  obtain conn n0 where c0: "(if QuicConn st = None then initQuic qg cfg (net st) else Ok (QuicConn st, net st)) = Ok (conn, n0)"
    using assms(2,3) by (auto simp: GetByQuic_def andthen_eq_Ok)
  with assms(2,3) obtain c1 where c1: "conn = Some c1"
    by (cases conn) (auto simp: GetByQuic_def andthen_eq_Ok nonnil_def)
  have ready1: "?ready c1 n0"
    using c0 c1 assms(1) fresh by (cases "QuicConn st") (auto simp: idle_def)
  obtain e1 n1 where w1: "StreamWrite qg info (put32 ssrc) n0 = (e1, n1)" by force
  have ws: "WriteSsrc qg c ssrc n = Ok (StreamWrite qg info (put32 ssrc) n)" "WriteSeq qg c seq n = Ok (StreamWrite qg info (put16 seq) n)"
    if "infoStream c = Some info" for c n
    using that by (simp_all add: WriteSsrc_def WriteSeq_def stream_put_def)
  let ?sent = "if e1 = None then Ok (c1, n1) else andthen (initQuic qg cfg n1) (\<lambda>(conn, n). andthen (nonnil conn) (\<lambda>c.
      andthen (WriteSsrc qg c ssrc n) (\<lambda>(_, n). Ok (c, n))))"
  have run: "andthen ?sent (\<lambda>(c, n). andthen (WriteSeq qg c seq n) (\<lambda>(_, n). andthen (ReadRtp qg c n) (\<lambda>(c, r, n).
        let st = st\<lparr>QuicConn := Some c, net := n\<rparr> in
        case r of Inl e \<Rightarrow> Ok (None, st) | Inr None \<Rightarrow> Ok (None, st) | Inr (Some pkt) \<Rightarrow> Ok (Some pkt, st)))) = Ok (Some p, st')"
    using assms(2,3) c0 c1 ws(1) [of c1 n0] ready1 w1 by (simp add: GetByQuic_def nonnil_def)
  then obtain c n2 where s: "?sent = Ok (c, n2)" by (auto simp: andthen_eq_Ok)
  have "\<exists>n i. ?ready c n \<and> i \<le> 4 \<and> view n2 = serve store (view n) (take i (put32 ssrc))"
  proof (cases "e1 = None")
    case True
    with s have "c = c1" "n2 = n1" by simp_all
    moreover obtain i where "i \<le> 4" "view n1 = serve store (view n0) (take i (put32 ssrc))"
      using write_io [OF w1] by auto
    ultimately show ?thesis using ready1 by metis
  next
    case False
    with s obtain m where m: "initQuic qg cfg n1 = Ok (Some c, m)" "n2 = snd (StreamWrite qg info (put32 ssrc) m)"
      using ws(1) initQuic_io
      by (auto simp: andthen_eq_Ok nonnil_def split: option.splits) (metis Conn.select_convs(2) fst_conv go.inject(1) snd_conv ws(1))
    obtain e n3 where "StreamWrite qg info (put32 ssrc) m = (e, n3)" by force
    moreover obtain i where "i \<le> 4" "view n3 = serve store (view m) (take i (put32 ssrc))"
      using write_io [OF calculation] by auto
    ultimately show ?thesis using fresh [OF m(1)] m(2) by (metis snd_conv)
  qed
  then obtain i where c: "Connection c = sess" "infoStream c = Some info" "dataStream c = None \<or> dataStream c = Some data"
      and i: "i \<le> 4" "view n2 = serve store no_traffic (take i (put32 ssrc))"
    by auto
  obtain e3 n3 where w3: "StreamWrite qg info (put16 seq) n2 = (e3, n3)" by force
  obtain j where j: "j \<le> 2" "view n3 = serve store (view n2) (take j (put16 seq))"
    using write_io [OF w3] by auto
  from run s ws(2) [OF c(2), of n2] w3 obtain c' r n' where
    r: "ReadRtp qg c n3 = Ok (c', r, n')" "(let st = st\<lparr>QuicConn := Some c', net := n'\<rparr> in
        case r of Inl e \<Rightarrow> Ok (None, st) | Inr None \<Rightarrow> Ok (None, st) | Inr (Some pkt) \<Rightarrow> Ok (Some pkt, st)) = Ok (Some p, st')"
    by (auto simp: andthen_eq_Ok)
  then have "r = Inr (Some p)" "st' = st\<lparr>QuicConn := Some c', net := n'\<rparr>"
    by (auto simp: Let_def split: sum.splits option.splits)
  with r(1) that [OF c _ _ this(2), of n3] serve_parts [OF i(1) j(1), of ssrc seq] i(2) j(2) show thesis by metis
qed

text \<open>What a returned packet is made of, and what it is if reads are full.\<close>

lemma GetByQuic_packet:
  assumes "idle view sess info data st" "\<not> DISABLE_QUIC cfg" "GetByQuic qg cfg ssrc seq st = Ok (Some p, st')"
  shows "\<exists>k m. m \<le> k \<and> Parse (of_bytes (take m (store ssrc seq) @ replicate (k - m) 0)) = Ok (Some p)"
    and "full_reads qg \<Longrightarrow> Parse (of_bytes (store ssrc seq)) = Ok (Some p) \<and> idle view sess info data st'"
proof -
  obtain c n c' n' where c: "Connection c = sess" "infoStream c = Some info" "dataStream c = None \<or> dataStream c = Some data"
    and v: "view n = \<lparr>c_request = [], c_info = put16 (word_of_nat (length (store ssrc seq))), c_data = store ssrc seq\<rparr>
      \<or> c_info (view n) = []"
    and r: "ReadRtp qg c n = Ok (c', Inr (Some p), n')" "st' = st\<lparr>QuicConn := Some c', net := n'\<rparr>"
    by (rule GetByQuic_reads [OF assms])
  obtain bs ds where b: "prefix bs (c_info (view n))" "prefix ds (c_data (view n))" "length_field bs \<noteq> 0"
    "length ds \<le> unat (length_field bs)" "Parse (of_bytes (read_into (unat (length_field bs)) ds)) = Ok (Some p)"
    "view n' = (view n)\<lparr>c_info := drop (length bs) (c_info (view n)), c_data := drop (length ds) (c_data (view n))\<rparr>"
    "c' = c\<lparr>dataStream := Some data\<rparr>" "full_reads qg \<longrightarrow> length bs = 2 \<and> length ds = unat (length_field bs)"
    using ReadRtp_io [OF r(1) c] by blast
  let ?l = "unat (length_field bs)" and ?p = "store ssrc seq"
  have v: "view n = \<lparr>c_request = [], c_info = put16 (word_of_nat (length ?p)), c_data = ?p\<rparr>"
    using v b(1,3) length_field_Nil by auto
  have ds: "ds = take (length ds) ?p" using b(2) v by (auto simp: prefix_def)
  have "read_into ?l ds = take (length ds) ?p @ replicate (?l - length ds) 0"
    using b(4) ds by (simp add: read_into_def)
  with b(4,5) show "\<exists>k m. m \<le> k \<and> Parse (of_bytes (take m ?p @ replicate (k - m) 0)) = Ok (Some p)" by metis
  assume full: "full_reads qg"
  have "bs = take (length bs) (put16 (word_of_nat (length ?p)))"
    using b(1) v by (auto simp: prefix_def)
  then have "bs = put16 (word_of_nat (length ?p))" using b(8) full by (simp add: put16_def)
  then have l: "?l = length ?p" using unat_of_nat_u16 [OF store_fits] by (simp add: length_field_put16)
  then have "ds = ?p" using ds b(8) full by simp
  moreover have "read_into (length ?p) ?p = ?p" by (simp add: read_into_def)
  ultimately have "Parse (of_bytes ?p) = Ok (Some p)" using b(5) l by simp
  moreover have "view n' = no_traffic"
    using b(6,8) full v \<open>ds = ?p\<close> l by (simp add: no_traffic_def)
  ultimately show "Parse (of_bytes ?p) = Ok (Some p) \<and> idle view sess info data st'"
    using c b(7) r(2) by (simp add: idle_def)
qed

end

subsection \<open>A node that never fails\<close>

locale cloud_node = cloud_io +
  assumes dial_ok: "\<exists>s n'. DialAddr qg addr n = (Inr s, n')"
    and open_ok: "\<exists>s n'. OpenStream qg sess n = (Inr s, n')"
    and accept_ok: "\<exists>s n'. AcceptStream qg sess n = (Inr s, n')"
    and write_ok: "\<exists>n'. StreamWrite qg info bs n = (None, n')"
    and read_info_ok: "k \<le> length (c_info (view n)) \<Longrightarrow> \<exists>bs n'. length bs = k \<and> StreamRead qg info k n = ((bs, None), n')"
    and read_data_ok: "k \<le> length (c_data (view n)) \<Longrightarrow> \<exists>bs n'. length bs = k \<and> StreamRead qg data k n = ((bs, None), n')"
begin

lemma dial: "\<exists>n'. DialAddr qg addr n = (Inr sess, n') \<and> view n' = no_traffic"
  using dial_ok dial_io by metis

lemma open_stream: "\<exists>n'. OpenStream qg sess n = (Inr info, n') \<and> view n' = view n"
  using open_ok open_io by metis

lemma accept_stream: "\<exists>n'. AcceptStream qg sess n = (Inr data, n') \<and> view n' = view n"
  using accept_ok accept_io by metis

lemma stream_write: "\<exists>n'. StreamWrite qg info bs n = (None, n') \<and> view n' = serve store (view n) bs"
proof -
  obtain n' where w: "StreamWrite qg info bs n = (None, n')" using write_ok by blast
  with write_io [OF w] show ?thesis by auto
qed

lemma read_info:
  assumes "k \<le> length (c_info (view n))"
  shows "\<exists>n'. StreamRead qg info k n = ((take k (c_info (view n)), None), n') \<and> view n' = (view n)\<lparr>c_info := drop k (c_info (view n))\<rparr>"
proof -
  obtain bs n' where r: "length bs = k" "StreamRead qg info k n = ((bs, None), n')" using read_info_ok [OF assms] by blast
  with read_info_io [OF r(2)] show ?thesis by (auto simp: prefix_def)
qed

lemma read_data:
  assumes "k \<le> length (c_data (view n))"
  shows "\<exists>n'. StreamRead qg data k n = ((take k (c_data (view n)), None), n') \<and> view n' = (view n)\<lparr>c_data := drop k (c_data (view n))\<rparr>"
proof -
  obtain bs n' where r: "length bs = k" "StreamRead qg data k n = ((bs, None), n')" using read_data_ok [OF assms] by blast
  with read_data_io [OF r(2)] show ?thesis by (auto simp: prefix_def)
qed

lemma initQuic_Ok:
  "\<exists>n'. initQuic qg cfg n = Ok (Some \<lparr>Connection = sess, infoStream = Some info, dataStream = None\<rparr>, n')
     \<and> view n' = no_traffic"
proof -
  obtain n1 where "DialAddr qg (CLOUD_HOST cfg @ QUIC_ADDR cfg) n = (Inr sess, n1)" "view n1 = no_traffic"
    using dial by blast
  moreover obtain n2 where "OpenStream qg sess n1 = (Inr info, n2)" "view n2 = view n1"
    using open_stream by blast
  ultimately show ?thesis by (simp add: initQuic_def newConn_def)
qed

lemma read_into_exact: "length bs = k \<Longrightarrow> read_into k bs = bs"
  by (simp add: read_into_def)

lemma ReadLen_Ok:
  assumes "infoStream c = Some info" "c_info (view n) = put16 k"
  shows "\<exists>n'. ReadLen qg c n = Ok (c, Inr k, n') \<and> view n' = (view n)\<lparr>c_info := []\<rparr>"
proof -
  obtain n' where "StreamRead qg info 2 n = ((put16 k, None), n')" "view n' = (view n)\<lparr>c_info := []\<rparr>"
    using read_info [of 2 n] assms(2) by auto
  with assms(1) show ?thesis
    by (simp add: ReadLen_def read_into_exact Uint16_def) (simp add: put16_def be16_put16)
qed

lemma ReadRtp_Ok:
  assumes "Connection c = sess" "infoStream c = Some info" "dataStream c = None \<or> dataStream c = Some data"
    and "view n = \<lparr>c_request = [], c_info = put16 (word_of_nat (length p)), c_data = p\<rparr>" "length p < 65536"
  shows "\<exists>n' e. view n' = no_traffic \<and> ReadRtp qg c n =
      (if p = [] then Ok (c\<lparr>dataStream := Some data\<rparr>, Inl e, n')
       else andthen (Parse (of_bytes p)) (\<lambda>pkt. Ok (c\<lparr>dataStream := Some data\<rparr>, Inr pkt, n')))"
proof -
  let ?c = "c\<lparr>dataStream := Some data\<rparr>"
  obtain n1 where n1: "(if dataStream c = None then
              (case AcceptStream qg (Connection c) n of
                 (Inl e, n) \<Rightarrow> (Some e, c, n)
               | (Inr s, n) \<Rightarrow> (None, c\<lparr>dataStream := Some s\<rparr>, n))
            else (None, c, n)) = (None, ?c, n1)" "view n1 = view n"
    using accept_stream [of n] assms(1,3) by (cases "dataStream c = None") auto
  obtain n2 where n2: "ReadLen qg ?c n1 = Ok (?c, Inr (word_of_nat (length p)), n2)"
      "view n2 = \<lparr>c_request = [], c_info = [], c_data = p\<rparr>"
    using ReadLen_Ok [of ?c n1 "word_of_nat (length p)"] assms(2,4) n1(2) by auto
  obtain n3 where n3: "StreamRead qg data (length p) n2 = ((p, None), n3)" "view n3 = no_traffic"
    using read_data [of "length p" n2] n2(2) by (auto simp: no_traffic_def)
  have "(word_of_nat (length p) :: u16) = 0 \<longleftrightarrow> p = []"
    using unat_of_nat_u16 [OF assms(5)] by (metis length_0_conv unat_0 unat_eq_zero)
  then show ?thesis
    using n1(1) n2 n3 unat_of_nat_u16 [OF assms(5)] read_into_exact [of p "length p"]
    by (cases "p = []") (auto simp: ReadRtp_def no_traffic_def)
qed

lemma WriteSsrc_WriteSeq:
  assumes "infoStream c = Some info" "view n = no_traffic"
  shows "\<exists>n1 n2. WriteSsrc qg c ssrc n = Ok (None, n1) \<and> WriteSeq qg c seq n1 = Ok (None, n2)
    \<and> view n2 = \<lparr>c_request = [], c_info = put16 (word_of_nat (length (store ssrc seq))), c_data = store ssrc seq\<rparr>"
proof -
  obtain n1 where "StreamWrite qg info (put32 ssrc) n = (None, n1)" "view n1 = serve store no_traffic (put32 ssrc)"
    using stream_write assms(2) by metis
  moreover obtain n2 where "StreamWrite qg info (put16 seq) n1 = (None, n2)"
      "view n2 = serve store (serve store no_traffic (put32 ssrc)) (put16 seq)"
    using stream_write calculation(2) by metis
  ultimately show ?thesis
    using assms(1) by (simp add: WriteSsrc_def WriteSeq_def stream_put_def serve_request)
qed

text \<open>A request returns what the node has stored, and leaves the connection ready for the next.\<close>

lemma GetByQuic_Ok:
  assumes "idle view sess info data st" "\<not> DISABLE_QUIC cfg"
  shows "\<exists>st'. idle view sess info data st' \<and> GetByQuic qg cfg ssrc seq st =
    (if store ssrc seq = [] then Ok (None, st')
     else andthen (Parse (of_bytes (store ssrc seq))) (\<lambda>r. Ok (r, st')))"
proof -
  obtain c n where c: "(if QuicConn st = None then initQuic qg cfg (net st) else Ok (QuicConn st, net st))
        = Ok (Some c, n)" "view n = no_traffic" "Connection c = sess" "infoStream c = Some info"
      "dataStream c = None \<or> dataStream c = Some data"
    using assms(1) initQuic_Ok [of cfg "net st"] by (cases "QuicConn st") (auto simp: idle_def)
  obtain n1 n2 where w: "WriteSsrc qg c ssrc n = Ok (None, n1)" "WriteSeq qg c seq n1 = Ok (None, n2)"
      "view n2 = \<lparr>c_request = [], c_info = put16 (word_of_nat (length (store ssrc seq))), c_data = store ssrc seq\<rparr>"
    using WriteSsrc_WriteSeq [OF c(4,2)] by blast
  let ?c = "c\<lparr>dataStream := Some data\<rparr>"
  obtain n3 e where r: "view n3 = no_traffic" "ReadRtp qg c n2 =
      (if store ssrc seq = [] then Ok (?c, Inl e, n3)
       else andthen (Parse (of_bytes (store ssrc seq))) (\<lambda>pkt. Ok (?c, Inr pkt, n3)))"
    using ReadRtp_Ok [OF c(3-5) w(3) store_fits] by blast
  let ?st = "st\<lparr>QuicConn := Some ?c, net := n3\<rparr>"
  have "idle view sess info data ?st" using r(1) c by (simp add: idle_def)
  moreover have "GetByQuic qg cfg ssrc seq st =
    (if store ssrc seq = [] then Ok (None, ?st)
     else andthen (Parse (of_bytes (store ssrc seq))) (\<lambda>r. Ok (r, ?st)))"
    using assms(2) c(1) w(1,2) r(2)
    by (cases "Parse (of_bytes (store ssrc seq))")
      (auto simp: GetByQuic_def nonnil_def Let_def split: option.splits)
  ultimately show ?thesis by blast
qed

end

subsection \<open>The node as a retransmission service\<close>

text \<open>
  The node caches the stream's packets under their sequence numbers, and the other effects of the
  goroutine on the outside world do not touch its connection. If \<open>answering\<close>, it has every packet.
\<close>

definition caches :: "(u32 \<Rightarrow> u16 \<Rightarrow> byte list) \<Rightarrow> u32 \<Rightarrow> bool \<Rightarrow> bool" where
  "caches store ssrc answering \<longleftrightarrow>
     (\<forall>seq p. Parse (of_bytes (store ssrc seq)) = Ok (Some p) \<longrightarrow> SequenceNumber p = seq)
     \<and> (answering \<longrightarrow> (\<forall>seq. store ssrc seq \<noteq> [] \<and> Parse (of_bytes (store ssrc seq)) \<noteq> Ok None))"

locale cloud_env = cloud_node "quic_lib env" view store sess info data
  for env :: "'w Env" and view store sess info data +
  fixes cfg :: Config and ssrc :: u32 and answering :: bool
  assumes enabled: "\<not> DISABLE_QUIC cfg"
    and caches: "caches store ssrc answering"
    and buffer_keeps: "SetReadBuffer env k n = (e, n') \<Longrightarrow> view n' = view n"
    and http_keeps: "HttpGet env u n = (hr, n') \<Longrightarrow> view n' = view n"
    and time_keeps: "view (SetPreTime env i n) = view n"
begin

lemma idle_net:
  assumes "idle view sess info data st" "view n = view (net st)"
  shows "idle view sess info data (st\<lparr>net := n\<rparr>)"
  using assms by (simp add: idle_def split: option.splits)

lemma GetByQuic_result:
  assumes "idle view sess info data st" "GetByQuic (quic_lib env) cfg ssrc seq st = Ok (r, st')"
  shows "idle view sess info data st'"
    and "r = None \<and> store ssrc seq = [] \<or> Parse (of_bytes (store ssrc seq)) = Ok r"
  using GetByQuic_Ok [OF assms(1) enabled, of ssrc seq] assms(2)
  by (cases "Parse (of_bytes (store ssrc seq))"; auto split: if_splits)+

end

sublocale cloud_env \<subseteq> retransmission env cfg ssrc "idle view sess info data" answering
    "\<lambda>p. Parse (of_bytes (store ssrc (SequenceNumber p))) = Ok (Some p)"
proof unfold_locales
  fix st st' seq r e hr n k u i
  assume "idle view sess info data st"
  note idle = this idle_net [OF this]
  show "GetByQuic (quic_lib env) cfg ssrc seq st = Ok (r, st') \<Longrightarrow> idle view sess info data st'"
    using GetByQuic_result [OF idle(1)] by blast
  show "SetReadBuffer env k (net st) = (e, n) \<Longrightarrow> idle view sess info data (st\<lparr>net := n\<rparr>)"
    using idle(2) buffer_keeps by blast
  show "HttpGet env u (net st) = (hr, n) \<Longrightarrow> idle view sess info data (st\<lparr>net := n\<rparr>)"
    using idle(2) http_keeps by blast
  show "idle view sess info data (st\<lparr>net := SetPreTime env i (net st)\<rparr>)"
    by (intro idle(2) time_keeps)
  show "answering \<Longrightarrow> GetByQuic (quic_lib env) cfg ssrc seq st = Ok (r, st') \<Longrightarrow> r \<noteq> None"
    using GetByQuic_result(2) [OF idle(1)] caches by (metis caches_def)
next
  fix st st' seq p
  assume "idle view sess info data st" "GetByQuic (quic_lib env) cfg ssrc seq st = Ok (Some p, st')"
  then have "Parse (of_bytes (store ssrc seq)) = Ok (Some p)"
    using GetByQuic_result(2) by blast
  moreover from this have "SequenceNumber p = seq"
    using caches by (simp add: caches_def)
  ultimately show "SequenceNumber p = seq \<and> Parse (of_bytes (store ssrc (SequenceNumber p))) = Ok (Some p)"
    by simp
qed

subsection \<open>A node in memory\<close>

text \<open>
  A node that has every packet of every stream, each carrying a small audio tag, shows that the
  contract can be met.
\<close>

definition node_store :: "u32 \<Rightarrow> u16 \<Rightarrow> byte list" where
  "node_store ssrc seq = rtp_wire 2 True 97 seq 0 ssrc [] None
     [8, 0, 0, 2, 0, 0, 0, 0, 0, 0, 0, 175, 1] 0"

definition node_quic :: "cloud quic_go" where
  "node_quic = \<lparr>DialAddr = \<lambda>addr n. (Inr 0, no_traffic), OpenStream = \<lambda>sess n. (Inr 1, n),
     AcceptStream = \<lambda>sess n. (Inr 2, n),
     StreamRead = \<lambda>h k n. if h = 1 then ((take k (c_info n), None), n\<lparr>c_info := drop k (c_info n)\<rparr>)
       else ((take k (c_data n), None), n\<lparr>c_data := drop k (c_data n)\<rparr>),
     StreamWrite = \<lambda>h bs n. (None, serve node_store n bs), StreamClose = \<lambda>h n. (None, n)\<rparr>"

definition node_env :: "cloud Env" where
  "node_env = \<lparr>quic_lib = node_quic, SetReadBuffer = \<lambda>k n. (None, n), HttpGet = \<lambda>u n. (Transport_Error ''off'', n),
     UnixMilli = \<lambda>n. 0, av_Parse = \<lambda>tag b. Ok \<lparr>av_IsAudio = True, av_IsVideo = False,
       av_IsMetadata = False, av_TimeStamp = 0, av_Header = None, av_Data = tag\<rparr>, SetPreTime = \<lambda>r n. n\<rparr>"

lemma Parse_node_store: "\<exists>p. Parse (of_bytes (node_store ssrc seq)) = Ok (Some p) \<and> SequenceNumber p = seq"
proof -
  let ?pl = "[8, 0, 0, 2, 0, 0, 0, 0, 0, 0, 0, 175, 1]"
  obtain p off where "Parse (of_bytes (node_store ssrc seq)) = Ok (Some (header_of (node_store ssrc seq) p off))"
    unfolding node_store_def
    using Parse_rtp_wire [of "[]" None ?pl 0 2 True 97 seq 0 ssrc] by auto
  moreover have "SequenceNumber (header_of (node_store ssrc seq) p off) = seq"
    by (simp add: header_of_def node_store_def rtp_wire_def put16_def be16_put16)
  ultimately show ?thesis by blast
qed

lemma caches_node_store: "caches node_store ssrc True"
  unfolding caches_def
proof (intro conjI allI impI)
  fix seq
  obtain p where p: "Parse (of_bytes (node_store ssrc seq)) = Ok (Some p)" "SequenceNumber p = seq"
    using Parse_node_store by blast
  show "Parse (of_bytes (node_store ssrc seq)) = Ok (Some p') \<Longrightarrow> SequenceNumber p' = seq" for p'
    using p by simp
  show "Parse (of_bytes (node_store ssrc seq)) \<noteq> Ok None" using p by simp
  show "node_store ssrc seq \<noteq> []" by (simp add: node_store_def rtp_wire_def)
qed

lemma drop_min_length: "drop (min (length xs) k) xs = drop k xs"
  by (cases "k \<le> length xs") (simp_all add: min_def)

lemma node_cloud_env:
  assumes "\<not> DISABLE_QUIC cfg"
  shows "cloud_env node_env id node_store 0 1 2 cfg ssrc True"
proof unfold_locales
  show "length (node_store ssrc' seq) < 65536" for ssrc' seq
    by (simp add: node_store_def rtp_wire_def words_wire_def ext_wire_def pad_wire_def)
qed (auto simp: caches_node_store node_env_def node_quic_def assms take_is_prefix drop_min_length)

interpretation node: cloud_env node_env id node_store 0 1 2 Conf ssrc True for ssrc
  by (rule node_cloud_env) (simp add: Conf_def)




subsection \<open>Property of the exchange\<close>




end
