(* ===== verification/Demo_Stream.thy ===== *)
theory Demo_Stream
  imports Quic_Service
begin

text \<open>
  A concrete stream, on which the properties of the queue are evaluated: it is served by the node
  in memory, its window is about to wrap around, and it has one client that has gone.
\<close>

definition demo_pack :: "u16 \<Rightarrow> RtpPack" where
  "demo_pack seq = \<lparr>Version = 2, Padding = False, Extension = False, CSRCCnt = 0, Marker = 1,
     PayloadType = 97, SequenceNumber = seq, Timestamp = 0, SSRC = 7,
     Payload = of_bytes [8, 0, 0, 2, 0, 0, 0, 0, 0, 0, 0, 175, 1], PayloadOffset = 12\<rparr>"

lemma demo_pack_seq [simp]: "SequenceNumber (demo_pack seq) = seq"
  by (simp add: demo_pack_def)

definition demo_file :: File where
  "demo_file = \<lparr>fd = \<lparr>fs_data = [], fs_pos = 0, fs_closed = False, fs_fail = False\<rparr>, fname = ''a.flv'',
     readOnly = False, fsize = 0, headerBuf = make_bytes 0, duration = 0, lastTimestamp = 0,
     firstTimestampSet = False, firstTimestamp = 0\<rparr>"

definition demo_writers :: "nat \<Rightarrow> FLVWriter" where
  "demo_writers r = (if r = 1 then demo_writer\<lparr>Closed := True\<rparr> else demo_writer)"

definition demo_stream :: "(RtpPack option list, nat option list, cloud) qs" where
  "demo_stream = (\<lparr>Ssrc = 7, ChannelKey = ''live/a'', FirstSeq = 65534, PaddingWindowSize = 2,
     queue = [Some (demo_pack 65534), None, Some (demo_pack 0)],
     outChan = make_chan 100, InChan = make_chan 100, q_init = False, flvRecord = NewFlvRecord,
     FlvWriters = [Some 0, Some 1, Some 2], hlsWriter = None, flvFile = None, cache = NewCache, accPackets = 2, accLoss = 0,
     accFlvTags = 0, previousLostSeq = 0, startTime = 0, delay = 0\<rparr>,
    \<lparr>UdpBufferSize = 65536, Publishers_map = Map.empty, quic = \<lparr>QuicConn = None, net = no_traffic\<rparr>,
     writers = demo_writers, sources = \<lambda>_. \<lparr>src_Key = '''', src_closed = False, src_packetQueue = make_chan 0\<rparr>,
     files = \<lambda>_. demo_file\<rparr>)"

end
