(* ===== verification/Http_Mux.thy ===== *)
theory Http_Mux
  imports Http_Flv_Server Hls_Server
begin

text \<open>
  How requests reach the handlers: the multiplexer of Go's \<open>net/http\<close> (\<open>ServeMux\<close>, as of Go 1.18),
  which redirects a request for a path that is not clean, and the two servers' tables of handlers
  (\<open>Serve\<close> in \<open>src/protocol/httpflv/server.go\<close> and in \<open>src/protocol/hls/hls.go\<close>).
\<close>

subsection \<open>Clean paths\<close>

text \<open>\<open>path.Clean\<close> of a path that starts with a slash: its elements, with dots resolved, \<open>acc\<close> reversed.\<close>

fun Split :: "char \<Rightarrow> string \<Rightarrow> string list" where
  "Split c [] = [[]]"
| "Split c (x # s) = (if x = c then [] # Split c s else (x # hd (Split c s)) # tl (Split c s))"

fun resolve :: "string list \<Rightarrow> string list \<Rightarrow> string list" where
  "resolve acc [] = rev acc"
| "resolve acc (e # es) =
     (if e = [] \<or> e = ''.'' then resolve acc es
      else if e = ''..'' then resolve (tl acc) es
      else resolve (e # acc) es)"

definition rooted :: "string list \<Rightarrow> string" where
  "rooted es = (if es = [] then ''/'' else concat (map (\<lambda>e. CHR ''/'' # e) es))"

definition path_Clean :: "string \<Rightarrow> string" where
  "path_Clean p = rooted (resolve [] (Split CHR ''/'' p))"

text \<open>\<open>cleanPath\<close> of \<open>net/http\<close>: as \<open>path.Clean\<close>, but a slash at the end is kept.\<close>

definition cleanPath :: "string \<Rightarrow> string" where
  "cleanPath p =
     (if p = [] then ''/''
      else let p = (if hd p \<noteq> CHR ''/'' then CHR ''/'' # p else p); np = path_Clean p in
        if last p = CHR ''/'' \<and> np \<noteq> ''/''
        then (if length p = length np + 1 \<and> prefix np p then p else np @ ''/'')
        else np)"

definition proper :: "string \<Rightarrow> bool" where
  "proper e \<longleftrightarrow> e \<noteq> [] \<and> e \<noteq> ''.'' \<and> e \<noteq> ''..'' \<and> CHR ''/'' \<notin> set e"

definition clean_path :: "string \<Rightarrow> bool" where
  "clean_path p \<longleftrightarrow> (\<exists>es. list_all proper es \<and> (p = rooted es \<or> es \<noteq> [] \<and> p = rooted es @ ''/''))"

lemma Split_nonempty [simp]: "Split c s \<noteq> []"
  by (cases s) simp_all

lemma Split_elements: "e \<in> set (Split c s) \<Longrightarrow> c \<notin> set e"
proof (induction s arbitrary: e)
  case (Cons x s)
  have "hd (Split c s) \<in> set (Split c s)" "set (tl (Split c s)) \<subseteq> set (Split c s)"
    by (simp, cases "Split c s", auto)
  with Cons show ?case by (auto split: if_splits)
qed simp

lemma Split_append:
  assumes "c \<notin> set e"
  shows "Split c (e @ s) = (e @ hd (Split c s)) # tl (Split c s)"
  using assms
proof (induction e)
  case (Cons x e)
  then have "x \<noteq> c" "c \<notin> set e" by auto
  with Cons.IH show ?case by simp
qed simp

lemma resolve_proper:
  assumes "list_all proper acc" "\<forall>e \<in> set es. CHR ''/'' \<notin> set e"
  shows "list_all proper (resolve acc es)"
  using assms
proof (induction acc es rule: resolve.induct)
  case (2 acc e es)
  have "list_all proper (tl acc)" using 2(4) by (cases acc) simp_all
  moreover have "proper e" if "\<not> (e = [] \<or> e = ''.'')" "e \<noteq> ''..''" using 2(5) that by (simp add: proper_def)
  ultimately show ?case using 2 by simp
qed simp

lemma resolve_id:
  assumes "list_all proper es"
  shows "resolve acc (es @ [[]]) = rev acc @ es \<and> resolve acc es = rev acc @ es"
  using assms
proof (induction es arbitrary: acc)
  case (Cons e es)
  then have "e \<noteq> []" "e \<noteq> ''.''" "e \<noteq> ''..''" by (simp_all add: proper_def)
  with Cons show ?case by simp
qed simp

lemma Split_elems:
  assumes "list_all proper es" "es \<noteq> []"
  shows "Split CHR ''/'' (concat (map (\<lambda>e. CHR ''/'' # e) es)) = [] # es
    \<and> Split CHR ''/'' (concat (map (\<lambda>e. CHR ''/'' # e) es) @ ''/'') = [] # es @ [[]]"
  using assms
proof (induction es)
  case (Cons e es)
  then have "CHR ''/'' \<notin> set e" by (simp add: proper_def)
  with Cons Split_append [of "CHR ''/''" e "''/''"] Split_append [of "CHR ''/''" e "[]"] show ?case
    by (cases "es = []") (simp_all add: Split_append)
qed simp

lemma path_Clean_rooted:
  assumes "list_all proper es"
  shows "path_Clean (rooted es) = rooted es" "path_Clean (rooted es @ ''/'') = rooted es"
  using Split_elems [OF assms] resolve_id [OF assms, of "[]"]
  by (auto simp: path_Clean_def rooted_def)

lemma rooted_shape: "hd (rooted es) = CHR ''/''" "rooted es \<noteq> []"
  by (cases es, simp_all add: rooted_def)

lemma rooted_last:
  assumes "list_all proper es" "es \<noteq> []"
  shows "last (rooted es) \<noteq> CHR ''/''" "rooted es \<noteq> ''/''"
proof -
  obtain e r where e: "es = r @ [e]" using assms(2) by (cases es rule: rev_cases) auto
  with assms(1) have p: "e \<noteq> []" "CHR ''/'' \<notin> set e" by (auto simp: proper_def)
  have "last e \<in> set e" using p(1) by simp
  with p have "last e \<noteq> CHR ''/''" by metis
  with p(1) show "last (rooted es) \<noteq> CHR ''/''" by (simp add: e rooted_def)
  then show "rooted es \<noteq> ''/''" by auto
qed

lemma one_longer: "length p = length q + 1 \<Longrightarrow> prefix q p \<Longrightarrow> p = q @ [last p]"
proof -
  assume p: "length p = length q + 1" "prefix q p"
  then obtain x where "p = q @ x" by (auto simp: prefix_def)
  with p(1) show "p = q @ [last p]" by (cases x) simp_all
qed

lemma cleanPath_eq:
  assumes "p \<noteq> []"
  shows "cleanPath p = (let p = (if hd p \<noteq> CHR ''/'' then CHR ''/'' # p else p); np = path_Clean p in
     if last p = CHR ''/'' \<and> np \<noteq> ''/'' then np @ ''/'' else np)"
proof -
  have "(if length p = length q + 1 \<and> prefix q p then p else q @ ''/'') = q @ ''/''" if "last p = CHR ''/''" for p q :: string
    using one_longer [of p q] that by auto
  with assms show ?thesis unfolding cleanPath_def Let_def by (simp cong: if_cong)
qed

text \<open>What \<open>cleanPath\<close> yields is clean, and clean paths are the ones it leaves as they are.\<close>

lemma cleanPath_clean: "clean_path (cleanPath p)"
proof (cases "p = []")
  case True
  then show ?thesis by (auto simp: cleanPath_def clean_path_def rooted_def intro: exI [of _ "[]"])
next
  case False
  let ?p = "if hd p \<noteq> CHR ''/'' then CHR ''/'' # p else p"
  let ?es = "resolve [] (Split CHR ''/'' ?p)"
  have es: "list_all proper ?es" using Split_elements by (intro resolve_proper) simp_all
  have "cleanPath p = (if last ?p = CHR ''/'' \<and> rooted ?es \<noteq> ''/'' then rooted ?es @ ''/'' else rooted ?es)"
    using cleanPath_eq [OF False] by (simp only: Let_def path_Clean_def)
  moreover have "rooted ?es \<noteq> ''/'' \<Longrightarrow> ?es \<noteq> []" by (simp only: rooted_def if_True simp_thms not_False_eq_True) auto
  ultimately show ?thesis using es unfolding clean_path_def by (cases "last ?p = CHR ''/'' \<and> rooted ?es \<noteq> ''/''") (metis, metis)
qed

lemma clean_path_id:
  assumes "clean_path p"
  shows "cleanPath p = p"
proof -
  obtain es where es: "list_all proper es" "p = rooted es \<or> es \<noteq> [] \<and> p = rooted es @ ''/''"
    using assms unfolding clean_path_def by blast
  have "p \<noteq> []" "hd p = CHR ''/''" using es(2) rooted_shape [of es] by auto
  then have c: "cleanPath p = (if last p = CHR ''/'' \<and> path_Clean p \<noteq> ''/'' then path_Clean p @ ''/'' else path_Clean p)"
    by (simp add: cleanPath_eq Let_def)
  show ?thesis
  proof (cases "es = []")
    case True
    then have "p = ''/''" using es(2) by (simp add: rooted_def)
    then show ?thesis using c path_Clean_rooted(1) [of "[]"] by (simp add: rooted_def)
  next
    case False
    with es path_Clean_rooted [OF es(1)] rooted_last [OF es(1)] c show ?thesis by auto
  qed
qed

lemma cleanPath_iff: "cleanPath p = p \<longleftrightarrow> clean_path p"
  using cleanPath_clean [of p] clean_path_id by metis

subsection \<open>The multiplexer\<close>

datatype 'h routed = Redirected string | Found 'h | NoHandler

text \<open>
  A path is matched by the pattern that equals it, or else by the longest pattern ending in a slash
  that it starts with.
\<close>

definition mux_match :: "(string \<times> 'h) list \<Rightarrow> string \<Rightarrow> 'h option" where
  "mux_match pats p = (case map_of pats p of
       Some h \<Rightarrow> Some h
     | None \<Rightarrow> (case sort_key (\<lambda>(q, _). - int (length q)) (filter (\<lambda>(q, _). q \<noteq> [] \<and> last q = CHR ''/'' \<and> prefix q p) pats) of
         [] \<Rightarrow> None | (_, h) # _ \<Rightarrow> Some h))"

text \<open>
  \<open>ServeMux.Handler\<close>, for methods other than CONNECT: a redirect goes to the clean path, or to the path
  with a slash if only that is registered, and keeps the query.
\<close>

definition mux_Handler :: "(string \<times> 'h) list \<Rightarrow> string \<Rightarrow> 'h routed" where
  "mux_Handler pats path =
     (let p = cleanPath path in
      if map_of pats p = None \<and> last p \<noteq> CHR ''/'' \<and> map_of pats (p @ ''/'') \<noteq> None then Redirected (p @ ''/'')
      else if p \<noteq> path then Redirected p
      else case mux_match pats path of None \<Rightarrow> NoHandler | Some h \<Rightarrow> Found h)"

subsection \<open>The two servers\<close>

text \<open>
  A request: its path, its URL, the error of parsing its form, the form. The server of \<open>net/http\<close>
  recovers a panic of a handler and closes the connection (\<open>Aborted\<close>).
\<close>

record Request =
  rq_Path :: string
  rq_URL :: string
  rq_ParseForm :: "string option"
  rq_Form :: "string \<rightharpoonup> string list"

definition Form_Get :: "(string \<rightharpoonup> string list) \<Rightarrow> string \<Rightarrow> string" where
  "Form_Get form k = (case form k of Some (v # vs) \<Rightarrow> v | _ \<Rightarrow> [])"

datatype flv_route = ConnRoute | TimeRoute

definition flv_mux :: "(string \<times> flv_route) list" where
  "flv_mux = [(''/'', ConnRoute), (''/stats/time'', TimeRoute)]"

datatype 's flv_end = Moved string | Conn "'s conn_end" | Time "int \<times> (string \<times> string) list \<times> json" | NotFound | Aborted

definition stats_time :: "'s HttpHandler \<Rightarrow> Request \<Rightarrow> 's \<Rightarrow> 's flv_end" where
  "stats_time h rq s =
     (case andthen (CheckError (rq_ParseForm rq)) (\<lambda>_.
          let path = Form_Get (rq_Form rq) ''stream'' in Ok (handleTime h path s)) of
        Ok (status, header, body) \<Rightarrow> Time (status, (''Access-Control-Allow-Origin'', ''*'') # header, body)
      | _ \<Rightarrow> Aborted)"

definition flv_Serve :: "'s HttpHandler \<Rightarrow> string \<Rightarrow> http_response \<Rightarrow> Request \<Rightarrow> 's \<Rightarrow> 's flv_end" where
  "flv_Serve h uid c rq s = (case mux_Handler flv_mux (rq_Path rq) of
       Redirected u \<Rightarrow> Moved u
     | Found ConnRoute \<Rightarrow> Conn (handleConn h uid c (rq_URL rq) (rq_Path rq) s)
     | Found TimeRoute \<Rightarrow> stats_time h rq s
     | NoHandler \<Rightarrow> NotFound)"

datatype hls_end = HlsMoved string | HlsAnswer HttpResponse | HlsNotFound | HlsAborted

definition hls_Serve :: "(nat \<Rightarrow> 'x HlsSource) \<Rightarrow> (string \<rightharpoonup> nat) \<Rightarrow> string \<Rightarrow> hls_end" where
  "hls_Serve heap conns path = (case mux_Handler [(''/'', ())] path of
       Redirected u \<Rightarrow> HlsMoved u
     | Found _ \<Rightarrow> (case handle heap conns path of Ok r \<Rightarrow> HlsAnswer r | _ \<Rightarrow> HlsAborted)
     | NoHandler \<Rightarrow> HlsNotFound)"

subsection \<open>Which handler a request reaches\<close>

lemma clean_not_empty: "clean_path p \<Longrightarrow> p \<noteq> [] \<and> hd p = CHR ''/''"
  using rooted_shape by (auto simp: clean_path_def)

lemma mux_root:
  assumes "clean_path p"
  shows "mux_Handler [(''/'', h)] p = Found h"
proof -
  obtain x where x: "p = CHR ''/'' # x" using clean_not_empty [OF assms] by (cases p) auto
  show ?thesis
    using clean_path_id [OF assms] by (simp add: mux_Handler_def mux_match_def Let_def x)
qed

lemma mux_flv:
  assumes "clean_path p"
  shows "mux_Handler flv_mux p = Found (if p = ''/stats/time'' then TimeRoute else ConnRoute)"
proof -
  obtain x where x: "p = CHR ''/'' # x" using clean_not_empty [OF assms] by (cases p) auto
  then have "p @ ''/'' \<noteq> ''/''" "p @ ''/'' \<noteq> ''/stats/time''"
    using arg_cong [of "p @ ''/''" "''/stats/time''" last] by auto
  then show ?thesis
    using clean_path_id [OF assms] by (auto simp: mux_Handler_def mux_match_def Let_def flv_mux_def x)
qed

lemma mux_moved:
  assumes "\<not> clean_path p" "map_of pats (cleanPath p) \<noteq> None \<or> map_of pats (cleanPath p @ ''/'') = None"
  shows "mux_Handler pats p = Redirected (cleanPath p)"
  using assms cleanPath_iff [of p] by (auto simp: mux_Handler_def Let_def)

lemma clean_no_double_slash:
  assumes "clean_path (CHR ''/'' # p)"
  shows "p = [] \<or> hd p \<noteq> CHR ''/''"
proof -
  obtain es z where es: "list_all proper es" "CHR ''/'' # p = rooted es @ z" "es = [] \<longrightarrow> z = []"
    using assms unfolding clean_path_def by (metis append_Nil2)
  show ?thesis
  proof (cases es)
    case Nil
    with es show ?thesis by (simp add: rooted_def)
  next
    case (Cons e r)
    then obtain y ys where "e = y # ys" "y \<noteq> CHR ''/''" using es(1) by (cases e) (auto simp: proper_def)
    with es(2) Cons show ?thesis by (simp add: rooted_def)
  qed
qed

text \<open>
  Every request to the HTTP-FLV server is redirected to a clean path or ends up at one handler: the one
  for start times, where only a malformed form aborts it, or the one for streams.
\<close>

lemma flv_Serve_cases:
  "flv_Serve h uid c rq s =
     (if \<not> clean_path (rq_Path rq) then Moved (cleanPath (rq_Path rq))
      else if rq_Path rq = ''/stats/time'' then
        (case rq_ParseForm rq of Some e \<Rightarrow> Aborted
         | None \<Rightarrow> (case handleTime h (Form_Get (rq_Form rq) ''stream'') s of
             (status, header, body) \<Rightarrow> Time (status, (''Access-Control-Allow-Origin'', ''*'') # header, body)))
      else Conn (handleConn h uid c (rq_URL rq) (rq_Path rq) s))"
proof -
  let ?p = "cleanPath (rq_Path rq)"
  have clean: "clean_path ?p" by (rule cleanPath_clean)
  have "?p @ ''/'' \<noteq> ''/''" "?p @ ''/'' \<noteq> ''/stats/time''"
    using clean_not_empty [OF clean] arg_cong [of "?p @ ''/''" "''/stats/time''" last] by auto
  then have "map_of flv_mux (?p @ ''/'') = None" by (simp add: flv_mux_def)
  then show ?thesis
    by (auto simp: flv_Serve_def mux_flv mux_moved stats_time_def CheckError_def Let_def split: option.split prod.split)
qed

lemma flv_Serve_stream:
  assumes "clean_path (rq_Path rq)" "rq_Path rq \<noteq> ''/stats/time''"
  shows "flv_Serve h uid c rq s = Conn (handleConn h uid c (rq_URL rq) (rq_Path rq) s)"
  using assms by (simp add: flv_Serve_cases)

text \<open>The HLS server: what its handler serves is reached under the paths of the playlist.\<close>

definition clean_key :: "string \<Rightarrow> bool" where
  "clean_key key \<longleftrightarrow> stream_key key \<and> list_all proper (Split CHR ''/'' key)"

lemma hls_Serve_clean:
  "clean_path p \<Longrightarrow> handle heap conns p = Ok r \<Longrightarrow> hls_Serve heap conns p = HlsAnswer r"
  by (simp add: hls_Serve_def mux_root)

lemma clean_key_paths:
  assumes "clean_key key"
  shows "clean_path (''/'' @ key @ ''.m3u8'')" "clean_path (ts_filename key x)"
proof -
  obtain a b where key: "key = a @ ''/'' @ b" "CHR ''/'' \<notin> set a" "CHR ''/'' \<notin> set b"
    using assms by (auto simp: clean_key_def stream_key_def)
  have "Split CHR ''/'' b = [b]" using Split_append [OF key(3), of "[]"] by simp
  then have "Split CHR ''/'' key = [a, b]" using Split_append [OF key(2), of "''/'' @ b"] by (simp add: key(1))
  then have ab: "proper a" "proper b" using assms by (simp_all add: clean_key_def)
  have "length (b @ ''.m3u8'') > 2" "length (Itoa x @ ''.ts'') > 2" by simp_all
  then have "proper (b @ ''.m3u8'')" "proper (Itoa x @ ''.ts'')"
    using key(3) Itoa_chars(1) [of x] unfolding proper_def by (auto simp del: length_append)
  with ab have "list_all proper [a, b @ ''.m3u8'']" "list_all proper [a, b, Itoa x @ ''.ts'']" by simp_all
  moreover have "''/'' @ key @ ''.m3u8'' = rooted [a, b @ ''.m3u8'']" "ts_filename key x = rooted [a, b, Itoa x @ ''.ts'']"
    by (simp_all add: key(1) rooted_def ts_filename_def)
  ultimately show "clean_path (''/'' @ key @ ''.m3u8'')" "clean_path (ts_filename key x)"
    unfolding clean_path_def by metis+
qed

subsection \<open>What the HLS server serves\<close>

lemma source_routed:
  assumes "source_run lg key its ts s" "\<not> src_closed s" "clean_key key" "conns key = Some r" "heap r = s"
    and "distinct (last5 ts)"
  shows "(\<exists>a. hls_Serve heap conns (''/'' @ key @ ''.m3u8'') = HlsAnswer a \<and> r_Status a = 200
        \<and> r_Body a = str_bytes (playlist_text (last3 its)))
    \<and> (\<forall>it \<in> set (last3 its). hls_Serve heap conns (ts_Name it) = HlsAnswer (serve_segment it))
    \<and> (\<forall>it \<in> set its. ts_Name it \<notin> ts_Name ` set (last3 its)
         \<longrightarrow> hls_Serve heap conns (ts_Name it) = HlsAnswer (http_Error ErrNoKey 400))"
proof -
  have k: "stream_key key" using assms(3) by (simp add: clean_key_def)
  note served = source_served [where heap = heap and conns = conns and r = r, OF assms(1,2) k assms(4-6)]
  have "history lg key its ts"
    using run_inv [OF assms(1)] seg_inv_open [OF run_inv [OF assms(1)] assms(2)] by (auto simp: seg_inv_def)
  then have name: "clean_path (ts_Name it)" if "it \<in> set its" for it
    using history_segment_name that clean_key_paths(2) [OF assms(3)] by metis
  have old: "set (last3 its) \<subseteq> set its" by (auto simp: last3_def dest: in_set_dropD)
  obtain c where c: "handle heap conns (''/'' @ key @ ''.m3u8'') = Ok (serve_playlist c)"
      "GenM3U8PlayList c = playlist_text (last3 its)"
    using served(1) by blast
  then have "\<exists>a. hls_Serve heap conns (''/'' @ key @ ''.m3u8'') = HlsAnswer a \<and> r_Status a = 200
      \<and> r_Body a = str_bytes (playlist_text (last3 its))"
    using hls_Serve_clean [OF clean_key_paths(1) [OF assms(3)] c(1)]
    by (intro exI [of _ "serve_playlist c"]) (simp add: serve_playlist_def Let_def)
  moreover have "hls_Serve heap conns (ts_Name it) = HlsAnswer (serve_segment it)" if "it \<in> set (last3 its)" for it
    using hls_Serve_clean [OF name served(2)] that old by blast
  moreover have "hls_Serve heap conns (ts_Name it) = HlsAnswer (http_Error ErrNoKey 400)"
    if "it \<in> set its" "ts_Name it \<notin> ts_Name ` set (last3 its)" for it
    using hls_Serve_clean [OF name served(3)] that by blast
  ultimately show ?thesis by blast
qed

text \<open>
  C11: What the HLS server serves. Let an open source be registered under the key \<open>app/name\<close> of a
  stream, where the name makes clean paths, and let it have cut the segments \<open>its\<close> at the seconds \<open>ts\<close>.
  If no two of the last five cuts happened in the same second, the request for \<open>/app/name.m3u8\<close>,
  routed without a redirect, is answered by exactly the playlist of the last three segments; each
  of these is served with exactly its data under the name that the playlist lists; and an older
  segment, whose name is none of these, is answered by an error.
\<close>

theorem segments_served:
  assumes "source_run lg key its ts s" "\<not> src_closed s" "clean_key key" "conns key = Some r" "heap r = s"
    and "distinct (last5 ts)"
  shows "(\<exists>a. hls_Serve heap conns (''/'' @ key @ ''.m3u8'') = HlsAnswer a \<and> r_Status a = 200
        \<and> r_Body a = str_bytes (playlist_text (last3 its)))
    \<and> (\<forall>it \<in> set (last3 its). hls_Serve heap conns (ts_Name it) = HlsAnswer (serve_segment it))
    \<and> (\<forall>it \<in> set its. ts_Name it \<notin> ts_Name ` set (last3 its)
         \<longrightarrow> hls_Serve heap conns (ts_Name it) = HlsAnswer (http_Error ErrNoKey 400))"
  using assms by (rule source_routed)

theorem segments_served_witness:
  "\<exists>(s :: nat HlsSource) a i1 i2 i3 i4. source_run demo_lg ''live/a'' [i1, i2, i3, i4] [5, 9, 13, 17] s
     \<and> hls_Serve (\<lambda>_. s) [''live/a'' \<mapsto> 0] ''/live/a.m3u8'' = HlsAnswer a \<and> r_Body a = str_bytes (playlist_text [i2, i3, i4])
     \<and> hls_Serve (\<lambda>_. s) [''live/a'' \<mapsto> 0] (ts_filename ''live/a'' 13) = HlsAnswer (serve_segment i3)
     \<and> hls_Serve (\<lambda>_. s) [''live/a'' \<mapsto> 0] (ts_filename ''live/a'' 5) = HlsAnswer (http_Error ErrNoKey 400)"
proof -
  obtain s and its :: "TSItem list" where s: "source_run demo_lg ''live/a'' its [5, 9, 13, 17] s" "\<not> src_closed s" "length its = 4"
    using demo_four_cuts by blast
  then obtain i1 i2 i3 i4 where its: "its = [i1, i2, i3, i4]" by (auto simp: length_Suc_conv numeral_eq_Suc)
  have n: "map ts_Name its = map (ts_filename ''live/a'') [5, 9, 13, 17]"
    using run_segments [OF s(1,2)] by simp
  have key: "clean_key ''live/a''" using demo_key by (simp add: clean_key_def proper_def)
  have last: "last3 its = [i2, i3, i4]" "distinct (last5 [5, 9, 13, 17 :: int])" by (simp_all add: its last3_def last5_def)
  from segments_served [OF s(1,2) key, of "[''live/a'' \<mapsto> 0]" 0 "\<lambda>_. s"] last obtain a where
    "hls_Serve (\<lambda>_. s) [''live/a'' \<mapsto> 0] ''/live/a.m3u8'' = HlsAnswer a" "r_Body a = str_bytes (playlist_text [i2, i3, i4])"
    "hls_Serve (\<lambda>_. s) [''live/a'' \<mapsto> 0] (ts_Name i3) = HlsAnswer (serve_segment i3)"
    "ts_Name i1 \<notin> ts_Name ` {i2, i3, i4} \<longrightarrow> hls_Serve (\<lambda>_. s) [''live/a'' \<mapsto> 0] (ts_Name i1) = HlsAnswer (http_Error ErrNoKey 400)"
    by (auto simp: its)
  with n s(1) have "source_run demo_lg ''live/a'' [i1, i2, i3, i4] [5, 9, 13, 17] s
     \<and> hls_Serve (\<lambda>_. s) [''live/a'' \<mapsto> 0] ''/live/a.m3u8'' = HlsAnswer a \<and> r_Body a = str_bytes (playlist_text [i2, i3, i4])
     \<and> hls_Serve (\<lambda>_. s) [''live/a'' \<mapsto> 0] (ts_filename ''live/a'' 13) = HlsAnswer (serve_segment i3)
     \<and> hls_Serve (\<lambda>_. s) [''live/a'' \<mapsto> 0] (ts_filename ''live/a'' 5) = HlsAnswer (http_Error ErrNoKey 400)"
    by (simp add: its)
  then show ?thesis by blast
qed

end
