(* ===== verification/Node_Properties.thy ===== *)
theory Node_Properties
  imports Node_Tables Demo_Stream Http_Mux
begin

text \<open>
  What holds of the edge node in every state it can reach, and a small node on which the
  properties are evaluated.
\<close>

subsection \<open>Reachable states\<close>

context edge_node
begin

lemma handleConn_conf:
  assumes "app_ok app"
    and "handleConn (MyHttpHandler nd) uid c addr u app = Answer resp app'
      \<or> handleConn (MyHttpHandler nd) uid c addr u app = Streaming r app'"
  shows "app_ok app' \<and> INIT (app_conf app') = INIT (app_conf app)"
proof -
  obtain app1 where "app_ok app1" "app1 = app'"
    using handler.handleConn_safe [OF assms(1), of uid c addr u] assms(2) by auto
  moreover have "app_conf app2 = app_conf app"
    if "hh_new (MyHttpHandler nd) w app = (r', app1)" "hh_HandleNewFlvWriterRequest (MyHttpHandler nd) key r' app1 = Ok app2"
    for w r' key app1 app2
    using that by (auto simp: MyHttpHandler_def new_writer_def HandleNewFlvWriterRequest_def Let_def andthen_eq_Ok)
  moreover have "app_conf app1 = app_conf app" if "hh_new (MyHttpHandler nd) w app = (r', app1)" for w r' app1
    using that by (auto simp: MyHttpHandler_def new_writer_def Let_def)
  ultimately show ?thesis
    using assms(2)
    by (auto simp: handleConn_def Let_def split: if_splits option.splits go.splits prod.splits)
qed

lemmas request_stream = handler.handleConn_stream
lemmas request_any = handler.handleConn_safe

lemma node_step_ok:
  assumes "node_step nd (app, first) e (app', first')" "app_ok app"
  shows "app_ok app' \<and> INIT (app_conf app') = INIT (app_conf app)"
  using assms
proof (cases rule: node_step.cases)
  case (step_receive d)
  then show ?thesis using receive_round_any [OF assms(2)] by metis
next
  case (step_queue r)
  then show ?thesis using queue_goroutine_ok [OF assms(2)] by simp
next
  case (step_alive order)
  then show ?thesis using CheckAlive_ok [OF assms(2)] by simp
qed (use handleConn_conf [OF assms(2)] assms(2) in
    \<open>simp_all add: StartHTTPFlv_def set_writer_def set_source_def, metis, metis\<close>)

lemma node_run_ok: "node_run nd cfg app first \<Longrightarrow> app_ok app \<and> INIT (app_conf app) = INIT cfg"
proof (induction rule: node_run_induct)
  case (main sh qs heap)
  show ?case by (simp add: app_ok_def main_App_def)
next
  case (step app first e app' first')
  then show ?case using node_step_ok by blast
qed

end

subsection \<open>A small node\<close>

definition demo_publishers :: json where
  "demo_publishers = JObj [(''data'', JObj [(''publishers'', JArr [JObj
     [(''ssrc'', JNum 7), (''key'', JStr ''live/a''), (''url'', JStr ''rtmp://cloud/live/a''),
      (''start_time'', JNum 1000), (''stream_id'', JNum 1), (''video_total_bytes'', JNum 0),
      (''video_speed'', JNum 0), (''audio_total_bytes'', JNum 0), (''audio_speed'', JNum 0)]])])]"

definition demo_node :: "(RtpPack option list, nat option list, nat option list, cloud, nat) Node" where
  "demo_node = \<lparr>nd_env = node_env\<lparr>HttpGet := \<lambda>u n. (Body demo_publishers, n)\<rparr>, nd_al = slice_al, nd_wl = slice_al,
     nd_fl = slice_al, nd_lg = demo_lg, nd_listen = \<lambda>n. None, nd_now = \<lambda>n. 0, nd_create = \<lambda>name n. (None, False)\<rparr>"

definition demo_app :: "(RtpPack option list, nat option list, nat option list, cloud, nat) App" where
  "demo_app = main_App demo_node Conf (snd demo_stream) (\<lambda>_. fst demo_stream) (\<lambda>_. demo_source [])"

definition demo_datagram :: Datagram where
  "demo_datagram = \<lparr>dg_data = [128, 225, 3, 232, 0, 0, 0, 0, 0, 0, 0, 7, 1, 2, 3], dg_ip = ''10.0.0.1'',
     dg_err = None, dg_rand = 9999\<rparr>"

interpretation demo_edge: edge_node demo_node
  by (simp add: edge_node_def demo_node_def sal.arraylist_axioms)

lemma demo_parse: "\<exists>rp. Parse (udp_buffer demo_datagram) = Ok (Some rp) \<and> SSRC rp = 7 \<and> SequenceNumber rp = 1000"
  by (simp add: udp_buffer_def demo_datagram_def Parse_def sl_index_def sl_from_def sl_slice_def Uint16_def Uint32_def
      RTP_FIXED_HEADER_LENGTH_def skip_csrc_def skip_extension_def strip_padding_def be16_def be32_def)

lemma demo_list: "\<exists>pubs pub. UpdatePublishers (Body demo_publishers) = Ok pubs \<and> pubs 7 = Some pub
    \<and> Key pub = ''live/a'' \<and> StartTime pub = 1000"
  by (simp add: UpdatePublishers_def Get_def demo_publishers_def as_map_def jfield_def as_slice_def read_publisher_def
      as_float64_def as_string_def truncate_float_def)

definition demo_conf :: Config where
  "demo_conf = Conf\<lparr>CLOUD_HOST := ''10.0.0.1''\<rparr>"

lemma demo_new_stream:
  assumes "RTP_QUEUE_CHAN_SIZE (app_conf app) = 100"
    and "app_hls app = \<lparr>hw_server = None, hw_heap = heap, hw_next = 0\<rparr>"
  shows "\<exists>app' q. handleNewStream demo_node 7 app = Ok (app', next_queue app)
    \<and> app_queues app' = (app_queues app)(next_queue app := q) \<and> next_queue app' = next_queue app + 1
    \<and> RtpQueueMap app' = (RtpQueueMap app)(7 \<mapsto> next_queue app) \<and> KeySsrcMap app' = (KeySsrcMap app)(''live/a'' \<mapsto> 7)
    \<and> app_conf app' = app_conf app \<and> InChan q = make_chan 100 \<and> queue q = [] \<and> flvRecord q = NewFlvRecord
    \<and> accFlvTags q = 0 \<and> cache q = NewCache \<and> FlvWriters q = []
    \<and> flvFile q = (if ENABLE_RECORD (app_conf app) then Some (next_file app) else None)
    \<and> (ENABLE_RECORD (app_conf app) \<longrightarrow> recording (files (app_shared app') (next_file app)))
    \<and> hlsWriter q = (if ENABLE_HLS (app_conf app) then Some 0 else None)
    \<and> app_hls app' = (if ENABLE_HLS (app_conf app) then \<lparr>hw_server = Some [''live/a'' \<mapsto> 0],
          hw_heap = heap(0 := NewSource demo_lg 0 ''live/a''), hw_next = 1\<rparr> else app_hls app)
    \<and> PaddingWindowSize q = RTP_QUEUE_PADDING_WINDOW_SIZE (app_conf app)"
proof -
  obtain pubs pub where p: "UpdatePublishers (Body demo_publishers) = Ok pubs" "pubs 7 = Some pub" "Key pub = ''live/a''"
    using demo_list by blast
  obtain f where "CreateFile (record_path (app_conf app) ''a'') None False = Inr f"
    by (simp add: CreateFile_def fs_write_def fs_sync_def)
  then have f: "CreateFlvFile (app_conf app) ''a'' None False = Some f" "recording f"
    using CreateFile_recording by (simp_all add: CreateFlvFile_def)
  show ?thesis
    by (cases "ENABLE_HLS (app_conf app)"; cases "ENABLE_RECORD (app_conf app)"; simp add: f handleNewStream_def demo_node_def p nonnil_def numeral_2_eq_2 Let_def
        open_record_def assms NewQueue_def make_chan_int_def hls_writer_def GetWriter_def StartHls_def CheckError_def
        hls_NewServer_def; rule exI, rule conjI, rule refl, simp)
qed

lemma demo_received:
  "\<exists>app. receiveRtp demo_node [demo_datagram, demo_datagram] (demo_app, True) = Ok (app, False)
     \<and> HasChannel ''live/a'' app \<and> concat (map (accepted Conf) [demo_datagram]) \<noteq> []"
proof -
  obtain rp where rp: "Parse (udp_buffer demo_datagram) = Ok (Some rp)" "SSRC rp = 7" using demo_parse by blast
  let ?app0 = "demo_app\<lparr>app_conf := demo_conf\<rparr>"
  have "app_hls ?app0 = \<lparr>hw_server = None, hw_heap = \<lambda>_. demo_source [], hw_next = 0\<rparr>" "RTP_QUEUE_CHAN_SIZE (app_conf ?app0) = 100"
      "RtpQueueMap ?app0 = Map.empty" "KeySsrcMap ?app0 = Map.empty" "app_conf ?app0 = demo_conf"
    by (simp_all add: demo_conf_def Conf_def demo_app_def main_App_def)
  with demo_new_stream [of ?app0] obtain app r where n: "handleNewStream demo_node 7 ?app0 = Ok (app, r)"
      "InChan (app_queues app r) = make_chan 100" "RtpQueueMap app = [7 \<mapsto> r]"
      "KeySsrcMap app = [''live/a'' \<mapsto> 7]" "app_conf app = demo_conf"
    by auto
  have cf: "first_datagram demo_datagram (app_conf demo_app) = (demo_conf, False)" "dg_err demo_datagram = None"
      "\<not> IsPacketLoss demo_conf (dg_rand demo_datagram)" "\<not> IsPacketLoss Conf (dg_rand demo_datagram)"
      "RtpQueueMap demo_app = Map.empty"
    by (simp_all add: first_datagram_eq demo_datagram_def demo_conf_def Conf_def demo_app_def main_App_def IsPacketLoss_def)
  let ?app = "\<lambda>ps. app\<lparr>app_queues := (app_queues app)(r := (app_queues app r)\<lparr>InChan := (make_chan 100)\<lparr>ch_buf := ps\<rparr>\<rparr>)\<rparr>"
  have "receiveRtp_round demo_node demo_datagram (demo_app, True) = Ok (?app [Some rp], False)"
    by (simp add: receiveRtp_round_def cf CheckError_def rp handleNewPacket_def n chan_send_def) (simp add: make_chan_def)
  moreover have "receiveRtp_round demo_node demo_datagram (?app [Some rp], False) = Ok (?app [Some rp, Some rp], False)"
    by (simp add: receiveRtp_round_def cf CheckError_def rp handleNewPacket_def n chan_send_def) (simp add: make_chan_def n(5))
  ultimately show ?thesis
    using n(4) rp(1) cf(4) by (simp add: HasChannel_def key_ssrc_def accepted_def)
qed

subsection \<open>Properties\<close>

text \<open>
  C9: The tables of the node agree. In every reachable state, whatever datagrams, requests and
  checks have occurred in whatever order, each key that is known belongs to one stream, whose
  queue exists and carries that key, and each queue is filed under its own SSRC, so that no two
  streams share a queue.
\<close>

theorem node_tables:
  assumes "arraylist (nd_wl nd)" "node_run nd cfg app first"
  shows "(\<forall>key. KeySsrcMap app key \<noteq> None
       \<longrightarrow> (\<exists>r. RtpQueueMap app (key_ssrc app key) = Some r \<and> ChannelKey (app_queues app r) = key))
    \<and> (\<forall>ssrc r. RtpQueueMap app ssrc = Some r \<longrightarrow> Ssrc (app_queues app r) = ssrc)
    \<and> (\<forall>a b. RtpQueueMap app a \<noteq> None \<longrightarrow> RtpQueueMap app a = RtpQueueMap app b \<longrightarrow> a = b)"
proof -
  have "app_ok app" using edge_node.node_run_ok [OF _ assms(2)] assms(1) by (simp add: edge_node_def)
  then show ?thesis
    using app_ok_ref [of app] by (fastforce simp: app_ok_def key_ssrc_def)
qed

text \<open>
  C10: Dispatch of packets. However the datagrams of different streams are interleaved, each stream's
  queue receives exactly the packets of its SSRC that parse and are not dropped by the simulated
  loss, in the order of arrival, after what was already waiting; streams that appear for the
  first time included.
\<close>

theorem dispatch_by_stream:
  assumes "arraylist (nd_wl nd)" "node_run nd cfg app first" "receiveRtp nd ds (app, first) = Ok (app', first')"
  shows "pending app' ssrc = pending app ssrc
    @ map Some (filter (\<lambda>rp. SSRC rp = ssrc) (concat (map (accepted (app_conf app)) ds)))"
proof -
  have "app_ok app" using edge_node.node_run_ok [OF _ assms(2)] assms(1) by (simp add: edge_node_def)
  then show ?thesis by (rule receive_ok [OF _ assms(3)])
qed

text \<open>
  C17: A client can connect. In every reachable state, the request for \<open>/app/name.flv\<close> of a stream the
  node knows is routed to the stream handler and ends in streaming: a writer is created that has
  sent the FLV file header and an empty previous-tag size and is open, and it is appended to the
  clients of this stream.
\<close>

theorem client_connects:
  assumes "arraylist (nd_wl nd)" "node_run nd cfg app first" "HasChannel (a @ ''/'' @ t) app"
    and "CHR ''/'' \<notin> set a" "\<not> hw_broken c"
    and "rq_Path rq = ''/'' @ a @ ''/'' @ t @ ''.flv''" "clean_path (rq_Path rq)"
  shows "\<exists>r app'. flv_Serve (MyHttpHandler nd) uid c rq app = Conn (Streaming r app')
    \<and> clients nd app' (a @ ''/'' @ t) = clients nd app (a @ ''/'' @ t) @ [r]
    \<and> \<not> Closed (writers (app_shared app') r)
    \<and> hw_out (ctx (writers (app_shared app') r)) = hw_out c @ flv_file_header @ [0, 0, 0, 0]"
proof -
  have e: "edge_node nd" using assms(1) by (simp add: edge_node_def)
  have "app_ok app" using edge_node.node_run_ok [OF e assms(2)] by simp
  moreover have "hh_HasChannel (MyHttpHandler nd) (a @ ''/'' @ t) app" using assms(3) by (simp add: MyHttpHandler_def)
  moreover have "a \<noteq> []" using clean_no_double_slash assms(6,7) by fastforce
  moreover have "flv_Serve (MyHttpHandler nd) uid c rq app = Conn (handleConn (MyHttpHandler nd) uid c (rq_URL rq) (rq_Path rq) app)"
    using assms(6) by (intro flv_Serve_stream [OF assms(7)]) (auto dest: arg_cong [where f = last])
  ultimately show ?thesis
    using edge_node.request_stream [OF e, of app a t uid c "rq_URL rq"] assms(4-6)
    by (auto simp: fresh_writer_def)
qed


text \<open>
  C36: The liveness check never runs. The initial message of the cloud node is recognised only in a
  buffer of eight bytes, and the buffer always has 1300; so \<open>INIT\<close> keeps its configured value, and
  with the default, false, a round of \<open>CheckAlive\<close> changes nothing in any reachable state: streams
  that have ended are never removed.
\<close>

theorem liveness_check_inert:
  assumes "arraylist (nd_wl nd)" "node_run nd cfg app first" "\<not> INIT cfg"
  shows "(\<forall>d. INIT (fst (first_datagram d (app_conf app))) = INIT (app_conf app))
    \<and> (\<forall>order. CheckAlive_round nd order app = Ok app)"
proof -
  have "\<not> INIT (app_conf app)"
    using edge_node.node_run_ok [OF _ assms(2)] assms(1,3) by (simp add: edge_node_def)
  then show ?thesis by (simp add: CheckAlive_round_def first_datagram_eq)
qed

subsection \<open>Witnesses\<close>

lemma demo_arraylist: "arraylist (nd_wl demo_node)"
  by (rule demo_edge.arraylist_axioms)

lemma demo_reached: "\<exists>app. node_run demo_node Conf app False \<and> HasChannel ''live/a'' app"
proof -
  obtain app1 app f where r: "receiveRtp_round demo_node demo_datagram (demo_app, True) = Ok (app1, f)"
      "receiveRtp_round demo_node demo_datagram (app1, f) = Ok (app, False)" "HasChannel ''live/a'' app"
    using demo_received by (auto simp: andthen_eq_Ok)
  have "node_run demo_node Conf demo_app True" unfolding demo_app_def by (rule node_run_main)
  from node_run_step [OF node_run_step [OF this step_receive [OF r(1)]] step_receive [OF r(2)]] r(3) show ?thesis by blast
qed

theorem node_tables_witness:
  "\<exists>app r. node_run demo_node Conf app False \<and> RtpQueueMap app (key_ssrc app ''live/a'') = Some r
     \<and> ChannelKey (app_queues app r) = ''live/a''"
proof -
  obtain app where app: "node_run demo_node Conf app False" "HasChannel ''live/a'' app" using demo_reached by blast
  have "KeySsrcMap app ''live/a'' \<noteq> None" using app(2) by (auto simp: HasChannel_def key_ssrc_def split: option.splits)
  with node_tables [OF demo_arraylist app(1)] app(1) show ?thesis by blast
qed

theorem dispatch_by_stream_witness:
  "\<exists>app rp. receiveRtp demo_node [demo_datagram, demo_datagram] (demo_app, True) = Ok (app, False)
     \<and> pending app 7 = [Some rp, Some rp] \<and> SequenceNumber rp = 1000 \<and> pending app 8 = []"
proof -
  obtain rp where rp: "Parse (udp_buffer demo_datagram) = Ok (Some rp)" "SSRC rp = 7" "SequenceNumber rp = 1000"
    using demo_parse by blast
  obtain app where app: "receiveRtp demo_node [demo_datagram, demo_datagram] (demo_app, True) = Ok (app, False)"
    using demo_received by blast
  have "accepted (app_conf demo_app) demo_datagram = [rp]"
    by (simp add: accepted_def rp demo_app_def main_App_def demo_datagram_def Conf_def IsPacketLoss_def)
      (simp add: rp(1) flip: demo_datagram_def)
  moreover have "pending demo_app ssrc = []" for ssrc by (simp add: pending_def demo_app_def main_App_def)
  moreover have "node_run demo_node Conf demo_app True" unfolding demo_app_def by (rule node_run_main)
  ultimately have "pending app 7 = [Some rp, Some rp]" "pending app 8 = []"
    using dispatch_by_stream [OF demo_arraylist _ app, of Conf] rp(2) by simp_all
  with app rp(3) show ?thesis by blast
qed

definition demo_request :: "string \<Rightarrow> Request" where
  "demo_request p = \<lparr>rq_Path = p, rq_URL = p, rq_ParseForm = None, rq_Form = Map.empty\<rparr>"

theorem client_connects_witness:
  "\<exists>app r app'. flv_Serve (MyHttpHandler demo_node) ''id'' \<lparr>hw_out = [], hw_broken = False\<rparr> (demo_request ''/live/a.flv'') app
       = Conn (Streaming r app') \<and> hw_out (ctx (writers (app_shared app') r)) = [70, 76, 86, 1, 5, 0, 0, 0, 9, 0, 0, 0, 0]"
proof -
  obtain app where app: "node_run demo_node Conf app False" "HasChannel ''live/a'' app" using demo_reached by blast
  have "''/live/a.flv'' = rooted [''live'', ''a.flv'']" "list_all proper [''live'', ''a.flv'']"
    by (simp_all add: rooted_def proper_def)
  then have "clean_path ''/live/a.flv''" unfolding clean_path_def by metis
  with app client_connects [OF demo_arraylist app(1), where uid = "''id''" and a = "''live''" and t = "''a''"
      and c = "\<lparr>hw_out = [], hw_broken = False\<rparr>" and rq = "demo_request ''/live/a.flv''"]
  show ?thesis by (auto simp: flv_file_header_def demo_request_def)
qed


theorem liveness_check_inert_witness:
  "CheckAlive_round demo_node [7] demo_app = Ok demo_app"
proof -
  have "node_run demo_node Conf demo_app True" unfolding demo_app_def by (rule node_run_main)
  from liveness_check_inert [OF demo_arraylist this] show ?thesis by (simp add: Conf_def)
qed

end
