(* ===== verification/Fan_Out.thy ===== *)
theory Fan_Out
  imports Demo_Stream
begin

text \<open>
  The distribution of a tag to the HTTP-FLV clients of a stream: what the loop of \<open>extractFlv\<close> over
  the writers does to each of them and to the list.
\<close>

text \<open>
  What an open writer receives: the initialisation segments, if it has not had them, and the
  tag. A closed one is left as it is.
\<close>

definition feed_writer :: "SegmentCache \<Rightarrow> slice \<Rightarrow> FLVWriter \<Rightarrow> FLVWriter" where
  "feed_writer c tag w =
     (if Closed w then w
      else enqueue_all (w\<lparr>Init := True\<rparr>) ((if Init w then [] else initial_segments c) @ [tag]))"

definition has_room :: "FLVWriter \<Rightarrow> bool" where
  "has_room w \<longleftrightarrow> Closed w \<or> \<not> ch_closed (packetQueue w)
     \<and> length (ch_buf (packetQueue w)) + 3 \<le> ch_cap (packetQueue w)"

lemma Close_closed: "Closed w \<Longrightarrow> Close w = Ok w"
  by (simp add: Close_def)

lemma enqueue_all_fields [simp]:
  "Closed (enqueue_all w ps) = Closed w" "Init (enqueue_all w ps) = Init w"
  "ch_closed (packetQueue (enqueue_all w ps)) = ch_closed (packetQueue w)"
  "ch_cap (packetQueue (enqueue_all w ps)) = ch_cap (packetQueue w)"
  "ch_buf (packetQueue (enqueue_all w ps)) = ch_buf (packetQueue w) @ ps"
  by (simp_all add: enqueue_all_def)

lemma enqueue_all_append: "enqueue_all (enqueue_all w ps) qs = enqueue_all w (ps @ qs)"
  by (simp add: enqueue_all_def)

lemma enqueue_all_Init: "(enqueue_all w ps)\<lparr>Init := b\<rparr> = enqueue_all (w\<lparr>Init := b\<rparr>) ps"
  by (simp add: enqueue_all_def)

text \<open>The two sends of one round of the loop, for an open writer with room.\<close>

lemma writer_round:
  assumes "cache_shape c" "\<not> Closed w" "has_room w"
  shows "\<exists>w1. (if \<not> Init w then
        andthen (SendInitialSegment c w) (\<lambda>(w, err). Ok (if err = None then w\<lparr>Init := True\<rparr> else w, err))
      else Ok (w, None)) = Ok (w1, None) \<and> Write w1 tag = Ok (feed_writer c tag w, None)"
proof (cases "Init w")
  case True
  then have eta: "w\<lparr>Init := True\<rparr> = w" by simp
  from True assms show ?thesis
    by (simp add: Write_open has_room_def feed_writer_def eta)
next
  case False
  from assms have room: "\<not> ch_closed (packetQueue w)"
      "length (ch_buf (packetQueue w)) + length (initial_segments c) + 1 \<le> ch_cap (packetQueue w)"
    using length_initial_segments [of c] by (auto simp: has_room_def)
  then have "SendInitialSegment c w = Ok (enqueue_all w (initial_segments c), None)"
    using assms by (intro SendInitialSegment_open) simp_all
  with False assms(2) room show ?thesis
    by (simp add: Write_open feed_writer_def enqueue_all_append flip: enqueue_all_Init)
qed

text \<open>The other way round: a round that ends has fed the writer, without an error.\<close>

definition delivering :: "FLVWriter \<Rightarrow> bool" where
  "delivering w \<longleftrightarrow> Closed w \<or> \<not> ch_closed (packetQueue w)"

lemma writer_round_Ok:
  assumes "cache_shape c" "\<not> Closed w" "delivering w"
    and "(if \<not> Init w then
        andthen (SendInitialSegment c w) (\<lambda>(w, err). Ok (if err = None then w\<lparr>Init := True\<rparr> else w, err))
      else Ok (w, None)) = Ok (w1, err)"
  shows "err = None" "Write w1 tag = Ok (w2, err2) \<Longrightarrow> err2 = None \<and> w2 = feed_writer c tag w"
proof -
  have w1: "err = None \<and> w1 = enqueue_all (w\<lparr>Init := True\<rparr>) (if Init w then [] else initial_segments c)"
  proof (cases "Init w")
    case True
    then have "w\<lparr>Init := True\<rparr> = w" by simp
    with True assms(4) show ?thesis by (auto simp: enqueue_all_def)
  next
    case False
    with assms show ?thesis
      by (auto simp: andthen_eq_Ok delivering_def enqueue_all_Init dest!: SendInitialSegment_Ok split: if_splits)
  qed
  then show "err = None" by simp
  assume "Write w1 tag = Ok (w2, err2)"
  with w1 assms(2,3) show "err2 = None \<and> w2 = feed_writer c tag w"
    by (auto dest!: Write_Ok simp: delivering_def feed_writer_def enqueue_all_append)
qed

lemma list_remove_middle: "list_remove (xs @ y # ys) (int (length xs)) = xs @ ys"
  by (simp add: list_remove_def)

text \<open>The list of writers of a queue: an array list of references.\<close>

locale writer_list = arraylist wl for wl :: "(nat, 'm) arraylist_ops"
begin

lemma writer_loop_spec:
  assumes "cache_shape c" "distinct rs" "\<forall>r \<in> set rs. has_room (ws r)"
    and "al_Values wl l = map Some rs @ tail"
  shows "\<exists>l'. writer_loop wl c tag (length rs) l ws
      = Ok (l', \<lambda>r. if r \<in> set rs then feed_writer c tag (ws r) else ws r, False)
    \<and> al_Values wl l' = map Some (filter (\<lambda>r. \<not> Closed (ws r)) rs) @ tail"
  using assms(2-)
proof (induction rs arbitrary: l ws tail rule: rev_induct)
  case Nil
  then show ?case by simp
next
  case (snoc r rs)
  have get: "al_Get wl l (int (length rs)) = (Some r, True)"
    using snoc.prems(3) by (simp add: get_nat nth_append)
  show ?case
  proof (cases "Closed (ws r)")
    case True
    have "al_Values wl (al_Remove wl l (int (length rs))) = map Some rs @ tail"
      using list_remove_middle [of "map Some rs" "Some r" tail] snoc.prems(3)
      by (simp add: values_remove)
    moreover have "(\<lambda>x. if x \<in> set rs then feed_writer c tag (ws x) else ws x)
        = (\<lambda>x. if x \<in> set (rs @ [r]) then feed_writer c tag (ws x) else ws x)"
      using True by (auto simp: feed_writer_def)
    ultimately show ?thesis
      using snoc.IH [of ws "al_Remove wl l (int (length rs))" tail] snoc.prems True get
      by (simp add: Close_closed)
  next
    case False
    let ?ws = "ws(r := feed_writer c tag (ws r))"
    obtain w1 where w1: "(if \<not> Init (ws r) then andthen (SendInitialSegment c (ws r)) (\<lambda>(w, err).
          Ok (if err = None then w\<lparr>Init := True\<rparr> else w, err)) else Ok (ws r, None)) = Ok (w1, None)"
        "Write w1 tag = Ok (feed_writer c tag (ws r), None)"
      using writer_round [OF assms(1) False] snoc.prems(2) by auto
    have same: "r' \<in> set rs \<Longrightarrow> ?ws r' = ws r'" for r'
      using snoc.prems(1) by auto
    then have "(\<lambda>x. if x \<in> set rs then feed_writer c tag (?ws x) else ?ws x)
        = (\<lambda>x. if x \<in> set (rs @ [r]) then feed_writer c tag (ws x) else ws x)"
      using snoc.prems(1) by auto
    moreover have "filter (\<lambda>r. \<not> Closed (?ws r)) rs = filter (\<lambda>r. \<not> Closed (ws r)) rs"
      using same by (intro filter_cong) simp_all
    moreover have "\<forall>r' \<in> set rs. has_room (?ws r')" using same snoc.prems(2) by simp
    ultimately obtain l' where "writer_loop wl c tag (length rs) l ?ws
        = Ok (l', \<lambda>x. if x \<in> set (rs @ [r]) then feed_writer c tag (ws x) else ws x, False)"
        "al_Values wl l' = map Some (filter (\<lambda>r. \<not> Closed (ws r)) rs) @ Some r # tail"
      using snoc.IH [of ?ws l "Some r # tail"] snoc.prems by (auto simp del: fun_upd_apply)
    with False get w1 show ?thesis by simp
  qed
qed

lemma writer_loop_Ok:
  assumes "cache_shape c" "distinct rs" "\<forall>r \<in> set rs. delivering (ws r)"
    and "al_Values wl l = map Some rs @ tail" "writer_loop wl c tag (length rs) l ws = Ok (l', ws', failed)"
  shows "\<not> failed \<and> ws' = (\<lambda>r. if r \<in> set rs then feed_writer c tag (ws r) else ws r)
    \<and> al_Values wl l' = map Some (filter (\<lambda>r. \<not> Closed (ws r)) rs) @ tail"
  using assms(2-)
proof (induction rs arbitrary: l ws tail rule: rev_induct)
  case Nil
  then show ?case by auto
next
  case (snoc r rs)
  have get: "al_Get wl l (int (length rs)) = (Some r, True)"
    using snoc.prems(3) by (simp add: get_nat nth_append)
  show ?case
  proof (cases "Closed (ws r)")
    case True
    have "al_Values wl (al_Remove wl l (int (length rs))) = map Some rs @ tail"
      using list_remove_middle [of "map Some rs" "Some r" tail] snoc.prems(3)
      by (simp add: values_remove)
    moreover have "(\<lambda>x. if x \<in> set rs then feed_writer c tag (ws x) else ws x)
        = (\<lambda>x. if x \<in> set (rs @ [r]) then feed_writer c tag (ws x) else ws x)"
      using True by (auto simp: feed_writer_def)
    ultimately show ?thesis
      using snoc.IH [of ws "al_Remove wl l (int (length rs))" tail] snoc.prems True get
      by (simp add: Close_closed)
  next
    case False
    let ?ws = "ws(r := feed_writer c tag (ws r))"
    have d: "delivering (ws r)" using snoc.prems(2) by simp
    let ?init = "if \<not> Init (ws r) then andthen (SendInitialSegment c (ws r)) (\<lambda>(w, err).
        Ok (if err = None then w\<lparr>Init := True\<rparr> else w, err)) else Ok (ws r, None)"
    let ?rest = "\<lambda>w1 err. if err \<noteq> None then Ok (l, ws(r := w1), True) else andthen (Write w1 tag) (\<lambda>(w, err).
        if err \<noteq> None then writer_loop wl c tag (length rs) (al_Remove wl l (int (length rs))) (ws(r := w))
        else writer_loop wl c tag (length rs) l (ws(r := w)))"
    have "andthen ?init (\<lambda>(w1, err). ?rest w1 err) = Ok (l', ws', failed)"
      using snoc.prems(4) get False by simp
    then obtain w1 err where w1: "?init = Ok (w1, err)" "?rest w1 err = Ok (l', ws', failed)"
      unfolding andthen_eq_Ok split_paired_Ex prod.case by blast
    note round = writer_round_Ok [OF assms(1) False d w1(1)]
    have loop: "writer_loop wl c tag (length rs) l ?ws = Ok (l', ws', failed)"
    proof -
      obtain w2 err2 where "Write w1 tag = Ok (w2, err2)"
          "(if err2 \<noteq> None then writer_loop wl c tag (length rs) (al_Remove wl l (int (length rs))) (ws(r := w2))
            else writer_loop wl c tag (length rs) l (ws(r := w2))) = Ok (l', ws', failed)"
        using w1(2) round(1) by (auto simp: andthen_eq_Ok)
      with round(2) show ?thesis by simp
    qed
    have same: "r' \<in> set rs \<Longrightarrow> ?ws r' = ws r'" for r'
      using snoc.prems(1) by auto
    then have "(\<lambda>x. if x \<in> set rs then feed_writer c tag (?ws x) else ?ws x)
        = (\<lambda>x. if x \<in> set (rs @ [r]) then feed_writer c tag (ws x) else ws x)"
      using snoc.prems(1) by auto
    moreover have "filter (\<lambda>r. \<not> Closed (?ws r)) rs = filter (\<lambda>r. \<not> Closed (ws r)) rs"
      using same by (intro filter_cong) simp_all
    moreover have "\<forall>r' \<in> set rs. delivering (?ws r')" using same snoc.prems(2) by simp
    ultimately show ?thesis
      using snoc.IH [of ?ws l "Some r # tail"] snoc.prems loop False by (simp del: fun_upd_apply)
  qed
qed

lemma fan_out_spec:
  assumes "cache_shape (cache q)" "al_Values wl (FlvWriters q) = map Some rs" "distinct rs"
    and "\<forall>r \<in> set rs. has_room (writers s r)"
  shows "\<exists>l. fan_out wl tag (q, s) = Ok ((q\<lparr>FlvWriters := l\<rparr>,
        s\<lparr>writers := \<lambda>r. if r \<in> set rs then feed_writer (cache q) tag (writers s r) else writers s r\<rparr>), False)
    \<and> al_Values wl l = map Some (filter (\<lambda>r. \<not> Closed (writers s r)) rs)"
proof -
  have "nat (al_Size wl (FlvWriters q)) = length rs" using assms(2) by (simp add: size)
  with writer_loop_spec [OF assms(1,3,4), of "FlvWriters q" "[]" tag] assms(2) show ?thesis
    by (auto simp: fan_out_def)
qed

end

interpretation swl: writer_list slice_al
  by unfold_locales

text \<open>
  C12: Every client gets every tag. If each open writer of the stream has room, the distribution of
  a tag succeeds: every open writer has the tag appended to its queue, preceded by the stream's
  initialisation segments exactly if it had not had them; closed writers, and only these, leave
  the list, the others keep their order; no other writer changes.
\<close>

theorem fan_out_complete:
  assumes "writer_list wl" "cache_inv (cache q)" "al_Values wl (FlvWriters q) = map Some rs" "distinct rs"
    and "\<forall>r \<in> set rs. has_room (writers s r)"
  shows "\<exists>l. fan_out wl tag (q, s) = Ok ((q\<lparr>FlvWriters := l\<rparr>,
        s\<lparr>writers := \<lambda>r. if r \<in> set rs then feed_writer (cache q) tag (writers s r) else writers s r\<rparr>), False)
    \<and> al_Values wl l = map Some (filter (\<lambda>r. \<not> Closed (writers s r)) rs)"
  using writer_list.fan_out_spec [OF assms(1) cache_inv_shape [OF assms(2)] assms(3-5)] .

lemma demo_room: "has_room (demo_writers r)"
  by (simp add: has_room_def demo_writers_def demo_writer_def make_chan_def maxQueueNum_def)

theorem fan_out_complete_witness:
  "\<exists>s'. fan_out slice_al demo_tag demo_stream
     = Ok (((fst demo_stream)\<lparr>FlvWriters := [Some 0, Some 2]\<rparr>, s'), False)
     \<and> packetQueue (writers s' 2) = \<lparr>ch_buf = [demo_tag], ch_cap = 1024, ch_closed = False\<rparr>"
proof -
  have d: "cache (fst demo_stream) = NewCache" "FlvWriters (fst demo_stream) = [Some 0, Some 1, Some 2]"
      "writers (snd demo_stream) = demo_writers"
    by (simp_all add: demo_stream_def)
  have "packetQueue (feed_writer NewCache demo_tag (demo_writers 2))
      = \<lparr>ch_buf = [demo_tag], ch_cap = 1024, ch_closed = False\<rparr>"
    by (simp add: demo_writers_def feed_writer_def enqueue_all_def demo_writer_def
        make_chan_def maxQueueNum_def initial_segments_def NewCache_def zero_SegmentPacket_def)
  moreover have "filter (\<lambda>r. \<not> Closed (demo_writers r)) [0, 1, 2] = [0, 2]"
    by (simp add: demo_writers_def demo_writer_def)
  ultimately show ?thesis
    using fan_out_complete [OF swl.writer_list_axioms, of "fst demo_stream" "[0, 1, 2]" "snd demo_stream" demo_tag]
    by (simp add: d demo_room)
qed

end
