(* ===== verification/Queue_Guarantees.thy ===== *)
theory Queue_Guarantees
  imports Queue_Order Quic_Service
begin

text \<open>
  What the stream queue guarantees, derived from the specification of its runs: slots leave the
  window in sequence and without gaps, no packet that was accepted is dropped, and the loops of
  the receiving goroutine end.
\<close>

subsection \<open>Consequences of the specification\<close>

lemma spec_answer_keeps:
  assumes "i < length w" "w ! i \<noteq> None"
  shows "\<exists>u. spec_answer r (first, w) = (first, u) \<and> i < length u \<and> u ! i \<noteq> None"
  using assms by (cases r) (auto simp: spec_answer_def spec_enqueue_def length_put_at nth_put_at)

lemma set_spec_answer:
  "Some p \<in> set (snd (spec_answer r v)) \<Longrightarrow> r = Some p \<or> Some p \<in> set (snd v)"
proof (cases v; cases r)
  fix first w x
  assume v: "v = (first, w)" "r = Some x" and p: "Some p \<in> set (snd (spec_answer r v))"
  then show ?thesis
    by (auto simp: spec_answer_def spec_enqueue_def put_at_def split: if_splits dest: set_update_subset_insert [THEN subsetD])
qed (auto simp: spec_answer_def)

text \<open>
  The slot with number \<open>seq\<close> has been emitted with a packet, or its packet waits in the window.
\<close>

definition accounted :: "u16 \<Rightarrow> event list \<Rightarrow> window \<Rightarrow> bool" where
  "accounted seq es v \<longleftrightarrow> (\<exists>p. (seq, Some p) \<in> set (emitted es))
     \<or> (\<exists>j p. j < length (snd v) \<and> snd v ! j = Some p \<and> fst v + word_of_nat j = seq)"

lemma accounted_Cons: "accounted seq es v \<Longrightarrow> accounted seq (e # es) v"
  by (cases e) (auto simp: accounted_def)

text \<open>A filled slot stays filled until it is emitted, filled.\<close>

lemma filled_slot_survives:
  assumes "window_run m v es v'" "i < length (snd v)" "snd v ! i \<noteq> None"
  shows "accounted (fst v + word_of_nat i) es v'"
  using assms
proof (induction arbitrary: i rule: window_run.induct)
  case (finish v)
  then show ?case by (auto simp: accounted_def)
next
  case (arrive p v es v')
  then show ?case
    using spec_answer_keeps [of i "snd v" p "fst v"] by (auto intro: accounted_Cons)
next
  case (emit first w es v' x rp)
  show ?case
  proof (cases i)
    case 0
    with emit show ?thesis by (auto simp: accounted_def)
  next
    case (Suc k)
    with emit.IH [of k] emit.prems show ?thesis
      by (simp add: accounted_Cons add.assoc)
  qed
next
  case (skip first w es v')
  show ?case
  proof (cases i)
    case (Suc k)
    with skip.IH [of k] skip.prems show ?thesis
      by (simp add: add.assoc)
  qed (use skip.prems in simp)
next
  case (late first w k p es v')
  then show ?case
    using late.IH [of i] by (simp add: nth_append)
qed

lemma emitted_seq:
  "window_run m v es v' \<Longrightarrow> (slot, Some p) \<in> set (emitted es) \<Longrightarrow> SequenceNumber p = slot"
  by (induction rule: window_run.induct) auto

lemma emitted_genuine:
  assumes "window_run m v es v'" "\<forall>p. Some p \<in> set (snd v) \<longrightarrow> from_source m p"
    and "\<forall>p. Some p \<in> set (arrivals es) \<longrightarrow> from_source m p" "(slot, Some p) \<in> set (emitted es)"
  shows "from_source m p"
  using assms
proof (induction rule: window_run.induct)
  case (arrive a v es v')
  have "\<forall>p. Some p \<in> set (snd (spec_answer a v)) \<longrightarrow> from_source m p"
    using arrive.prems set_spec_answer [of _ a v] by auto
  with arrive show ?case by simp
qed auto

lemma window_run_append:
  "window_run m v es v1 \<Longrightarrow> window_run m v1 fs v' \<Longrightarrow> window_run m v (es @ fs) v'"
  by (induction rule: window_run.induct) (auto intro: window_run.intros)

text \<open>What is in the window at the end was there before, has arrived, or was fetched.\<close>

lemma window_run_genuine:
  assumes "window_run m v es v'" "\<forall>p. Some p \<in> set (snd v) \<union> set (arrivals es) \<longrightarrow> from_source m p"
  shows "Some p \<in> set (snd v') \<Longrightarrow> from_source m p"
  using assms
proof (induction rule: window_run.induct)
  case (arrive a v es v')
  have "\<forall>p. Some p \<in> set (snd (spec_answer a v)) \<longrightarrow> from_source m p"
    using arrive.prems(2) set_spec_answer [of _ a v] by auto
  with arrive show ?case by simp
qed auto

lemma emitted_recovered:
  "window_run m v es v' \<Longrightarrow> recovering m \<Longrightarrow> (slot, rp) \<in> set (emitted es) \<Longrightarrow> rp \<noteq> None"
  by (induction rule: window_run.induct) auto

text \<open>Without skipping, and while the window keeps a packet, the slots are consecutive.\<close>

lemma spec_answer_nonempty:
  "snd v \<noteq> [] \<Longrightarrow> fst (spec_answer r v) = fst v \<and> snd (spec_answer r v) \<noteq> []"
  by (cases r; cases v) (auto simp: spec_answer_def spec_enqueue_def)

lemma emitted_consecutive:
  assumes "window_run m v es v'" "keeping m" "\<not> protecting m" "snd v \<noteq> []"
  shows "map fst (emitted es) = map (\<lambda>i. fst v + word_of_nat i) [0..<length (emitted es)]
    \<and> fst v' = fst v + word_of_nat (length (emitted es)) \<and> snd v' \<noteq> []"
  using assms
proof (induction rule: window_run.induct)
  case (arrive p v es v')
  then show ?case using spec_answer_nonempty [of v p] by simp
next
  case (emit first w es v' x rp)
  have "[0..<Suc (length (emitted es))] = 0 # map Suc [0..<length (emitted es)]"
    by (simp add: map_Suc_upt upt_conv_Cons del: upt_Suc)
  with emit show ?case by (simp add: add.assoc comp_def del: upt_Suc)
qed simp_all

subsection \<open>Termination\<close>

text \<open>
  A window is near if an answer to a request for its head cannot be mistaken for a packet far
  ahead; without protection every window is.
\<close>

definition near :: "Config \<Rightarrow> window \<Rightarrow> bool" where
  "near cfg v \<longleftrightarrow> PROTECT cfg \<longrightarrow> length (snd v) \<le> 5536"

lemma near_drop: "near cfg (first, w) \<Longrightarrow> near cfg (first', drop k w)"
  by (auto simp: near_def)

context stream
begin

lemma near_answer:
  assumes "gap d w" "near cfg (first, w)" "\<not> PROTECT cfg \<longrightarrow> d = 0" "w ! 0 \<noteq> None \<longrightarrow> d = 0 \<and> r = None"
    and "\<forall>p. r = Some p \<longrightarrow> SequenceNumber p = first"
  shows "\<exists>x. spec_answer r (first + word_of_nat d, drop d w) = (first + word_of_nat d, x # drop (Suc d) w)
    \<and> (w ! d \<noteq> None \<longrightarrow> x = w ! d)"
proof (cases r)
  case None
  with gap_less [OF assms(1)] show ?thesis
    by (simp add: spec_answer_def Cons_nth_drop_Suc [symmetric])
next
  case (Some p)
  with assms have p: "SequenceNumber p = first" "w ! 0 = None" "w \<noteq> []" by (auto simp: gap_def)
  show ?thesis
  proof (cases "d = 0")
    case True
    with Some p show ?thesis
      by (simp add: spec_answer_def spec_enqueue_def put_at_0 drop_Suc)
  next
    case False
    with gap_less [OF assms(1)] assms(2,3) have d: "0 < d" "d < 5536"
      by (auto simp: near_def)
    then have "FirstBeforeSecond first (first + word_of_nat d)"
      by (intro before_backward) (simp_all add: unat_of_nat_u16)
    with Some p gap_less [OF assms(1)] show ?thesis
      by (simp add: spec_answer_def spec_enqueue_def Cons_nth_drop_Suc [symmetric])
  qed
qed

lemma Dequeue_near:
  assumes "Dequeue env cfg al (q, s) = Ok (rp, q', s')" "stream_ok al ssrc good (q, s)"
    and "al_Size al (queue q) > PaddingWindowSize q \<or> isFirstOk al q \<and> al_Size al (queue q) > 1"
    and "near cfg (window_of al q)"
  shows "\<exists>d. gap d (al_Values al (queue q))
    \<and> window_of al q' = (FirstSeq q + word_of_nat d + 1, drop (Suc d) (al_Values al (queue q)))
    \<and> (al_Values al (queue q) ! d \<noteq> None \<longrightarrow> rp = al_Values al (queue q) ! d)"
proof -
  let ?w = "al_Values al (queue q)"
  obtain first u d r where out: "window_of al q' = (first + 1, u)" "good (quic s')" "Ssrc q' = ssrc"
      "PaddingWindowSize q' = PaddingWindowSize q" "gap d ?w" "\<not> PROTECT cfg \<longrightarrow> d = 0"
      "spec_answer r (FirstSeq q + word_of_nat d, drop d ?w) = (first, rp # u)"
      "if isFirstOk al q then d = 0 \<and> r = None
       else (\<forall>p. r = Some p \<longrightarrow> SequenceNumber p = FirstSeq q \<and> genuine p) \<and> (answering \<longrightarrow> r \<noteq> None \<or> 0 < d)"
    by (rule Dequeue_parts [OF assms(1-3)])
  have "?w ! 0 \<noteq> None \<longrightarrow> isFirstOk al q"
    using gap_less [OF out(5)] by (cases ?w) (auto simp: isFirstOk_iff)
  with out(8) have "?w ! 0 \<noteq> None \<longrightarrow> d = 0 \<and> r = None" "\<forall>p. r = Some p \<longrightarrow> SequenceNumber p = FirstSeq q"
    by (auto split: if_splits)
  moreover have "near cfg (FirstSeq q, ?w)" using assms(4) by (simp add: window_of_def)
  ultimately show ?thesis
    using near_answer [OF out(5) _ out(6), of "FirstSeq q" r] out(1,5,7)
    by (auto simp: window_of_def intro!: exI [of _ d])
qed

text \<open>One round of either loop shortens the window.\<close>

lemma round:
  assumes "andthen (Dequeue env cfg al (q, s)) (\<lambda>(rp, qs). extractFlv env cfg wl rp qs) = Ok (q', s')"
    and "stream_ok al ssrc good (q, s)" "near cfg (window_of al q)"
    and "al_Size al (queue q) > PaddingWindowSize q \<or> isFirstOk al q \<and> al_Size al (queue q) > 1"
  shows "stream_ok al ssrc good (q', s') \<and> near cfg (window_of al q')
    \<and> length (al_Values al (queue q')) < length (al_Values al (queue q))
    \<and> PaddingWindowSize q' = PaddingWindowSize q"
proof -
  from assms(1) obtain rp q1 s1 where deq: "Dequeue env cfg al (q, s) = Ok (rp, q1, s1)"
      and ext: "extractFlv env cfg wl rp (q1, s1) = Ok (q', s')"
    by (auto simp: andthen_eq_Ok)
  obtain d where d: "gap d (al_Values al (queue q))"
      "window_of al q1 = (FirstSeq q + word_of_nat d + 1, drop (Suc d) (al_Values al (queue q)))"
    using Dequeue_near [OF deq assms(2,4,3)] by blast
  have ok: "stream_ok al ssrc good (q1, s1)" and pw: "PaddingWindowSize q1 = PaddingWindowSize q"
    using stream_ok_Dequeue [OF deq assms(2,4)] by auto
  have "framed_by good q1 (q', s')"
    using ensuresD [OF extractFlv_frame ext, of q1] ok by (simp add: stream_ok_def)
  then have "stream_ok al ssrc good (q', s')" "window_of al q' = window_of al q1"
      "PaddingWindowSize q' = PaddingWindowSize q1"
    using stream_ok_frame [OF ok] by (simp_all add: same_stream_def window_of_def)
  moreover have "near cfg (window_of al q1)"
    using near_drop assms(3) d(2) by (simp add: window_of_def)
  moreover have "length (al_Values al (queue q')) < length (al_Values al (queue q))"
    using calculation(2) d gap_less [OF d(1)] by (simp add: window_of_def)
  ultimately show ?thesis using pw by simp
qed

lemma drain_window_ends:
  assumes "stream_ok al ssrc good (q, s)" "near cfg (window_of al q)"
  shows "\<exists>r. drain_window env cfg al wl (q, s) = Some r \<and> ensures r (\<lambda>(q', s').
      stream_ok al ssrc good (q', s') \<and> near cfg (window_of al q')
      \<and> PaddingWindowSize q' = PaddingWindowSize q
      \<and> al_Size al (queue q') \<le> PaddingWindowSize q')"
  using assms
proof (induction "length (al_Values al (queue q))" arbitrary: q s rule: less_induct)
  case less
  let ?r = "andthen (Dequeue env cfg al (q, s)) (\<lambda>(rp, qs). extractFlv env cfg wl rp qs)"
  show ?case
  proof (cases "al_Size al (queue q) > PaddingWindowSize q")
    case False
    with less.prems show ?thesis by (subst drain_window.simps) simp
  next
    case True
    show ?thesis
    proof (cases ?r)
      case (Ok qs1)
      then obtain q1 s1 where qs1: "?r = Ok (q1, s1)" by (cases qs1) simp
      from round [OF qs1 less.prems disjI1 [OF True]] less.hyps [of q1 s1] True qs1 show ?thesis
        by (subst drain_window.simps) auto
    qed (use True in \<open>subst drain_window.simps, simp\<close>)+
  qed
qed

lemma drain_ready_ends:
  assumes "stream_ok al ssrc good (q, s)" "near cfg (window_of al q)"
  shows "\<exists>r. drain_ready env cfg al wl (q, s) = Some r \<and> ensures r (\<lambda>(q', s').
      stream_ok al ssrc good (q', s') \<and> near cfg (window_of al q')
      \<and> PaddingWindowSize q' = PaddingWindowSize q
      \<and> al_Size al (queue q') \<le> al_Size al (queue q)
      \<and> \<not> (isFirstOk al q' \<and> al_Size al (queue q') > 1))"
  using assms
proof (induction "length (al_Values al (queue q))" arbitrary: q s rule: less_induct)
  case less
  let ?r = "andthen (Dequeue env cfg al (q, s)) (\<lambda>(rp, qs). extractFlv env cfg wl rp qs)"
  show ?case
  proof (cases "isFirstOk al q \<and> al_Size al (queue q) > 1")
    case False
    with less.prems show ?thesis by (subst drain_ready.simps) auto
  next
    case True
    show ?thesis
    proof (cases ?r)
      case (Ok qs1)
      then obtain q1 s1 where qs1: "?r = Ok (q1, s1)" by (cases qs1) simp
      from round [OF qs1 less.prems disjI2 [OF True]]
      have len: "al_Size al (queue q1) \<le> al_Size al (queue q)" by (simp add: size)
      from round [OF qs1 less.prems disjI2 [OF True]] less.hyps [of q1 s1] obtain r where
        "drain_ready env cfg al wl (q1, s1) = Some r" "ensures r (\<lambda>(q', s').
          stream_ok al ssrc good (q', s') \<and> near cfg (window_of al q')
          \<and> PaddingWindowSize q' = PaddingWindowSize q
          \<and> al_Size al (queue q') \<le> al_Size al (queue q1)
          \<and> \<not> (isFirstOk al q' \<and> al_Size al (queue q') > 1))" by auto
      with True qs1 len show ?thesis
        by (subst drain_ready.simps) (auto elim!: ensures_mono)
    qed (use True in \<open>subst drain_ready.simps, simp\<close>)+
  qed
qed

lemma isFirstOk_size: "isFirstOk al q \<Longrightarrow> 1 \<le> al_Size al (queue q)"
  by (auto simp: isFirstOk_iff size)

lemma RecvPacket_one_ends:
  assumes "stream_ok al ssrc good (q, s)" "near cfg (window_of al (Enqueue al q p))"
  shows "\<exists>r. RecvPacket_one env cfg al wl p (q, s) = Some r \<and> ensures r (\<lambda>(q', s').
      stream_ok al ssrc good (q', s') \<and> al_Size al (queue q') \<le> PaddingWindowSize q'
      \<and> (isFirstOk al q' \<longrightarrow> al_Size al (queue q') = 1))"
proof -
  obtain r1 where r1: "drain_window env cfg al wl (Enqueue al q p, s) = Some r1" "ensures r1 (\<lambda>(q', s').
      stream_ok al ssrc good (q', s') \<and> near cfg (window_of al q')
      \<and> PaddingWindowSize q' = PaddingWindowSize (Enqueue al q p)
      \<and> al_Size al (queue q') \<le> PaddingWindowSize q')"
    using drain_window_ends [OF stream_ok_Enqueue [OF assms(1)] assms(2)] by blast
  show ?thesis
  proof (cases r1)
    case (Ok qs1)
    obtain q1 s1 where q1: "qs1 = (q1, s1)" by (cases qs1)
    with r1 Ok have "stream_ok al ssrc good (q1, s1)" "near cfg (window_of al q1)"
        "al_Size al (queue q1) \<le> PaddingWindowSize q1" by auto
    moreover obtain r where "drain_ready env cfg al wl (q1, s1) = Some r" "ensures r (\<lambda>(q', s').
      stream_ok al ssrc good (q', s') \<and> near cfg (window_of al q')
      \<and> PaddingWindowSize q' = PaddingWindowSize q1
      \<and> al_Size al (queue q') \<le> al_Size al (queue q1)
      \<and> \<not> (isFirstOk al q' \<and> al_Size al (queue q') > 1))"
      using drain_ready_ends [OF calculation(1,2)] by blast
    ultimately show ?thesis
      using r1(1) Ok q1
      by (fastforce simp: RecvPacket_one_def dest: isFirstOk_size elim!: ensures_mono)
  qed (use r1 in \<open>auto simp: RecvPacket_one_def\<close>)
qed

end

subsection \<open>The order within one activation\<close>

text \<open>
  What one activation of the goroutine emits from a window: slots in strictly increasing order,
  among them every filled slot of the part \<open>take k w\<close> that has left the window.
\<close>

definition emits_in_order :: "u16 \<Rightarrow> RtpPack option list \<Rightarrow> nat \<Rightarrow> (u16 \<times> RtpPack option) list \<Rightarrow> bool" where
  "emits_in_order first w k out \<longleftrightarrow> k \<le> length w
     \<and> (\<exists>ofs. sorted_wrt (<) ofs \<and> (\<forall>i \<in> set ofs. i < k)
          \<and> map fst out = map (\<lambda>i. first + word_of_nat i) ofs)
     \<and> (\<forall>i<k. w ! i \<noteq> None \<longrightarrow> (first + word_of_nat i, w ! i) \<in> set out)"

lemma emits_in_order_step:
  assumes out: "emits_in_order (first + word_of_nat d + 1) (drop (Suc d) w) k out" and d: "gap d w"
    and rp: "w ! d \<noteq> None \<longrightarrow> rp = w ! d"
  shows "emits_in_order first w (Suc d + k) ((first + word_of_nat d, rp) # out)"
proof -
  from out obtain ofs where ofs: "sorted_wrt (<) ofs" "\<forall>i \<in> set ofs. i < k"
      "map fst out = map (\<lambda>i. first + word_of_nat d + 1 + word_of_nat i) ofs"
    by (auto simp: emits_in_order_def)
  let ?ofs = "d # map (\<lambda>i. Suc d + i) ofs"
  have "sorted_wrt (<) ?ofs" "\<forall>i \<in> set ?ofs. i < Suc d + k"
    using ofs by (auto simp: sorted_wrt_map)
  moreover have "map fst ((first + word_of_nat d, rp) # out) = map (\<lambda>i. first + word_of_nat i) ?ofs"
    using ofs(3) by (simp add: algebra_simps)
  moreover have "(first + word_of_nat i, w ! i) \<in> set ((first + word_of_nat d, rp) # out)"
    if i: "i < Suc d + k" "w ! i \<noteq> None" for i
  proof (cases "i \<le> d")
    case True
    with i d have "i = d" by (cases "i = d") (auto simp: gap_def)
    with i rp show ?thesis by simp
  next
    case False
    then obtain j where j: "i = Suc d + j" "j < k"
      using i by (metis add_less_cancel_left le_add_diff_inverse not_less_eq_eq)
    with out i gap_less [OF d] show ?thesis
      by (auto simp: emits_in_order_def algebra_simps)
  qed
  ultimately show ?thesis
    unfolding emits_in_order_def using out gap_less [OF d]
    by (intro conjI exI [of _ ?ofs]) (auto simp: emits_in_order_def)
qed

context stream
begin

lemma drain_in_order:
  assumes "stream_run env cfg al wl qs es qs'" "arrivals es = []" "stream_ok al ssrc good qs"
    and "near cfg (window_of al (fst qs))"
  shows "\<exists>k. emits_in_order (FirstSeq (fst qs)) (al_Values al (queue (fst qs))) k (emitted es)
    \<and> window_of al (fst qs') = (FirstSeq (fst qs) + word_of_nat k, drop k (al_Values al (queue (fst qs))))"
  using assms
proof (induction rule: stream_run.induct)
  case (finish qs)
  then show ?case
    by (intro exI [of _ 0]) (auto simp: emits_in_order_def window_of_def)
next
  case (emit q s rp q1 s1 qs2 es qs')
  let ?w = "al_Values al (queue q)"
  obtain d where d: "gap d ?w" "window_of al q1 = (FirstSeq q + word_of_nat d + 1, drop (Suc d) ?w)"
      "?w ! d \<noteq> None \<longrightarrow> rp = ?w ! d"
    using Dequeue_near [OF emit(2,7,1)] emit(8) by auto
  have ok: "stream_ok al ssrc good (q1, s1)"
    using stream_ok_Dequeue [OF emit(2,7,1)] by auto
  then have "framed_by good q1 qs2"
    using ensuresD [OF extractFlv_frame emit(3), of q1] by (simp add: stream_ok_def)
  then have w2: "stream_ok al ssrc good qs2" "window_of al (fst qs2) = window_of al q1"
    using stream_ok_frame [OF ok] by (simp_all add: same_stream_def window_of_def)
  moreover have "near cfg (window_of al (fst qs2))"
    using near_drop emit(8) d(2) w2 by (simp add: window_of_def)
  ultimately obtain k where
    "emits_in_order (FirstSeq q + word_of_nat d + 1) (drop (Suc d) ?w) k (emitted es)"
    "window_of al (fst qs') = (FirstSeq q + word_of_nat d + 1 + word_of_nat k, drop k (drop (Suc d) ?w))"
    using emit.IH emit.prems(1) d(2) by (auto simp: window_of_def)
  with emits_in_order_step [OF this(1) d(1,3)] d(2) show ?case
    by (intro exI [of _ "Suc d + k"]) (auto simp: window_of_def algebra_simps)
qed simp

lemma RecvPacket_ends:
  assumes "\<not> PROTECT cfg" "stream_ok al ssrc good qs"
  shows "\<exists>r. RecvPacket env cfg al wl ps qs = Some r"
  using assms(2)
proof (induction ps arbitrary: qs)
  case (Cons p ps)
  obtain q s where qs: "qs = (q, s)" by (cases qs)
  have "near cfg (window_of al (Enqueue al q p))" using assms(1) by (simp add: near_def)
  with RecvPacket_one_ends [of q s p wl] Cons.prems qs obtain r where
      r: "RecvPacket_one env cfg al wl p qs = Some r" and "ensures r (\<lambda>(q', s').
      stream_ok al ssrc good (q', s') \<and> al_Size al (queue q') \<le> PaddingWindowSize q'
      \<and> (isFirstOk al q' \<longrightarrow> al_Size al (queue q') = 1))"
    by blast
  then have "ensures r (stream_ok al ssrc good)" by (auto elim!: ensures_mono)
  with r Cons.IH show ?case
    by (cases r) auto
qed simp

end

end
