(* ===== verification/Queue_Properties.thy ===== *)
theory Queue_Properties
  imports Queue_Guarantees Demo_Stream
begin

text \<open>
  The properties of the stream queue, for every array list that keeps the laws of the library and
  every retransmission service that keeps its contract, with a concrete stream for each.
\<close>

subsection \<open>Services\<close>

text \<open>
  The services a stream may run with: a cloud node that keeps its contract, and none, with QUIC
  switched off.
\<close>

sublocale cloud_env \<subseteq> served: stream slice_al env cfg ssrc "idle view sess info data" answering
    "\<lambda>p. Parse (of_bytes (store ssrc (SequenceNumber p))) = Ok (Some p)"
  by unfold_locales

context cloud_env
begin

lemma service: "retransmission env cfg ssrc (idle view sess info data) answering
    (\<lambda>p. Parse (of_bytes (store ssrc (SequenceNumber p))) = Ok (Some p))"
  by unfold_locales

end

lemma streamI:
  "packet_list al \<Longrightarrow> retransmission env cfg ssrc good answering genuine \<Longrightarrow>
     stream al env cfg ssrc good answering genuine"
  by (simp add: stream_def stream_base_def retransmission_def)

lemma node_retransmission:
  assumes "\<not> DISABLE_QUIC cfg"
  shows "retransmission node_env cfg ssrc (idle id 0 1 2) True
    (\<lambda>p. Parse (of_bytes (node_store ssrc (SequenceNumber p))) = Ok (Some p))"
  by (rule cloud_env.service [OF node_cloud_env [OF assms]])

lemma demo_window_ok: "window_ok (65534, [Some (demo_pack 65534), None, Some (demo_pack 0)])"
proof (rule window_okI)
  fix i p
  assume "i < length [Some (demo_pack 65534), None, Some (demo_pack 0)]"
    and "[Some (demo_pack 65534), None, Some (demo_pack 0)] ! i = Some p"
  then show "SequenceNumber p = 65534 + word_of_nat i"
    by (cases i; cases "i - 1"; cases "i - 2") auto
qed simp_all

lemma demo_stream_ok: "stream_ok slice_al 7 (idle id 0 1 2) demo_stream"
  using demo_window_ok by (simp add: stream_ok_def demo_stream_def window_of_def idle_def)

lemma spec_enqueue_slot:
  assumes "snd v = [] \<or> \<not> FirstBeforeSecond (SequenceNumber p) (fst v)"
  shows "\<exists>i. i < length (snd (spec_enqueue p v)) \<and> snd (spec_enqueue p v) ! i \<noteq> None
    \<and> fst (spec_enqueue p v) + word_of_nat i = SequenceNumber p"
proof (cases "snd v = []")
  case True
  then show ?thesis by (cases v) (auto simp: spec_enqueue_def)
next
  case False
  with assms show ?thesis
    by (cases v) (auto simp: spec_enqueue_def length_put_at nth_put_at
        intro!: exI [of _ "unat (SequenceNumber p - fst v)"])
qed

text \<open>A stream that waits for the packet at the head of its window.\<close>

definition demo_waiting :: "(RtpPack option list, nat option list, cloud) qs" where
  "demo_waiting = ((fst demo_stream)\<lparr>FirstSeq := 65535, queue := [None, Some (demo_pack 0)],
     PaddingWindowSize := 10\<rparr>, snd demo_stream)"

lemma demo_waiting_ok: "stream_ok slice_al 7 (idle id 0 1 2) demo_waiting"
  using window_ok_tl [OF demo_window_ok]
  by (simp add: stream_ok_def demo_waiting_def demo_stream_def window_of_def idle_def)

lemma demo_waiting_enqueue:
  "window_of slice_al (Enqueue slice_al (fst demo_waiting) (Some (demo_pack 2)))
     = (65535, [None, Some (demo_pack 0), None, Some (demo_pack 2)])"
proof -
  have "unat (2 - 65535 :: u16) = 3" "\<not> FirstBeforeSecond 2 65535"
    by (simp_all add: FirstBeforeSecond_def)
  then show ?thesis
    by (simp add: spl.window_of_Enqueue)
       (simp add: window_of_def demo_waiting_def spec_enqueue_def put_at_def)
qed

lemma demo_waiting_recv:
  "RecvPacket env cfg slice_al slice_al [Some (demo_pack 2)] demo_waiting
     = Some (Ok (Enqueue slice_al (fst demo_waiting) (Some (demo_pack 2)), snd demo_waiting))"
proof -
  let ?q = "Enqueue slice_al (fst demo_waiting) (Some (demo_pack 2))"
  have q: "queue ?q = [None, Some (demo_pack 0), None, Some (demo_pack 2)]"
    using demo_waiting_enqueue by (simp add: window_of_def)
  have pw: "PaddingWindowSize (fst demo_waiting) = 10"
    by (simp add: demo_waiting_def)
  have "drain_window env cfg slice_al slice_al (?q, snd demo_waiting) = Some (Ok (?q, snd demo_waiting))"
    by (subst drain_window.simps) (simp add: q pw)
  moreover have "drain_ready env cfg slice_al slice_al (?q, snd demo_waiting) = Some (Ok (?q, snd demo_waiting))"
    by (subst drain_ready.simps) (simp add: q isFirstOk_def)
  ultimately show ?thesis
    by (simp add: RecvPacket_one_def split_beta)
qed

subsection \<open>Properties\<close>

text \<open>
  C20: \<open>Enqueue\<close> implements the window specification for every array list that keeps the laws of the
  library: an empty window starts at the packet's number, a packet older than the head is
  dropped, any other goes to the slot of its number, with empty slots up to there.
\<close>

theorem enqueue_refines:
  assumes "packet_list al"
  shows "window_of al (Enqueue al q (Some p)) = spec_enqueue p (window_of al q)"
  by (rule packet_list.window_of_Enqueue [OF assms])

theorem enqueue_refines_witness:
  "window_of slice_al (Enqueue slice_al (fst demo_stream) (Some (demo_pack 3)))
     = (65534, [Some (demo_pack 65534), None, Some (demo_pack 0), None, None, Some (demo_pack 3)])"
proof -
  have "unat (3 - 65534 :: u16) = 5" "\<not> FirstBeforeSecond 3 65534"
    by (simp_all add: FirstBeforeSecond_def)
  moreover have "replicate 2 None = [None, None :: RtpPack option]"
    by (simp add: numeral_2_eq_2)
  ultimately show ?thesis
    using enqueue_refines [OF spl.packet_list_axioms, of "fst demo_stream" "demo_pack 3"]
    by (simp add: window_of_def demo_stream_def spec_enqueue_def put_at_def demo_pack_seq)
qed

text \<open>
  C7: The receiving goroutine implements the window specification. Every run of \<open>RecvPacket\<close> on a
  sound window is, event by event, a run of the specification: a slot leaves with the packet it
  holds, an empty slot with the retransmitted packet of its number or empty, only protection
  skips slots and only empty ones; and the window stays sound.
\<close>

theorem stream_refines_window:
  assumes "packet_list al" "retransmission env cfg ssrc good answering genuine"
    and "stream_ok al ssrc good qs" "RecvPacket env cfg al wl ps qs = Some (Ok qs')"
  shows "stream_ok al ssrc good qs' \<and> (\<exists>es. stream_run env cfg al wl qs es qs' \<and> arrivals es = ps
    \<and> window_run (promises cfg (PaddingWindowSize (fst qs)) answering genuine)
        (window_of al (fst qs)) es (window_of al (fst qs')))"
proof -
  obtain es where "stream_run env cfg al wl qs es qs'" "arrivals es = ps"
    using RecvPacket_run [OF assms(4)] by blast
  with stream.simulation [OF streamI [OF assms(1,2)] this(1) assms(3)] show ?thesis by blast
qed

text \<open>
  C5: Delivery in sequence. With protection off and a padding window of at least one packet, the
  goroutine always returns from the packets it is given, and the slots it has taken out of the
  window are exactly the consecutive numbers from the old head to the new one, across the wrap
  of the 16-bit counter; each packet taken out has the number of its slot, and if the
  retransmission service answers every request then no slot is empty.
\<close>

theorem delivery_in_sequence:
  assumes "packet_list al" "retransmission env cfg ssrc good answering genuine" "stream_ok al ssrc good (q, s)"
    and "\<not> PROTECT cfg" "1 \<le> PaddingWindowSize q" "al_Values al (queue q) \<noteq> []"
  shows "\<exists>r. RecvPacket env cfg al wl ps (q, s) = Some r \<and> ensures r (\<lambda>(q', s').
    \<exists>es. stream_run env cfg al wl (q, s) es (q', s') \<and> arrivals es = ps
      \<and> map fst (emitted es) = map (\<lambda>i. FirstSeq q + word_of_nat i) [0..<length (emitted es)]
      \<and> FirstSeq q' = FirstSeq q + word_of_nat (length (emitted es))
      \<and> (\<forall>(slot, rp) \<in> set (emitted es).
           (\<forall>p. rp = Some p \<longrightarrow> SequenceNumber p = slot) \<and> (answering \<longrightarrow> rp \<noteq> None)))"
proof -
  note st = streamI [OF assms(1,2)]
  obtain r where r: "RecvPacket env cfg al wl ps (q, s) = Some r"
    using stream.RecvPacket_ends [OF st assms(4,3)] by blast
  have "\<exists>es. stream_run env cfg al wl (q, s) es (q', s') \<and> arrivals es = ps
      \<and> map fst (emitted es) = map (\<lambda>i. FirstSeq q + word_of_nat i) [0..<length (emitted es)]
      \<and> FirstSeq q' = FirstSeq q + word_of_nat (length (emitted es))
      \<and> (\<forall>(slot, rp) \<in> set (emitted es).
           (\<forall>p. rp = Some p \<longrightarrow> SequenceNumber p = slot) \<and> (answering \<longrightarrow> rp \<noteq> None))"
    if ok: "r = Ok (q', s')" for q' s'
  proof -
    obtain es where es: "stream_run env cfg al wl (q, s) es (q', s')" "arrivals es = ps"
      using RecvPacket_run r ok by blast
    have run: "window_run (promises cfg (PaddingWindowSize q) answering genuine) (window_of al q) es (window_of al q')"
      using stream.simulation [OF st es(1) assms(3)] by simp
    show ?thesis
      using es emitted_consecutive [OF run] emitted_seq [OF run] emitted_recovered [OF run] assms(4-6)
      by (intro exI [of _ es]) (auto simp: window_of_def)
  qed
  with r show ?thesis by (auto intro!: ensuresI)
qed

theorem delivery_in_sequence_witness:
  "\<exists>r. RecvPacket node_env (Conf\<lparr>PROTECT := False\<rparr>) slice_al slice_al [Some (demo_pack 1)] demo_stream = Some r
     \<and> ensures r (\<lambda>(q', s'). \<exists>es. arrivals es = [Some (demo_pack 1)]
         \<and> map fst (emitted es) = map (\<lambda>i. 65534 + word_of_nat i) [0..<length (emitted es)]
         \<and> list_all (\<lambda>(slot, rp). rp \<noteq> None) (emitted es))"
proof -
  obtain q s where qs: "demo_stream = (q, s)" "PaddingWindowSize q = 2" "FirstSeq q = 65534" "queue q \<noteq> []"
    by (simp add: demo_stream_def)
  have "\<not> DISABLE_QUIC (Conf\<lparr>PROTECT := False\<rparr>)" by (simp add: Conf_def)
  from delivery_in_sequence [OF spl.packet_list_axioms node_retransmission [OF this, of 7],
      of q s slice_al "[Some (demo_pack 1)]"] demo_stream_ok qs
  show ?thesis by (auto simp: list_all_iff elim!: ensures_mono) fastforce
qed

text \<open>
  C6: Nothing accepted is lost. In every configuration, a packet that arrives at or after the head
  of the window (or at an empty window) is afterwards accounted for: its slot has left the window
  with a packet of its number, or the packet waits in the window. Neither the padding window, nor
  retransmission, nor the skipping of lost packets under protection drops it.
\<close>

theorem accepted_packet_survives:
  assumes "packet_list al" "retransmission env cfg ssrc good answering genuine" "stream_ok al ssrc good (q, s)"
    and "al_Values al (queue q) = [] \<or> \<not> FirstBeforeSecond (SequenceNumber p) (FirstSeq q)"
    and "RecvPacket env cfg al wl (Some p # ps) (q, s) = Some (Ok (q', s'))"
  shows "\<exists>es. stream_run env cfg al wl (q, s) (Arrive (Some p) # es) (q', s') \<and> arrivals es = ps
    \<and> accounted (SequenceNumber p) es (window_of al q')"
proof -
  note st = streamI [OF assms(1,2)]
  obtain es where es: "stream_run env cfg al wl (Enqueue al q (Some p), s) es (q', s')" "arrivals es = ps"
    using RecvPacket_Cons_run [OF assms(5) RecvPacket_run] by (auto elim: stream_run.cases)
  let ?v = "spec_enqueue p (window_of al q)"
  have v: "window_of al (Enqueue al q (Some p)) = ?v"
    by (rule packet_list.window_of_Enqueue [OF assms(1)])
  have "window_run (promises cfg (PaddingWindowSize (Enqueue al q (Some p))) answering genuine) ?v es (window_of al q')"
    using stream.simulation [OF st es(1) stream.stream_ok_Enqueue [OF st assms(3)]] v by simp
  moreover obtain i where "i < length (snd ?v)" "snd ?v ! i \<noteq> None" "fst ?v + word_of_nat i = SequenceNumber p"
    using assms(4) spec_enqueue_slot [of "window_of al q" p] by (auto simp: window_of_def)
  ultimately have "accounted (SequenceNumber p) es (window_of al q')"
    using filled_slot_survives by metis
  with es show ?thesis by (auto intro: stream_run.arrive)
qed

theorem accepted_packet_survives_witness:
  "\<exists>es. arrivals es = [] \<and> accounted 2 es
     (window_of slice_al (Enqueue slice_al (fst demo_waiting) (Some (demo_pack 2))))"
proof -
  have "\<not> FirstBeforeSecond 2 (FirstSeq (fst demo_waiting))"
    by (simp add: FirstBeforeSecond_def demo_waiting_def)
  moreover have "\<not> DISABLE_QUIC Conf" by (simp add: Conf_def)
  ultimately show ?thesis
    using accepted_packet_survives [OF spl.packet_list_axioms node_retransmission [of Conf 7],
        of "fst demo_waiting" "snd demo_waiting" "demo_pack 2" slice_al "[]"]
      demo_waiting_ok demo_waiting_recv [of node_env Conf] by fastforce
qed

text \<open>
  C13: One activation of the goroutine ends. For an arriving packet, on a sound window with a
  non-negative padding window, both loops end, if with the packet in it the window has at most
  5536 slots or protection is off (it is on by default; with more slots the answer to a request
  for the head can compare as a packet far ahead). If the activation ends neither in a panic nor
  blocked on a channel, the window is then no longer than the padding window, and its head is
  missing, or it is the only packet kept.
\<close>

theorem activation_ends:
  assumes "packet_list al" "retransmission env cfg ssrc good answering genuine" "stream_ok al ssrc good (q, s)"
    and "near cfg (window_of al (Enqueue al q p))"
  shows "\<exists>r. RecvPacket_one env cfg al wl p (q, s) = Some r \<and> ensures r (\<lambda>(q', s').
      stream_ok al ssrc good (q', s') \<and> al_Size al (queue q') \<le> PaddingWindowSize q'
      \<and> (isFirstOk al q' \<longrightarrow> al_Size al (queue q') = 1))"
  by (rule stream.RecvPacket_one_ends [OF streamI [OF assms(1,2)] assms(3,4)])

text \<open>
  C16: Order within one activation, also under protection, as long as the window with the packet in
  it then has at most 5536 slots. What one activation that ends normally takes out of the window
  leaves it in strictly increasing slot order, without repetition; every slot in the part that has
  left and that held a packet is among it, with that packet; and what remains is the rest of the
  window, unchanged.
\<close>

theorem activation_in_order:
  assumes "packet_list al" "retransmission env cfg ssrc good answering genuine" "stream_ok al ssrc good (q, s)"
    and "near cfg (window_of al (Enqueue al q p))" "window_of al (Enqueue al q p) = (first, w)"
    and "RecvPacket_one env cfg al wl p (q, s) = Some (Ok (q', s'))"
  shows "\<exists>es k. stream_run env cfg al wl (q, s) (Arrive p # es) (q', s') \<and> arrivals es = []
    \<and> emits_in_order first w k (emitted es) \<and> window_of al q' = (first + word_of_nat k, drop k w)"
proof -
  note st = streamI [OF assms(1,2)]
  obtain es where es: "stream_run env cfg al wl (Enqueue al q p, s) es (q', s')" "arrivals es = []"
    using RecvPacket_one_drains [OF assms(6)] by (auto simp: drains_def)
  moreover have "FirstSeq (Enqueue al q p) = first" "al_Values al (queue (Enqueue al q p)) = w"
    using assms(5) by (simp_all add: window_of_def)
  ultimately show ?thesis
    using stream.drain_in_order [OF st es stream.stream_ok_Enqueue [OF st assms(3)]] assms(4)
    by (auto intro: stream_run.arrive)
qed

text \<open>What \<open>print\<close> logs: for each slot its sequence number, or that it is empty.\<close>

lemma print_slots_window:
  assumes "packet_list al" "window_ok (window_of al q)"
  shows "length (print_slots al q) = length (al_Values al (queue q))
    \<and> (\<forall>i < length (print_slots al q). print_slots al q ! i \<in> {None, Some (FirstSeq q + word_of_nat i)})"
proof -
  let ?w = "al_Values al (queue q)"
  have size: "al_Size al (queue q) = int (length ?w)" using assms(1) by (simp add: packet_list_def arraylist.size)
  have "print_slots al q ! i = map_option SequenceNumber (?w ! i)" if "i < length ?w" for i
    using that assms(1) by (simp add: print_slots_def print_slot_def size nth_upto packet_list_def arraylist.get split: option.split)
  moreover have "length (print_slots al q) = length ?w" by (simp add: print_slots_def size)
  moreover have "SequenceNumber p = FirstSeq q + word_of_nat i" if "i < length ?w" "?w ! i = Some p" for i p
    using assms(2) that by (simp add: window_ok_def window_of_def)
  ultimately show ?thesis by auto
qed

text \<open>
  \<open>PrintInfo\<close> is safe. On a sound window its type assertion on the last element never fails and
  its panic is never reached, so a round ends, and it is the last exactly when the queue was closed.
\<close>

theorem print_info_safe:
  assumes "packet_list al" "window_ok (window_of al q)"
  shows "PrintInfo_round al q = Ok (Ssrc q = 0)"
proof (cases "al_Values al (queue q) = []")
  case True
  with assms(1) show ?thesis
    by (auto simp: PrintInfo_round_def packet_list_def arraylist.get arraylist.size)
next
  case False
  then obtain p where "last (al_Values al (queue q)) = Some p"
    using assms(2) by (auto simp: window_ok_def window_of_def)
  moreover have "nat (int (length (al_Values al (queue q))) - 1) = length (al_Values al (queue q)) - 1"
    by simp
  ultimately have "al_Get al (queue q) (al_Size al (queue q) - 1) = (Some p, True)"
    using assms(1) False
    by (simp add: packet_list_def arraylist.get arraylist.size last_conv_nth del: nat_minus_as_int)
  then show ?thesis by (simp add: PrintInfo_round_def)
qed

theorem print_info_safe_witness: "PrintInfo_round slice_al (fst demo_stream) = Ok False"
  using print_info_safe [OF spl.packet_list_axioms, of "fst demo_stream"] demo_window_ok
  by (simp add: demo_stream_def window_of_def)

lemma reshape_buffer: "reshape env cfg al (q, s) = Ok ((q', s'), n) \<Longrightarrow> UdpBufferSize s' = UdpBufferSize s"
  by (auto simp: reshape_def andthen_eq_Ok split: if_splits prod.splits)

lemma protect_reshape_buffer:
  assumes "protect_reshape env cfg al (q, s) = Ok ((q', s'), b)" "UdpBufferSize s \<le> MAX_UDP_CACHE_SIZE"
  shows "UdpBufferSize s' \<le> MAX_UDP_CACHE_SIZE \<and> UdpBufferSize s' \<in> {UdpBufferSize s, 2 * UdpBufferSize s}"
proof -
  obtain q1 s1 n where r: "reshape env cfg al (q, s) = Ok ((q1, s1), n)"
    using assms(1) by (auto simp: protect_reshape_def andthen_eq_Ok)
  with reshape_buffer [OF r] assms show ?thesis
    by (auto simp: protect_reshape_def Let_def split: if_splits prod.splits)
qed

lemma check_congestion_buffer:
  assumes "check_congestion env cfg al seq (q, s) = Ok ((q', s'), c)" "UdpBufferSize s \<le> MAX_UDP_CACHE_SIZE"
  shows "UdpBufferSize s' \<le> MAX_UDP_CACHE_SIZE
    \<and> UdpBufferSize s' \<in> {UdpBufferSize s} \<union> (if PROTECT cfg then {2 * UdpBufferSize s} else {})"
  using assms
  by (auto simp: check_congestion_def andthen_eq_Ok dest: protect_reshape_buffer split: if_splits)

text \<open>
  C34: The UDP receive buffer grows within its bound. Whatever the environment does, taking a slot
  out of the window leaves the configured buffer size as it is or doubles it, and never takes it
  above \<open>MAX_UDP_CACHE_SIZE\<close>; without protection it is never changed.
\<close>

theorem udp_buffer_bounded:
  assumes "Dequeue env cfg al (q, s) = Ok (rp, q', s')" "UdpBufferSize s \<le> MAX_UDP_CACHE_SIZE"
  shows "UdpBufferSize s' \<le> MAX_UDP_CACHE_SIZE
    \<and> UdpBufferSize s' \<in> {UdpBufferSize s} \<union> (if PROTECT cfg then {2 * UdpBufferSize s} else {})"
proof (cases "isFirstOk al q")
  case True
  with assms show ?thesis by (auto simp: Dequeue_def Let_def)
next
  case False
  with assms(1) obtain q1 s1 c where cc: "check_congestion env cfg al (FirstSeq q) (q\<lparr>accLoss := accLoss q + 1\<rparr>, s)
      = Ok ((q1, s1), c)" and "UdpBufferSize s' = UdpBufferSize s1"
    by (auto simp: Dequeue_def runQuic_def andthen_eq_Ok Let_def split: if_splits)
  with check_congestion_buffer [OF cc assms(2)] show ?thesis by simp
qed

theorem udp_buffer_bounded_witness:
  "\<exists>rp q' s'. Dequeue node_env Conf slice_al demo_stream = Ok (rp, q', s') \<and> UdpBufferSize s' \<le> MAX_UDP_CACHE_SIZE"
proof -
  obtain q' s' where d: "Dequeue node_env Conf slice_al (fst demo_stream, snd demo_stream) = Ok (Some (demo_pack 65534), q', s')"
    by (simp add: Dequeue_def isFirstOk_def demo_stream_def)
  moreover have "UdpBufferSize (snd demo_stream) \<le> MAX_UDP_CACHE_SIZE"
    by (simp add: demo_stream_def MAX_UDP_CACHE_SIZE_def)
  ultimately show ?thesis using udp_buffer_bounded [OF d] by auto
qed

text \<open>
  A new queue starts in a sound state: for a non-negative padding window and channel size,
  \<open>NewQueue\<close> returns a queue with an empty window, a fresh reassembly record and an empty cache of
  segments, in the state from which the receiving goroutine's guarantees hold.
\<close>

theorem new_queue_ok:
  assumes "packet_list al" "0 \<le> wz" "0 \<le> RTP_QUEUE_CHAN_SIZE cfg" "good (quic s)"
  shows "\<exists>q. NewQueue al wl cfg hlsSrc ssrc key wz NewFlvRecord file_ref = Ok q
    \<and> window_of al q = (0, []) \<and> stream_ok al ssrc good (q, s) \<and> cache_inv (cache q)
    \<and> flvRecord q = NewFlvRecord \<and> (hlsWriter q = Some hlsSrc \<longleftrightarrow> ENABLE_HLS cfg)"
  using assms
  by (auto simp: NewQueue_def make_chan_int_def window_of_def stream_ok_def window_ok_def
      packet_list_def arraylist.values_new)

theorem new_queue_ok_witness:
  "\<exists>q. NewQueue slice_al slice_al Conf 0 7 ''live/a'' 100 NewFlvRecord None = Ok q
     \<and> stream_ok slice_al 7 (idle id 0 1 2) (q, snd demo_stream)"
  using new_queue_ok [OF spl.packet_list_axioms, of 100 Conf "idle id 0 1 2" "snd demo_stream" slice_al 0 7 "''live/a''" None]
  by (auto simp: Conf_def demo_stream_def idle_def)

end
