(* ===== verification/Flv_Reassembly.thy ===== *)
theory Flv_Reassembly
  imports Rtp_Queue "HOL-Library.Sublist"
begin

text \<open>
  Reassembly of FLV tags from RTP payloads: the record of \<open>extractFlv\<close> over a sequence of slots.
  Whole tags come out exactly as they were fragmented, and under arbitrary losses every tag that
  comes out is one that was sent.
\<close>

subsection \<open>Reassembly of a sequence of slots\<close>

text \<open>As \<open>extractFlv\<close> does after delivering a tag, the record is reset after each.\<close>

fun feed :: "FlvRecord \<Rightarrow> RtpPack option list \<Rightarrow> (FlvRecord \<times> slice list) go" where
  "feed r [] = Ok (r, [])"
| "feed r (p # ps) = andthen (reassemble r p) (\<lambda>(r, d).
     case d of
       None \<Rightarrow> feed r ps
     | Some t \<Rightarrow> andthen (feed (Reset r) ps) (\<lambda>(r, ts). Ok (r, t # ts)))"

lemma feed_append:
  "feed r (ps @ qs) = andthen (feed r ps) (\<lambda>(r, ts).
     andthen (feed r qs) (\<lambda>(r, us). Ok (r, ts @ us)))"
proof (induction ps arbitrary: r)
  case Nil
  then show ?case by (cases "feed r qs") auto
next
  case (Cons p ps)
  show ?case
    by (cases "reassemble r p") (auto simp: Cons.IH split_beta andthen_assoc split: option.split)
qed

subsection \<open>What a sender sends\<close>

text \<open>An FLV tag: a header of eleven bytes, whose size field gives the length of the rest.\<close>

definition tag_ok :: "byte list \<Rightarrow> bool" where
  "tag_ok t \<longleftrightarrow> 11 \<le> length t \<and> unat (be24 (t ! 1) (t ! 2) (t ! 3)) + 11 = length t"

text \<open>
  The packets of one tag: the payloads make up the tag, only the last packet has the marker, the
  first holds at least the size field, and no later one looks like a complete tag itself.
\<close>

definition payload_bytes :: "RtpPack \<Rightarrow> byte list" where
  "payload_bytes p = bytes (Payload p)"

definition packets_of :: "byte list \<Rightarrow> RtpPack list \<Rightarrow> bool" where
  "packets_of t ps \<longleftrightarrow> tag_ok t \<and> ps \<noteq> [] \<and> concat (map payload_bytes ps) = t
     \<and> (\<forall>p \<in> set ps. slice_ok (Payload p) \<and> payload_bytes p \<noteq> [])
     \<and> (\<forall>p \<in> set (butlast ps). Marker p = 0) \<and> Marker (last ps) \<noteq> 0
     \<and> 4 \<le> length (payload_bytes (hd ps)) \<and> (\<forall>p \<in> set (tl ps). \<not> IsTagHead (Payload p))"

subsection \<open>The states of the record\<close>

definition fresh :: "FlvRecord \<Rightarrow> bool" where
  "fresh r \<longleftrightarrow> flvTag r = None \<and> pos r = 0 \<and> \<not> jumpToNextHead r"

definition jumping :: "FlvRecord \<Rightarrow> bool" where
  "jumping r \<longleftrightarrow> flvTag r = None \<and> pos r = 0 \<and> jumpToNextHead r"

text \<open>The first \<open>k\<close> bytes of \<open>t\<close> have been received.\<close>

definition holding :: "FlvRecord \<Rightarrow> byte list \<Rightarrow> nat \<Rightarrow> bool" where
  "holding r t k \<longleftrightarrow> k \<le> length t \<and> \<not> jumpToNextHead r \<and> TagSize r = length t \<and> pos r = k
     \<and> flvTag r = Some \<lparr>sl_mem = take k t @ replicate (length t - k) 0, sl_len = length t\<rparr>"

lemma fresh_New [simp]: "fresh NewFlvRecord"
  by (simp add: fresh_def NewFlvRecord_def)

lemma jumping_lose [simp]: "jumping (lose r)"
  by (simp add: jumping_def lose_def Reset_def)

lemma fresh_Reset: "\<not> jumpToNextHead r \<Longrightarrow> fresh (Reset r)"
  by (simp add: fresh_def Reset_def)

lemma unat_tag_size: "unat (be24 a b c + 11) = unat (be24 a b c) + 11"
proof -
  have "unat (be24 a b c) + 11 < 2 ^ 32"
    using unat_byte_less [of a] unat_byte_less [of b] unat_byte_less [of c]
    unfolding unat_be24 power_numeral Num.pow.simps Num.sqr.simps by linarith
  then show ?thesis by (simp add: unat_word_ariths)
qed

lemma bytes_full: "length t = n \<Longrightarrow> bytes \<lparr>sl_mem = t, sl_len = n\<rparr> = t"
  by (simp add: bytes_def)

subsection \<open>One fragment\<close>

lemma copy_fragment:
  assumes "t = take k t @ c @ rest" "k \<le> length t"
  shows "copy_into \<lparr>sl_mem = take k t @ replicate (length t - k) 0, sl_len = length t\<rparr> k (k + length c) c
    = Ok \<lparr>sl_mem = take (k + length c) t @ replicate (length t - (k + length c)) 0, sl_len = length t\<rparr>"
proof -
  have len: "length t = k + length c + length rest" "drop k t = c @ rest"
    using arg_cong [OF assms(1), of length] arg_cong [OF assms(1), of "drop k"] assms(2) by simp_all
  then have "take (k + length c) t = take k t @ c"
    by (simp add: take_add)
  with len show ?thesis by (simp add: copy_into_def)
qed

lemma reassemble_more:
  assumes "holding r t k" "t = take k t @ payload_bytes p @ rest"
    and "slice_ok (Payload p)" "Marker p = 0"
  shows "\<exists>r'. reassemble r (Some p) = Ok (r', None) \<and> holding r' t (k + length (payload_bytes p))"
proof -
  have "length t = k + length (payload_bytes p) + length rest"
    using arg_cong [OF assms(2), of length] assms(1) by (simp add: holding_def)
  with copy_fragment [OF assms(2)] assms(1,3,4) show ?thesis
    by (auto simp: reassemble_def add_fragment_def holding_def payload_bytes_def)
qed

lemma reassemble_end:
  assumes "holding r t k" "t = take k t @ payload_bytes p"
    and "slice_ok (Payload p)" "Marker p \<noteq> 0"
  shows "\<exists>r' s. reassemble r (Some p) = Ok (r', Some s) \<and> bytes s = t \<and> \<not> jumpToNextHead r'"
proof -
  have "length t = k + length (payload_bytes p)"
    using arg_cong [OF assms(2), of length] assms(1) by (simp add: holding_def)
  with copy_fragment [of t k "payload_bytes p" "[]"] assms show ?thesis
    by (auto simp: reassemble_def add_fragment_def holding_def payload_bytes_def bytes_full)
qed

lemma reassemble_first:
  assumes "fresh r" "tag_ok t" "t = payload_bytes p @ rest" "4 \<le> length (payload_bytes p)"
    and "slice_ok (Payload p)" "Marker p = 0"
  shows "\<exists>r'. reassemble r (Some p) = Ok (r', None) \<and> holding r' t (length (payload_bytes p))"
proof -
  let ?m = "sl_mem (Payload p)"
  have len: "4 \<le> sl_len (Payload p)" "sl_len (Payload p) \<le> length ?m" "sl_len (Payload p) \<le> length t"
      "length (payload_bytes p) = sl_len (Payload p)"
    using assms(3-5) by (auto simp: payload_bytes_def slice_ok_def)
  have "t ! i = ?m ! i" if "i < 4" for i
    using that len assms(3) by (simp add: payload_bytes_def nth_append nth_bytes)
  with assms(2) have size: "unat (be24 (?m ! 1) (?m ! 2) (?m ! 3) + 11) = length t"
    by (simp add: tag_ok_def unat_tag_size)
  have "copy_into (make_bytes (length t)) 0 (sl_len (Payload p)) (payload_bytes p)
      = Ok \<lparr>sl_mem = take (sl_len (Payload p)) t @ replicate (length t - sl_len (Payload p)) 0, sl_len = length t\<rparr>"
    using copy_fragment [of t 0 "payload_bytes p" rest] assms(3) len
    by (simp add: make_bytes_def of_bytes_def)
  with size [unfolded One_nat_def numeral_2_eq_2 numeral_3_eq_3] len assms(1,6) show ?thesis
    by (auto simp: reassemble_def add_fragment_def fresh_def holding_def sl_slice_def payload_bytes_def Let_def)
qed

lemma reassemble_whole:
  assumes "fresh r" "Marker p \<noteq> 0"
  shows "\<exists>r'. reassemble r (Some p) = Ok (r', Some (Payload p)) \<and> \<not> jumpToNextHead r'"
  using assms by (auto simp: reassemble_def add_fragment_def fresh_def)

lemma reassemble_lost: "\<exists>r'. reassemble r None = Ok (r', None) \<and> jumping r'"
  by (simp add: reassemble_def)

lemma reassemble_skip:
  "jumping r \<Longrightarrow> \<not> IsTagHead (Payload p) \<Longrightarrow> reassemble r (Some p) = Ok (r, None)"
  by (simp add: reassemble_def jumping_def)

lemma reassemble_resume:
  "jumping r \<Longrightarrow> IsTagHead (Payload p) \<Longrightarrow> Marker p \<noteq> 0 \<Longrightarrow>
     \<exists>r'. reassemble r (Some p) = Ok (r', Some (Payload p)) \<and> \<not> jumpToNextHead r'"
  by (auto simp: reassemble_def jumping_def add_fragment_def)

subsection \<open>One tag, with losses\<close>

text \<open>What arrives of a sequence of packets: each or, in its place, an empty slot.\<close>

definition received :: "RtpPack option list \<Rightarrow> RtpPack list \<Rightarrow> bool" where
  "received = list_all2 (\<lambda>x p. x = None \<or> x = Some p)"

lemma received_Nil [simp]: "received xs [] \<longleftrightarrow> xs = []"
  by (simp add: received_def)

lemma received_Cons:
  "received xs (p # ps) \<longleftrightarrow> (\<exists>x ys. xs = x # ys \<and> (x = None \<or> x = Some p) \<and> received ys ps)"
  by (simp add: received_def list_all2_Cons2)

lemma feed_None: "reassemble r p = Ok (r', None) \<Longrightarrow> feed r (p # ps) = feed r' ps"
  by simp

lemma feed_Some:
  "reassemble r p = Ok (r', Some t) \<Longrightarrow>
     feed r (p # ps) = andthen (feed (Reset r') ps) (\<lambda>(r, ts). Ok (r, t # ts))"
  by simp

lemma feed_jumping:
  assumes "jumping r" "received xs ps" "\<forall>p \<in> set ps. \<not> IsTagHead (Payload p)"
  shows "\<exists>r'. feed r xs = Ok (r', []) \<and> jumping r'"
  using assms
proof (induction ps arbitrary: r xs)
  case (Cons p ps)
  then obtain x ys where xs: "xs = x # ys" "x = None \<or> x = Some p" "received ys ps"
    by (auto simp: received_Cons)
  obtain r1 where "reassemble r x = Ok (r1, None)" "jumping r1"
    using xs(2) reassemble_lost [of r] reassemble_skip [OF Cons.prems(1), of p] Cons.prems by auto
  with xs Cons.IH [of r1 ys] Cons.prems(3) show ?case by (simp add: feed_None)
qed simp

lemma feed_holding:
  assumes "holding r t k" "t = take k t @ concat (map payload_bytes ps)" "ps \<noteq> []" "received xs ps"
    and "\<forall>p \<in> set ps. slice_ok (Payload p) \<and> \<not> IsTagHead (Payload p)"
    and "\<forall>p \<in> set (butlast ps). Marker p = 0" "Marker (last ps) \<noteq> 0"
  shows "\<exists>r' ts. feed r xs = Ok (r', ts)
    \<and> (fresh r' \<and> map bytes ts = [t] \<or> jumping r' \<and> ts = [] \<and> None \<in> set xs)"
  using assms
proof (induction ps arbitrary: r k xs)
  case (Cons p ps)
  then obtain x ys where xs: "xs = x # ys" "x = None \<or> x = Some p" "received ys ps"
    by (auto simp: received_Cons)
  show ?case
  proof (cases "x = None")
    case True
    obtain r1 where "reassemble r x = Ok (r1, None)" "jumping r1"
      using reassemble_lost [of r] True by auto
    with xs feed_jumping [of r1 ys ps] Cons.prems(5) True show ?thesis by (auto simp: feed_None)
  next
    case False
    with xs have x: "x = Some p" by simp
    show ?thesis
    proof (cases "ps = []")
      case True
      with Cons.prems obtain r1 s where "reassemble r x = Ok (r1, Some s)" "bytes s = t" "\<not> jumpToNextHead r1"
        using reassemble_end [OF Cons.prems(1), of p] x by auto
      with xs True show ?thesis by (simp add: feed_Some fresh_Reset)
    next
      case False
      with Cons.prems obtain r1 where r1: "reassemble r x = Ok (r1, None)" "holding r1 t (k + length (payload_bytes p))"
        using reassemble_more [OF Cons.prems(1), of p "concat (map payload_bytes ps)"] x by auto
      have "drop k t = payload_bytes p @ concat (map payload_bytes ps)"
        using arg_cong [OF Cons.prems(2), of "drop k"] Cons.prems(1) by (simp add: holding_def)
      then have "take (k + length (payload_bytes p)) t = take k t @ payload_bytes p"
        by (simp add: take_add)
      then have "t = take (k + length (payload_bytes p)) t @ concat (map payload_bytes ps)"
        using Cons.prems(2) by simp
      with Cons.IH [OF r1(2) _ False xs(3)] Cons.prems False r1(1) xs x show ?thesis
        by (simp add: feed_None)
    qed
  qed
qed simp

text \<open>The first packet of several is no complete tag.\<close>

lemma not_tag_head:
  assumes "tag_ok t" "t = payload_bytes p @ rest" "rest \<noteq> []" "slice_ok (Payload p)"
  shows "\<not> IsTagHead (Payload p)"
proof -
  let ?m = "sl_mem (Payload p)"
  have "length (payload_bytes p) = sl_len (Payload p)"
    using assms(4) by (simp add: payload_bytes_def)
  moreover have "t ! i = ?m ! i" if "i < sl_len (Payload p)" for i
    using that assms(2) calculation by (simp add: payload_bytes_def nth_append nth_bytes)
  ultimately show ?thesis
    using assms(1-3) arg_cong [OF assms(2), of length]
    by (auto simp: IsTagHead_def tag_ok_def unat_tag_size Let_def split: if_splits)
qed

lemma feed_tag:
  assumes tag: "packets_of t ps" "received xs ps" and r: "fresh r \<or> jumping r"
  shows "\<exists>r' ts. feed r xs = Ok (r', ts)
    \<and> (fresh r' \<and> map bytes ts = [t] \<or> jumping r' \<and> ts = [])
    \<and> (None \<notin> set xs \<longrightarrow> fresh r \<or> length ps = 1 \<and> IsTagHead (Payload (hd ps)) \<longrightarrow> fresh r')"
proof -
  from tag obtain p qs x ys where ps: "ps = p # qs" and xs: "xs = x # ys" "x = None \<or> x = Some p" "received ys qs"
    by (cases ps) (auto simp: packets_of_def received_Cons)
  have t: "tag_ok t" "t = payload_bytes p @ concat (map payload_bytes qs)" "4 \<le> length (payload_bytes p)"
      "slice_ok (Payload p)" "\<forall>p \<in> set qs. slice_ok (Payload p) \<and> payload_bytes p \<noteq> [] \<and> \<not> IsTagHead (Payload p)"
    using tag(1) ps by (auto simp: packets_of_def)
  show ?thesis
  proof (cases "x = None \<or> jumping r \<and> \<not> IsTagHead (Payload p)")
    case True
    obtain r1 where r1: "reassemble r x = Ok (r1, None)" "jumping r1"
      using True xs(2) reassemble_lost [of r] reassemble_skip [of r p] by auto
    with xs feed_jumping [OF r1(2) xs(3)] t(5) True ps show ?thesis
      by (auto simp: feed_None fresh_def jumping_def)
  next
    case False
    with xs have x: "x = Some p" by auto
    show ?thesis
    proof (cases "qs = []")
      case True
      then have "Marker p \<noteq> 0" "bytes (Payload p) = t" "ys = []"
        using tag(1) ps t(2) xs(3) by (auto simp: packets_of_def payload_bytes_def)
      moreover obtain r1 where "reassemble r x = Ok (r1, Some (Payload p))" "\<not> jumpToNextHead r1"
        using False r x calculation(1) reassemble_whole [of r p] reassemble_resume [of r p] by auto
      ultimately show ?thesis using xs(1) by (simp add: feed_Some fresh_Reset)
    next
      case multi: False
      then have rest: "concat (map payload_bytes qs) \<noteq> []" using t(5) by (cases qs) auto
      have "fresh r" using not_tag_head [OF t(1,2) rest t(4)] False r by auto
      moreover have m: "Marker p = 0" "\<forall>p \<in> set (butlast qs). Marker p = 0" "Marker (last qs) \<noteq> 0"
        using tag(1) ps multi by (auto simp: packets_of_def)
      ultimately obtain r1 where r1: "reassemble r x = Ok (r1, None)" "holding r1 t (length (payload_bytes p))"
        using reassemble_first [OF _ t(1-4)] x by blast
      have "t = take (length (payload_bytes p)) t @ concat (map payload_bytes qs)" using t(2) by simp
      from feed_holding [OF r1(2) this multi xs(3) _ m(2,3)] t(5) r1(1) xs(1) show ?thesis
        by (auto simp: feed_None)
    qed
  qed
qed

subsection \<open>A stream of tags\<close>

lemma feed_tags:
  assumes "list_all2 packets_of tags pss" "list_all2 received xss pss" "fresh r \<or> jumping r"
  shows "\<exists>r' ts. feed r (concat xss) = Ok (r', ts) \<and> (fresh r' \<or> jumping r') \<and> subseq (map bytes ts) tags
    \<and> (fresh r \<longrightarrow> (\<forall>xs \<in> set xss. None \<notin> set xs) \<longrightarrow> map bytes ts = tags)"
  using assms
proof (induction arbitrary: r xss rule: list_all2_induct)
  case Nil
  then show ?case by simp
next
  case (Cons t tags ps pss)
  then obtain xs yss where xss: "xss = xs # yss" "received xs ps" "list_all2 received yss pss"
    by (auto simp: list_all2_Cons2)
  obtain r1 us where r1: "feed r xs = Ok (r1, us)" "fresh r1 \<and> map bytes us = [t] \<or> jumping r1 \<and> us = []"
      "None \<notin> set xs \<longrightarrow> fresh r \<longrightarrow> fresh r1"
    using feed_tag [OF Cons.hyps(1) xss(2) Cons.prems(2)] by auto
  then obtain r2 ts where r2: "feed r1 (concat yss) = Ok (r2, ts)" "fresh r2 \<or> jumping r2"
      "subseq (map bytes ts) tags" "fresh r1 \<longrightarrow> (\<forall>xs \<in> set yss. None \<notin> set xs) \<longrightarrow> map bytes ts = tags"
    using Cons.IH [OF xss(3), of r1] by blast
  with r1 xss(1) show ?case
    by (auto simp: feed_append fresh_def jumping_def)
qed

text \<open>
  C8: Reassembly is faithful. Fed with the packets of any sequence of tags, with any of them
  missing, the reassembly never panics, and the tags that come out are tags that were sent, byte
  for byte, in the order they were sent; if no packet is missing, exactly the tags that were sent.
\<close>

theorem reassembly_faithful:
  assumes "list_all2 packets_of tags pss" "list_all2 received xss pss"
  shows "\<exists>r ts. feed NewFlvRecord (concat xss) = Ok (r, ts) \<and> subseq (map bytes ts) tags
    \<and> ((\<forall>xs \<in> set xss. None \<notin> set xs) \<longrightarrow> map bytes ts = tags)"
proof -
  have "fresh NewFlvRecord" by simp
  with feed_tags [OF assms, of NewFlvRecord] show ?thesis by blast
qed

text \<open>Two audio tags, the first in two packets, the second in one.\<close>

definition frag :: "byte list \<Rightarrow> byte \<Rightarrow> RtpPack" where
  "frag bs m = \<lparr>Version = 2, Padding = False, Extension = False, CSRCCnt = 0, Marker = m,
     PayloadType = 97, SequenceNumber = 0, Timestamp = 0, SSRC = 7, Payload = of_bytes bs, PayloadOffset = 12\<rparr>"

definition long_tag :: "byte list" where
  "long_tag = [8, 0, 0, 3, 0, 0, 0, 0, 0, 0, 0, 175, 1, 9]"

definition short_tag :: "byte list" where
  "short_tag = [8, 0, 0, 2, 0, 0, 0, 0, 0, 0, 0, 175, 1]"

lemma be24_small: "be24 0 0 3 = 3" "be24 0 0 2 = 2"
  by (simp_all add: be24_def)

lemma packets_of_long: "packets_of long_tag [frag (take 6 long_tag) 0, frag (drop 6 long_tag) 1]"
  by (simp add: packets_of_def tag_ok_def payload_bytes_def frag_def long_tag_def be24_small IsTagHead_def)

lemma packets_of_short: "packets_of short_tag [frag short_tag 1]"
  by (simp add: packets_of_def tag_ok_def payload_bytes_def frag_def short_tag_def be24_small)

theorem reassembly_faithful_witness:
  "\<exists>r ts. feed NewFlvRecord [Some (frag (take 6 long_tag) 0), Some (frag (drop 6 long_tag) 1), Some (frag short_tag 1)]
     = Ok (r, ts) \<and> map bytes ts = [long_tag, short_tag]"
  using reassembly_faithful [of "[long_tag, short_tag]"
      "[[frag (take 6 long_tag) 0, frag (drop 6 long_tag) 1], [frag short_tag 1]]"
      "[[Some (frag (take 6 long_tag) 0), Some (frag (drop 6 long_tag) 1)], [Some (frag short_tag 1)]]"]
    packets_of_long packets_of_short
  by (auto simp: received_Cons simp del: feed.simps)

text \<open>
  C27: Reassembly recovers. Whatever was lost before, from the first tag on that fills a single
  packet and passes the test \<open>IsTagHead\<close>, and with no further loss, every tag comes out.
\<close>

theorem reassembly_resumes:
  assumes "list_all2 packets_of tags pss" "list_all2 received xss pss"
    and "packets_of t [p]" "IsTagHead (Payload p)"
    and "list_all2 packets_of tags' pss'" "list_all2 received xss' pss'" "\<forall>xs \<in> set xss'. None \<notin> set xs"
  shows "\<exists>r ts us. feed NewFlvRecord (concat xss @ [Some p] @ concat xss') = Ok (r, ts)
    \<and> map bytes ts = us @ t # tags' \<and> subseq us tags"
proof -
  have "fresh NewFlvRecord" by simp
  with feed_tags [OF assms(1,2), of NewFlvRecord] obtain r1 ts1 where
    1: "feed NewFlvRecord (concat xss) = Ok (r1, ts1)" "fresh r1 \<or> jumping r1" "subseq (map bytes ts1) tags"
    by blast
  have "received [Some p] [p]" by (simp add: received_Cons)
  from feed_tag [OF assms(3) this 1(2)] assms(4) obtain r2 ts2 where
    2: "feed r1 [Some p] = Ok (r2, ts2)" "fresh r2" "map bytes ts2 = [t]"
    by (auto simp: fresh_def jumping_def simp del: feed.simps)
  from feed_tags [OF assms(5,6), of r2] 2(2) assms(7) obtain r3 ts3 where
    3: "feed r2 (concat xss') = Ok (r3, ts3)" "map bytes ts3 = tags'"
    by blast
  have "feed NewFlvRecord (concat xss @ [Some p] @ concat xss') = Ok (r3, ts1 @ ts2 @ ts3)"
    by (simp add: feed_append 1(1) 2(1) 3(1) del: feed.simps append.simps)
  with 1 2 3 show ?thesis by (intro exI conjI) auto
qed

theorem reassembly_resumes_witness:
  "\<exists>r ts us. feed NewFlvRecord [None, Some (frag (drop 6 long_tag) 1), Some (frag short_tag 1),
       Some (frag (take 6 long_tag) 0), Some (frag (drop 6 long_tag) 1)] = Ok (r, ts)
     \<and> map bytes ts = us @ [short_tag, long_tag]"
proof -
  have "IsTagHead (Payload (frag short_tag 1))"
    by (simp add: IsTagHead_def frag_def short_tag_def be24_small)
  then show ?thesis
    using reassembly_resumes [of "[long_tag]" "[[frag (take 6 long_tag) 0, frag (drop 6 long_tag) 1]]"
        "[[None, Some (frag (drop 6 long_tag) 1)]]" short_tag "frag short_tag 1"
        "[long_tag]" "[[frag (take 6 long_tag) 0, frag (drop 6 long_tag) 1]]"
        "[[Some (frag (take 6 long_tag) 0), Some (frag (drop 6 long_tag) 1)]]"]
      packets_of_long packets_of_short
    by (auto simp: received_Cons simp del: feed.simps)
qed

text \<open>
  C39: A first fragment that is longer than the tag it announces crashes: the copy into the new
  buffer slices beyond it, and nothing recovers the panic.
\<close>

theorem oversized_fragment_panics:
  assumes "fresh r" "slice_ok (Payload p)" "Marker p = 0" "4 \<le> sl_len (Payload p)"
    and "unat (be24 (bytes (Payload p) ! 1) (bytes (Payload p) ! 2) (bytes (Payload p) ! 3)) + 11 < sl_len (Payload p)"
  shows "extractFlv env cfg wl (Some p) (q\<lparr>flvRecord := r\<rparr>, s) = Panic SliceBounds"
proof -
  let ?m = "sl_mem (Payload p)"
  have "bytes (Payload p) ! i = ?m ! i" if "i < 4" for i
    using that assms(4) by (simp add: nth_bytes)
  with assms(5) have "unat (be24 (?m ! 1) (?m ! 2) (?m ! 3) + 11) < sl_len (Payload p)"
    by (simp add: unat_tag_size)
  with assms show ?thesis
    by (simp add: extractFlv_def reassemble_def add_fragment_def fresh_def sl_slice_def slice_ok_def
        copy_into_def make_bytes_def Let_def numeral_2_eq_2 numeral_3_eq_3)
qed

theorem oversized_fragment_panics_witness:
  "\<forall>env cfg wl q s. extractFlv env cfg wl (Some (frag ([8, 0, 0, 2] @ replicate 20 0) 0))
     (q\<lparr>flvRecord := NewFlvRecord\<rparr>, s) = Panic SliceBounds"
  by (intro allI oversized_fragment_panics) (simp_all add: frag_def be24_small)

end
