(* ===== verification/Stream_Output.thy ===== *)
theory Stream_Output
  imports Queue_Properties Flv_Reassembly
begin

text \<open>
  From packets to tags: the reassembly record of a stream follows the slots that leave its window,
  and the two halves of the pipeline compose.
\<close>

definition tags_state :: "('l, 'm, 'w) qs \<Rightarrow> FlvRecord \<times> int" where
  "tags_state qs = (flvRecord (fst qs), accFlvTags (fst qs))"

lemma getDelay_tags: "ensures (getDelay env cfg tag qs) (\<lambda>qs'. tags_state qs' = tags_state qs)"
  by (cases qs)
    (auto simp: getDelay_def ensures_andthen Let_def tags_state_def intro!: ensuresI split: prod.splits option.splits if_splits)

lemma count_tag_tags:
  "ensures (count_tag env cfg tag qs) (\<lambda>qs'. tags_state qs' = (flvRecord (fst qs), accFlvTags (fst qs) + 1))"
proof (cases qs)
  case (Pair q s)
  let ?qs = "(q\<lparr>accFlvTags := accFlvTags q + 1\<rparr>, s)"
  show ?thesis
    using getDelay_tags [of env cfg tag ?qs] Pair
    by (auto simp: count_tag_def Let_def tags_state_def elim: ensures_mono)
qed

lemma remember_segment_tags: "ensures (remember_segment tag qs) (\<lambda>qs'. tags_state qs' = tags_state qs)"
  by (cases qs) (auto simp: remember_segment_def ensures_andthen tags_state_def intro!: ensuresI)

lemma fan_out_tags: "ensures (fan_out wl tag qs) (\<lambda>(qs', _). tags_state qs' = tags_state qs)"
  by (cases qs) (auto simp: fan_out_def ensures_andthen tags_state_def intro!: ensuresI)

lemma to_hls_tags: "ensures (to_hls env tag qs) (\<lambda>qs'. tags_state qs' = tags_state qs)"
  by (cases qs)
    (auto simp: to_hls_def ensures_andthen andthen_eq_Ok Let_def tags_state_def intro!: ensuresI split: option.splits)

lemma to_file_tags: "ensures (to_file tag qs) (\<lambda>qs'. tags_state qs' = tags_state qs)"
  by (cases qs)
    (auto simp: to_file_def ensures_andthen andthen_eq_Ok tags_state_def intro!: ensuresI split: option.splits prod.splits)

lemma reset_record_tags: "tags_state (reset_record qs) = (Reset (fst (tags_state qs)), snd (tags_state qs))"
  by (cases qs) (simp add: reset_record_def tags_state_def)

lemma deliver_tags:
  "ensures (deliver env cfg wl tag qs)
     (\<lambda>qs'. tags_state qs' = (Reset (flvRecord (fst qs)), accFlvTags (fst qs) + 1))"
  unfolding deliver_def ensures_andthen
  by (rule ensures_mono [OF count_tag_tags], rule ensures_mono [OF remember_segment_tags],
      rule ensures_mono [OF fan_out_tags])
    (auto simp: ensures_andthen reset_record_tags
      intro!: ensures_mono [OF to_hls_tags] ensures_mono [OF to_file_tags])

text \<open>One slot through \<open>extractFlv\<close> is one step of the reassembly.\<close>

lemma extractFlv_feed:
  assumes "extractFlv env cfg wl rp (q, s) = Ok (q', s')"
  shows "\<exists>ts. feed (flvRecord q) [rp] = Ok (flvRecord q', ts) \<and> accFlvTags q' = accFlvTags q + int (length ts)"
proof -
  from assms obtain r d where r: "reassemble (flvRecord q) rp = Ok (r, d)"
    and rest: "(case d of None \<Rightarrow> Ok (q\<lparr>flvRecord := r\<rparr>, s)
      | Some tag \<Rightarrow> deliver env cfg wl tag (q\<lparr>flvRecord := r\<rparr>, s)) = Ok (q', s')"
    by (auto simp: extractFlv_def andthen_eq_Ok Let_def)
  show ?thesis
  proof (cases d)
    case None
    with r rest show ?thesis by auto
  next
    case (Some tag)
    with rest have "tags_state (q', s') = (Reset r, accFlvTags q + 1)"
      using ensuresD [OF deliver_tags [of env cfg wl tag "(q\<lparr>flvRecord := r\<rparr>, s)"]] by simp
    with Some r show ?thesis by (simp add: tags_state_def)
  qed
qed

lemma Enqueue_tags [simp]:
  "flvRecord (Enqueue al q p) = flvRecord q" "accFlvTags (Enqueue al q p) = accFlvTags q"
  by (simp_all add: Enqueue_def Let_def split: option.split)

lemma Enqueue_delivery:
  "cache (Enqueue al q p) = cache q" "FlvWriters (Enqueue al q p) = FlvWriters q"
  "hlsWriter (Enqueue al q p) = hlsWriter q" "flvFile (Enqueue al q p) = flvFile q"
  by (simp_all add: Enqueue_def Let_def split: option.split)

lemma Dequeue_tags:
  assumes "Dequeue env cfg al (q, s) = Ok (rp, q', s')" "\<not> PROTECT cfg"
  shows "flvRecord q' = flvRecord q \<and> accFlvTags q' = accFlvTags q"
  using assms
  by (auto simp: Dequeue_def runQuic_def check_congestion_def andthen_eq_Ok Let_def split: if_splits)

lemma stream_run_feed:
  assumes "stream_run env cfg al wl qs es qs'" "\<not> PROTECT cfg"
  shows "\<exists>ts. feed (flvRecord (fst qs)) (map snd (emitted es)) = Ok (flvRecord (fst qs'), ts)
    \<and> accFlvTags (fst qs') = accFlvTags (fst qs) + int (length ts)"
  using assms
proof (induction rule: stream_run.induct)
  case (emit q s rp q1 s1 qs2 es qs')
  obtain q2 s2 where qs2: "qs2 = (q2, s2)" by (cases qs2)
  obtain ts where "feed (flvRecord q1) [rp] = Ok (flvRecord q2, ts)" "accFlvTags q2 = accFlvTags q1 + int (length ts)"
    using extractFlv_feed [of env cfg wl rp q1 s1 q2 s2] emit(3) qs2 by blast
  moreover obtain us where "feed (flvRecord q2) (map snd (emitted es)) = Ok (flvRecord (fst qs'), us)"
      "accFlvTags (fst qs') = accFlvTags q2 + int (length us)"
    using emit.IH emit.prems qs2 by auto
  moreover have "feed (flvRecord q) (rp # map snd (emitted es))
      = andthen (feed (flvRecord q) [rp]) (\<lambda>(r, ts).
          andthen (feed r (map snd (emitted es))) (\<lambda>(r, us). Ok (r, ts @ us)))"
    using feed_append [of "flvRecord q" "[rp]"] by simp
  ultimately show ?case
    using Dequeue_tags [OF emit(2) emit.prems] by (simp del: feed.simps)
qed auto

subsection \<open>From the sender's packets to its tags\<close>

lemma feed_prefix:
  assumes "feed r (xs @ ys) = Ok (r', ts)"
  shows "\<exists>r1 us. feed r xs = Ok (r1, us) \<and> prefix us ts"
  using assms by (auto simp: feed_append andthen_eq_Ok)

text \<open>
  What a packet carries: a copy that came in a datagram and one that the cloud node sent again lie in
  different buffers.
\<close>

definition same_packet :: "RtpPack \<Rightarrow> RtpPack \<Rightarrow> bool" where
  "same_packet p p' \<longleftrightarrow> SequenceNumber p = SequenceNumber p' \<and> Marker p = Marker p'
     \<and> payload_bytes p = payload_bytes p' \<and> slice_ok (Payload p)"

lemma same_packet_refl [simp]: "same_packet p p \<longleftrightarrow> slice_ok (Payload p)"
  by (simp add: same_packet_def)

text \<open>The parser looks only at the bytes of a datagram, not at the rest of its buffer.\<close>

lemma skip_extension_bytes:
  assumes "slice_ok s" "offset \<le> sl_len s"
  shows "skip_extension s ext offset (sl_len s) = skip_extension (of_bytes (bytes s)) ext offset (sl_len s)"
proof -
  have "length (bytes s) = sl_len s" using assms(1) by simp
  then show ?thesis
    using Uint_from(1) [OF assms(1), of "offset + 2"] Uint_from(1) [of "of_bytes (bytes s)" "offset + 2"]
    by (auto simp: skip_extension_def andthen_assoc [symmetric])
qed

lemma strip_padding_bytes:
  assumes "slice_ok s"
  shows "strip_padding s pad offset (sl_len s) = strip_padding (of_bytes (bytes s)) pad offset (sl_len s)"
  using assms by (auto simp: strip_padding_def sl_index_Ok)

lemma Parse_bytes:
  assumes "slice_ok s" "Parse (of_bytes (bytes s)) = Ok (Some p)"
  shows "\<exists>p'. Parse s = Ok (Some p') \<and> same_packet p' p \<and> SSRC p' = SSRC p"
proof (cases "sl_len s < 12")
  case True
  with assms show ?thesis by (simp add: Parse_short)
next
  case False
  let ?b = "bytes s" and ?t = "of_bytes (bytes s)"
  let ?o = "skip_csrc (?b ! 0 AND 15) 12 (sl_len s)"
  have o: "?o \<le> sl_len s" using csrc_le False by simp
  obtain off where off: "skip_extension s (drop_bit 4 (?b ! 0) AND 1 = 1) ?o (sl_len s) = Ok off" "off \<le> sl_len s"
    using skip_extension_bound [OF assms(1) o] by blast
  obtain e where e: "strip_padding s (drop_bit 5 (?b ! 0) AND 1 = 1) off (sl_len s) = Ok e" "off \<le> e" "e \<le> sl_len s"
    using strip_padding_bound [OF off(2) order_refl] by blast
  obtain x where x: "sl_slice s off e = Ok x" "slice_ok x" "bytes x = take (e - off) (drop off ?b)"
    using sl_slice_bytes [OF assms(1) e(2,3)] by blast
  obtain y where y: "sl_slice ?t off e = Ok y" "bytes y = take (e - off) (drop off ?b)"
    using sl_slice_bytes [of ?t off e] e(2,3) assms(1) by auto
  have "Parse s = Ok (if e - off < 1 then None else Some (header_of ?b x off))"
    using False off(1) e(1) x(1) by (simp add: Parse_long [OF assms(1)])
  moreover have "Parse ?t = Ok (if e - off < 1 then None else Some (header_of ?b y off))"
    using False off(1) e(1) y(1) assms(1) skip_extension_bytes [OF assms(1) o] strip_padding_bytes [OF assms(1)]
    by (simp add: Parse_long)
  ultimately show ?thesis
    using assms(2) x(2,3) y(2)
    by (auto simp: same_packet_def header_of_def payload_bytes_def split: if_splits)
qed

lemma bytes_nth: "i < sl_len s \<Longrightarrow> bytes s ! i = sl_mem s ! i"
  by (simp add: bytes_def)

lemma IsTagHead_bytes:
  assumes "bytes s = bytes s'" "slice_ok s" "slice_ok s'"
  shows "IsTagHead s = IsTagHead s'"
proof -
  have len: "sl_len s = sl_len s'" using assms(1) length_bytes [OF assms(2)] length_bytes [OF assms(3)] by simp
  have "sl_mem s ! i = sl_mem s' ! i" if "11 \<le> sl_len s" "i < 11" for i
    using bytes_nth [of i s] bytes_nth [of i s'] assms(1) len that by simp
  then show ?thesis by (simp add: IsTagHead_def len Let_def)
qed

lemma packets_of_same:
  assumes "packets_of t ps" "list_all2 same_packet qs ps"
  shows "packets_of t qs"
proof -
  have len: "length qs = length ps" using assms(2) by (rule list_all2_lengthD)
  have eq: "same_packet (qs ! i) (ps ! i)" if "i < length ps" for i using assms(2) that len by (simp add: list_all2_conv_all_nth)
  have "map payload_bytes qs = map payload_bytes ps" "map Marker qs = map Marker ps"
    using eq len by (auto intro!: nth_equalityI simp: same_packet_def)
  moreover have "qs \<noteq> []" "ps \<noteq> []" using assms(1) len by (auto simp: packets_of_def)
  moreover have "\<not> IsTagHead (Payload q)" if q: "q \<in> set (tl qs)" for q
  proof -
    obtain i where i: "i < length (tl qs)" "q = tl qs ! i" using q by (auto simp: in_set_conv_nth)
    then have "q = qs ! Suc i" "Suc i < length ps" "ps ! Suc i \<in> set (tl ps)"
      using len by (auto simp: nth_tl in_set_conv_nth)
    with eq [of "Suc i"] assms(1) show ?thesis
      using IsTagHead_bytes [of "Payload q" "Payload (ps ! Suc i)"] list.set_sel(2) [OF \<open>ps \<noteq> []\<close>]
      by (auto simp: packets_of_def same_packet_def payload_bytes_def)
  qed
  moreover have "slice_ok (Payload q)" if "q \<in> set qs" for q
    using that eq len by (auto simp: in_set_conv_nth same_packet_def)
  moreover have "\<forall>q \<in> set (butlast qs). Marker q = 0" "Marker (last qs) \<noteq> 0" "4 \<le> length (payload_bytes (hd qs))"
    "\<forall>q \<in> set qs. payload_bytes q \<noteq> []"
  proof -
    have "\<forall>m \<in> set (butlast (map Marker ps)). m = 0" "last (map Marker ps) \<noteq> 0"
        "4 \<le> length (hd (map payload_bytes ps))" "\<forall>b \<in> set (map payload_bytes ps). b \<noteq> []"
      using assms(1) by (auto simp: packets_of_def map_butlast [symmetric] last_map hd_map)
    then show "\<forall>q \<in> set (butlast qs). Marker q = 0" "Marker (last qs) \<noteq> 0" "4 \<le> length (payload_bytes (hd qs))"
        "\<forall>q \<in> set qs. payload_bytes q \<noteq> []"
      using \<open>qs \<noteq> []\<close> unfolding calculation(1,2) [symmetric] by (auto simp: map_butlast [symmetric] last_map hd_map)
  qed
  ultimately show ?thesis using assms(1) by (simp add: packets_of_def)
qed

lemma list_all2_concat:
  "list_all2 R qs (concat pss) \<Longrightarrow> \<exists>qss. concat qss = qs \<and> list_all2 (list_all2 R) qss pss"
proof (induction pss arbitrary: qs)
  case (Cons ps pss)
  then obtain us vs where q: "qs = us @ vs" "list_all2 R us ps" "list_all2 R vs (concat pss)"
    by (auto simp: list_all2_append2)
  with Cons.IH [OF q(3)] obtain vss where "concat vss = vs" "list_all2 (list_all2 R) vss pss" by blast
  with q show ?case by (intro exI [of _ "us # vss"]) simp
qed simp

lemma tags_of_same:
  assumes "list_all2 packets_of tags pss" "list_all2 same_packet qs (concat pss)"
  shows "\<exists>qss. concat qss = qs \<and> list_all2 packets_of tags qss"
proof -
  obtain qss where q: "concat qss = qs" "list_all2 (list_all2 same_packet) qss pss" using list_all2_concat [OF assms(2)] by blast
  then have "list_all2 packets_of tags qss"
    using assms(1) unfolding list_all2_conv_all_nth [where P = "list_all2 same_packet"]
        list_all2_conv_all_nth [where P = packets_of] by (metis packets_of_same)
  with q(1) show ?thesis by blast
qed

text \<open>The first packets of a sender's tags complete a prefix of the tags.\<close>

lemma feed_source_prefix:
  assumes "fresh r" "list_all2 packets_of tags pss"
    and "concat pss = map (\<lambda>i. src (first + word_of_nat i)) [0..<N]"
    and ps: "list_all2 same_packet ps (map (\<lambda>i. src (first + word_of_nat i)) [0..<n])"
    and "feed r (map Some ps) = Ok (r', ts)"
  shows "(n \<le> N \<longrightarrow> prefix (map bytes ts) tags) \<and> (N \<le> n \<longrightarrow> prefix tags (map bytes ts))"
proof -
  let ?f = "\<lambda>i. src (first + word_of_nat i)"
  have ok: "\<forall>p \<in> set (concat pss). slice_ok (Payload p)"
    using assms(2) by (induction rule: list_all2_induct) (auto simp: packets_of_def)
  have all: "\<exists>r2 us. feed r (map Some qs) = Ok (r2, us) \<and> map bytes us = tags"
    if same: "list_all2 same_packet qs (concat pss)" for qs
  proof -
    obtain qss where q: "concat qss = qs" "list_all2 packets_of tags qss" using tags_of_same [OF assms(2) same] by blast
    have "list_all2 received (map (map Some) qss) qss"
      by (simp add: list_all2_conv_all_nth received_def)
    with feed_tags [OF q(2) this, of r] assms(1) obtain r2 us where
      "feed r (concat (map (map Some) qss)) = Ok (r2, us)" "map bytes us = tags"
      by auto
    then show ?thesis using arg_cong [OF q(1), of "map Some"] by (auto simp: map_concat)
  qed
  have "prefix (map bytes ts) tags" if n: "n \<le> N"
  proof -
    have split: "concat pss = map ?f [0..<n] @ map ?f [n..<N]"
      using upt_add_eq_append [of 0 n "N - n"] assms(3) n by simp
    have "list_all2 same_packet (map ?f [n..<N]) (map ?f [n..<N])"
      using ok unfolding split by (intro list.rel_refl_strong) simp
    then have "list_all2 same_packet (ps @ map ?f [n..<N]) (concat pss)"
      unfolding split using ps by (rule list_all2_appendI [rotated])
    from all [OF this] obtain r2 us where
      us: "feed r (map Some ps @ map Some (map ?f [n..<N])) = Ok (r2, us)" "map bytes us = tags"
      by auto
    from feed_prefix [OF us(1)] assms(5) have "prefix ts us" by auto
    with us(2) show ?thesis using map_mono_prefix by auto
  qed
  moreover have "prefix tags (map bytes ts)" if N: "N \<le> n"
  proof -
    have "list_all2 same_packet (take N ps) (concat pss)"
      using list_all2_takeI [OF ps, of N] N by (simp add: assms(3) take_map)
    from all [OF this] obtain r2 us where us: "feed r (map Some (take N ps)) = Ok (r2, us)" "map bytes us = tags"
      by auto
    have "feed r (map Some (take N ps) @ map Some (drop N ps)) = Ok (r', ts)"
      using assms(5) by (simp flip: map_append)
    from feed_prefix [OF this] us show ?thesis using map_mono_prefix by auto
  qed
  ultimately show ?thesis by blast
qed

lemma take_of_prefixes:
  assumes "prefix xs ys \<or> prefix ys xs" "length xs \<le> length ys"
  shows "xs = take (length xs) ys"
  using assms by (auto simp: prefix_def)

lemma same_packets_ok: "list_all2 same_packet ps qs \<Longrightarrow> \<forall>p \<in> set ps. slice_ok (Payload p)"
  by (induction rule: list_all2_induct) (auto simp: same_packet_def)

text \<open>A run over the packets of a sender, by sequence number, when all that is lost is fetched.\<close>

lemma window_run_source:
  assumes "window_run m v es v'" "keeping m" "\<not> protecting m" "recovering m" "snd v \<noteq> []"
    and "from_source m = (\<lambda>p. same_packet p (src (SequenceNumber p)))"
    and "\<forall>p. Some p \<in> set (snd v) \<union> set (arrivals es) \<longrightarrow> same_packet p (src (SequenceNumber p))"
  shows "\<exists>ps. map snd (emitted es) = map Some ps
    \<and> list_all2 same_packet ps (map (\<lambda>i. src (fst v + word_of_nat i)) [0..<length ps])
    \<and> fst v' = fst v + word_of_nat (length ps)"
proof -
  have seqs: "map fst (emitted es) = map (\<lambda>i. fst v + word_of_nat i) [0..<length (emitted es)]"
      "fst v' = fst v + word_of_nat (length (emitted es))"
    using emitted_consecutive [OF assms(1-3,5)] by simp_all
  have slot: "\<exists>p. rp = Some p \<and> same_packet p (src slot)" if e: "(slot, rp) \<in> set (emitted es)" for slot rp
  proof -
    obtain p where p: "rp = Some p" using emitted_recovered [OF assms(1,4) e] by auto
    moreover have "same_packet p (src (SequenceNumber p))"
      using emitted_genuine [OF assms(1), of slot p] assms(6,7) e p by simp
    ultimately show ?thesis using emitted_seq [OF assms(1), of slot p] e by simp
  qed
  let ?ps = "map (the \<circ> snd) (emitted es)"
  have "same_packet (?ps ! i) (src (fst v + word_of_nat i))" if i: "i < length (emitted es)" for i
  proof -
    have "fst (emitted es ! i) = fst v + word_of_nat i"
      using i arg_cong [OF seqs(1), of "\<lambda>xs. xs ! i"] by simp
    moreover have "(fst (emitted es ! i), snd (emitted es ! i)) \<in> set (emitted es)" using i by simp
    ultimately show ?thesis using slot i by fastforce
  qed
  then have "list_all2 same_packet ?ps (map (\<lambda>i. src (fst v + word_of_nat i)) [0..<length ?ps])"
    by (simp add: list_all2_conv_all_nth)
  moreover have "map snd (emitted es) = map Some ?ps"
    using slot by fastforce
  ultimately show ?thesis using seqs(2) by (intro exI [of _ ?ps]) simp
qed

lemma retransmission_mono:
  assumes "retransmission env cfg ssrc good answering genuine" "\<And>p. genuine p \<Longrightarrow> genuine' p"
  shows "retransmission env cfg ssrc good answering genuine'"
  using assms unfolding retransmission_def retransmission_axioms_def by blast

subsection \<open>A stream of audio tags\<close>

text \<open>The packets the node in memory has, and a stream that receives them.\<close>

definition node_packet :: "u32 \<Rightarrow> u16 \<Rightarrow> RtpPack" where
  "node_packet ssrc seq = (case Parse (of_bytes (node_store ssrc seq)) of Ok (Some p) \<Rightarrow> p | _ \<Rightarrow> demo_pack seq)"

abbreviation node_pack :: "u16 \<Rightarrow> RtpPack" where
  "node_pack \<equiv> node_packet 7"

lemma node_packet:
  "Parse (of_bytes (node_store ssrc seq)) = Ok (Some (node_packet ssrc seq))"
  "SequenceNumber (node_packet ssrc seq) = seq" "Marker (node_packet ssrc seq) = 1"
  "payload_bytes (node_packet ssrc seq) = short_tag" "slice_ok (Payload (node_packet ssrc seq))"
  "SSRC (node_packet ssrc seq) = ssrc"
proof -
  let ?bs = "node_store ssrc seq"
  obtain p off where p: "Parse (of_bytes ?bs) = Ok (Some (header_of ?bs p off))" "bytes p = short_tag"
    using Parse_rtp_wire [of "[]" None short_tag 0 2 True 97 seq 0 ssrc]
    unfolding node_store_def short_tag_def by auto
  then show "Parse (of_bytes ?bs) = Ok (Some (node_packet ssrc seq))" by (simp add: node_packet_def)
  have eq: "node_packet ssrc seq = header_of ?bs p off" using p(1) by (simp add: node_packet_def)
  have "?bs ! 1 = octet1 True 97" "?bs ! 2 = ucast (drop_bit 8 seq)" "?bs ! 3 = ucast seq"
    by (simp_all add: node_store_def rtp_wire_def put16_def)
  then show "SequenceNumber (node_packet ssrc seq) = seq" "Marker (node_packet ssrc seq) = 1"
    by (simp_all add: eq header_of_def be16_put16 octet1_fields)
  have "be32 (?bs ! 8) (?bs ! 9) (?bs ! 10) (?bs ! 11) = ssrc"
    by (simp add: node_store_def rtp_wire_def put16_def put32_def be32_put32)
  then show "SSRC (node_packet ssrc seq) = ssrc" by (simp add: eq header_of_def)
  show "payload_bytes (node_packet ssrc seq) = short_tag" using p(2) by (simp add: eq header_of_def payload_bytes_def)
  from slice_ok_of_bytes [of ?bs] show "slice_ok (Payload (node_packet ssrc seq))"
    by (cases rule: Parse_cases) (use p(1) in \<open>auto simp: eq header_of_def\<close>)
qed

lemmas node_pack = node_packet [of 7]

definition demo_audio :: "(RtpPack option list, nat option list, cloud) qs" where
  "demo_audio = ((fst demo_stream)\<lparr>FirstSeq := 65535, queue := [Some (node_pack 65535)],
     PaddingWindowSize := 1, FlvWriters := []\<rparr>, snd demo_stream)"

lemma demo_audio_ok: "stream_ok slice_al 7 (idle id 0 1 2) demo_audio"
  by (simp add: stream_ok_def demo_audio_def demo_stream_def window_of_def idle_def window_ok_def node_pack)

lemma short_tag_readable: "tag_readable short_tag"
  by (simp add: tag_readable_def short_tag_def)

lemma extract_whole_tag:
  assumes "flvRecord q = NewFlvRecord" "accFlvTags q = 0" "cache q = NewCache" "FlvWriters q = []"
    and "hlsWriter q = None" "flvFile q = None"
    and "Marker p = 1" "payload_bytes p = short_tag" "slice_ok (Payload p)"
  shows "\<exists>q'. extractFlv env cfg slice_al (Some p) (q, s) = Ok (q', s) \<and> accFlvTags q' = 1"
proof -
  obtain c where "cache_add NewCache (Payload p) = Ok c"
    using cache_add_readable [OF assms(9) _ cache_inv_NewCache] assms(8) short_tag_readable
    by (auto simp: payload_bytes_def)
  with assms show ?thesis
    by (simp add: extractFlv_def reassemble_def add_fragment_def NewFlvRecord_def deliver_def count_tag_def
        remember_segment_def fan_out_def to_hls_def to_file_def reset_record_def Let_def NewCache_def)
qed

lemma demo_audio_enqueue:
  "window_of slice_al (Enqueue slice_al (fst demo_audio) (Some (node_pack 0)))
     = (65535, [Some (node_pack 65535), Some (node_pack 0)])"
proof -
  have "unat (0 - 65535 :: u16) = 1" "\<not> FirstBeforeSecond 0 65535"
    by (simp_all add: FirstBeforeSecond_def)
  then show ?thesis
    by (simp add: spl.window_of_Enqueue)
       (simp add: window_of_def demo_audio_def spec_enqueue_def put_at_def node_pack)
qed

lemma demo_audio_one:
  "\<exists>q' s'. RecvPacket_one env cfg slice_al slice_al (Some (node_pack 0)) demo_audio = Some (Ok (q', s'))
     \<and> accFlvTags q' = 1 \<and> window_of slice_al q' = (0, [Some (node_pack 0)])"
proof -
  let ?q = "Enqueue slice_al (fst demo_audio) (Some (node_pack 0))" and ?s = "snd demo_audio"
  let ?q1 = "?q\<lparr>queue := [Some (node_pack 0)], FirstSeq := 0\<rparr>"
  have q: "queue ?q = [Some (node_pack 65535), Some (node_pack 0)]" "FirstSeq ?q = 65535"
    using demo_audio_enqueue by (simp_all add: window_of_def)
  have pw: "PaddingWindowSize (fst demo_audio) = 1" by (simp add: demo_audio_def)
  have deq: "Dequeue env cfg slice_al (?q, ?s) = Ok (Some (node_pack 65535), ?q1, ?s)"
    by (simp add: Dequeue_def isFirstOk_def q list_remove_def)
  have "flvRecord ?q1 = NewFlvRecord" "accFlvTags ?q1 = 0" "cache ?q1 = NewCache" "FlvWriters ?q1 = []"
      "hlsWriter ?q1 = None" "flvFile ?q1 = None"
    by (simp_all add: Enqueue_delivery) (simp_all add: demo_audio_def demo_stream_def)
  from extract_whole_tag [OF this node_pack(3-5)]
  obtain q2 where ext: "extractFlv env cfg slice_al (Some (node_pack 65535)) (?q1, ?s) = Ok (q2, ?s)"
      and "accFlvTags q2 = 1"
    by blast
  have "same_stream ?q1 q2"
    using ensuresD [OF any_env.extractFlv_frame ext, of ?q1] by simp
  then have q2: "queue q2 = [Some (node_pack 0)]" "PaddingWindowSize q2 = 1" "FirstSeq q2 = 0"
    by (simp_all add: same_stream_def pw)
  have "drain_window env cfg slice_al slice_al (q2, ?s) = Some (Ok (q2, ?s))"
    by (subst drain_window.simps) (simp add: q2)
  then have "drain_window env cfg slice_al slice_al (?q, ?s) = Some (Ok (q2, ?s))"
    by (subst drain_window.simps) (simp add: q pw deq ext)
  moreover have "drain_ready env cfg slice_al slice_al (q2, ?s) = Some (Ok (q2, ?s))"
    by (subst drain_ready.simps) (simp add: q2)
  ultimately show ?thesis
    using \<open>accFlvTags q2 = 1\<close> q2 by (simp add: RecvPacket_one_def split_beta window_of_def)
qed

lemma demo_audio_recv:
  "\<exists>q' s'. RecvPacket env cfg slice_al slice_al [Some (node_pack 0)] demo_audio = Some (Ok (q', s')) \<and> accFlvTags q' = 1"
  using demo_audio_one [of env cfg] by auto

text \<open>Under the default configuration, protection included, the loops of this activation do iterate.\<close>

lemma demo_audio_near: "near Conf (window_of slice_al (Enqueue slice_al (fst demo_audio) (Some (node_pack 0))))"
  by (simp add: demo_audio_enqueue near_def)

theorem stream_refines_window_witness:
  "\<exists>qs' es. RecvPacket node_env Conf slice_al slice_al [Some (node_pack 0)] demo_audio = Some (Ok qs')
     \<and> arrivals es = [Some (node_pack 0)]
     \<and> window_run (promises Conf 1 True (\<lambda>p. Parse (of_bytes (node_store 7 (SequenceNumber p))) = Ok (Some p)))
         (65535, [Some (node_pack 65535)]) es (0, [Some (node_pack 0)])"
proof -
  obtain q' s' where r: "RecvPacket node_env Conf slice_al slice_al [Some (node_pack 0)] demo_audio = Some (Ok (q', s'))"
      "window_of slice_al q' = (0, [Some (node_pack 0)])"
    using demo_audio_one [of node_env Conf] by auto
  have "\<not> DISABLE_QUIC Conf" "PaddingWindowSize (fst demo_audio) = 1"
      "window_of slice_al (fst demo_audio) = (65535, [Some (node_pack 65535)])"
    by (simp_all add: Conf_def demo_audio_def window_of_def)
  with stream_refines_window [OF spl.packet_list_axioms node_retransmission [of Conf 7] demo_audio_ok r(1)] r
  show ?thesis by fastforce
qed

theorem activation_ends_witness:
  "\<exists>q' s'. RecvPacket_one node_env Conf slice_al slice_al (Some (node_pack 0)) demo_audio = Some (Ok (q', s'))
     \<and> window_of slice_al q' = (0, [Some (node_pack 0)]) \<and> al_Size slice_al (queue q') \<le> PaddingWindowSize q'"
proof -
  have "\<not> DISABLE_QUIC Conf" by (simp add: Conf_def)
  with activation_ends [OF spl.packet_list_axioms node_retransmission [of Conf 7],
        of "fst demo_audio" "snd demo_audio" "Some (node_pack 0)" slice_al] demo_audio_ok demo_audio_near
    demo_audio_one [of node_env Conf]
  show ?thesis by (auto simp: ensures_def)
qed

theorem activation_in_order_witness:
  "\<exists>q' s' es. stream_run node_env Conf slice_al slice_al demo_audio (Arrive (Some (node_pack 0)) # es) (q', s')
     \<and> emits_in_order 65535 [Some (node_pack 65535), Some (node_pack 0)] 1 (emitted es)
     \<and> window_of slice_al q' = (0, [Some (node_pack 0)])"
proof -
  obtain q' s' where one: "RecvPacket_one node_env Conf slice_al slice_al (Some (node_pack 0)) (fst demo_audio, snd demo_audio)
      = Some (Ok (q', s'))" "window_of slice_al q' = (0, [Some (node_pack 0)])"
    using demo_audio_one [of node_env Conf] by auto
  have quic: "\<not> DISABLE_QUIC Conf" by (simp add: Conf_def)
  obtain es k where e: "stream_run node_env Conf slice_al slice_al demo_audio (Arrive (Some (node_pack 0)) # es) (q', s')"
      "emits_in_order 65535 [Some (node_pack 65535), Some (node_pack 0)] k (emitted es)"
      "[Some (node_pack 0)] = drop k [Some (node_pack 65535), Some (node_pack 0)]"
    using activation_in_order [OF spl.packet_list_axioms node_retransmission [OF quic, of 7] _ demo_audio_near demo_audio_enqueue one(1)]
      demo_audio_ok one(2) by fastforce
  from arg_cong [OF e(3), of length] have "k = 1" by simp
  with e one(2) show ?thesis by blast
qed


lemma packets_of_node: "packets_of short_tag [node_pack seq]"
  using packets_of_short node_pack
  by (simp add: packets_of_def payload_bytes_def [of "frag _ _"] frag_def short_tag_def)

lemma feed_node:
  assumes "list_all2 same_packet ps (map node_pack seqs)"
  shows "\<exists>r ts. feed NewFlvRecord (map Some ps) = Ok (r, ts) \<and> map bytes ts = replicate (length ps) short_tag"
proof -
  let ?pss = "map (\<lambda>p. [p]) ps" and ?xss = "map (\<lambda>p. [Some p]) ps"
  have "packets_of short_tag [ps ! i]" if "i < length ps" for i
    using packets_of_same [OF packets_of_node, of "[ps ! i]" "seqs ! i"] list_all2_nthD [OF assms that]
      list_all2_lengthD [OF assms] that
    by simp
  then have "list_all2 packets_of (replicate (length ps) short_tag) ?pss" "list_all2 received ?xss ?pss"
    by (simp_all add: list_all2_conv_all_nth received_Cons)
  from feed_tags [OF this, of NewFlvRecord] obtain r ts where
    ts: "feed NewFlvRecord (concat ?xss) = Ok (r, ts)" "map bytes ts = replicate (length ps) short_tag"
    by auto
  moreover have "concat ?xss = map Some ps"
    by (induction ps) simp_all
  ultimately show ?thesis by auto
qed

end
