(* ===== verification/Client_Delivery.thy ===== *)
theory Client_Delivery
  imports Fan_Out Stream_Output Queue_Identity
begin

text \<open>
  What the HTTP-FLV clients of a stream receive over a run of its goroutine. The view of a client is
  what has been written to its connection followed by what waits in its queue; its sender leaves
  the view as it is, and the stream's goroutine extends it by the tags it completes.
\<close>

subsection \<open>The view of a client\<close>

definition client_view :: "FLVWriter \<Rightarrow> byte list" where
  "client_view w = hw_out (ctx w) @ concat (map framed (ch_buf (packetQueue w)))"

lemma client_view_Init [simp]: "client_view (w\<lparr>Init := b\<rparr>) = client_view w"
  by (simp add: client_view_def)

lemma view_enqueue: "client_view (enqueue_all w ps) = client_view w @ concat (map framed ps)"
  by (simp add: client_view_def enqueue_all_def)

lemma sl_parts:
  assumes "sl_to p n = Ok p1" "sl_from p n = Ok p2"
  shows "bytes p1 @ bytes p2 = bytes p"
proof -
  have p12: "p1 = \<lparr>sl_mem = sl_mem p, sl_len = n\<rparr>" "p2 = \<lparr>sl_mem = drop n (sl_mem p), sl_len = sl_len p - n\<rparr>" "n \<le> sl_len p"
    using assms by (auto simp: sl_to_def sl_from_def sl_slice_def split: if_splits)
  then obtain k where "sl_len p = n + k" using le_Suc_ex by blast
  then show ?thesis by (simp add: p12(1,2) bytes_def take_add)
qed

lemma PutI32BE_put32: "PutI32BE b v = Ok b' \<Longrightarrow> sl_len b = 4 \<Longrightarrow> 4 \<le> length (sl_mem b) \<Longrightarrow> bytes b' = put32 v"
  by (auto simp: PutI32BE_def bytes_def signed_bytes split: if_splits)

lemma view_sent:
  assumes "SendPacket_round w = Ok (w', None)"
  shows "client_view w' = client_view w" "Init w' = Init w"
proof -
  obtain p ps where q: "ch_buf (packetQueue w) = p # ps"
    using assms by (cases "ch_buf (packetQueue w)") (auto simp: SendPacket_round_def chan_recv_def split: if_splits)
  obtain h p1 p2 h4 h4' where s: "sl_to (buf w) headerLen = Ok h" "sl_to p headerLen = Ok p1" "sl_from p headerLen = Ok p2"
      "sl_to h 4 = Ok h4" "PutI32BE h4 (word_of_nat (sl_len p)) = Ok h4'" "\<not> hw_broken (ctx w)"
      "w' = w\<lparr>packetQueue := (packetQueue w)\<lparr>ch_buf := ps\<rparr>, buf := (buf w)\<lparr>sl_mem := sl_mem h4'\<rparr>,
        ctx := (ctx w)\<lparr>hw_out := ((hw_out (ctx w) @ bytes p1) @ bytes p2) @ bytes h4'\<rparr>\<rparr>"
    using assms q
    by (auto simp: SendPacket_round_def chan_recv_def andthen_eq_Ok Let_def ctx_Write_def hw_write_def split: if_splits)
  have "sl_len h4 = 4" "4 \<le> length (sl_mem h4)" using s(4) by (auto simp: sl_to_def sl_slice_def split: if_splits)
  then have "bytes h4' = put32 (word_of_nat (sl_len p))" using PutI32BE_put32 [OF s(5)] by simp
  then show "client_view w' = client_view w"
    by (simp add: client_view_def q s(7) framed_def flip: sl_parts [OF s(2,3)])
  show "Init w' = Init w" by (simp add: s(7))
qed

subsection \<open>A tag, and a sequence of tags\<close>

text \<open>What a writer has after \<open>ts\<close> were delivered, if \<open>c\<close> was the cache at the first of them.\<close>

definition receives :: "SegmentCache \<Rightarrow> slice list \<Rightarrow> FLVWriter \<Rightarrow> FLVWriter" where
  "receives c ts w = (if Closed w \<or> ts = [] then w
     else enqueue_all (w\<lparr>Init := True\<rparr>) ((if Init w then [] else initial_segments c) @ ts))"

lemma receives_Nil [simp]: "receives c [] w = w"
  by (simp add: receives_def)

lemma receives_single: "receives c [t] w = feed_writer c t w"
  by (simp add: receives_def feed_writer_def)

lemma receives_closed [simp]: "Closed w \<Longrightarrow> receives c ts w = w"
  by (simp add: receives_def)

lemma receives_fields [simp]:
  "Closed (receives c ts w) = Closed w" "delivering (receives c ts w) = delivering w"
  by (simp_all add: receives_def delivering_def)

lemma receives_append: "ts \<noteq> [] \<Longrightarrow> receives c' us (receives c ts w) = receives c (ts @ us) w"
  by (simp add: receives_def enqueue_all_Init enqueue_all_append)

text \<open>The segments that a client gets before its first tag.\<close>

definition first_segments :: "FLVWriter \<Rightarrow> SegmentCache \<Rightarrow> slice list \<Rightarrow> slice list" where
  "first_segments w c ts = (if Init w \<or> ts = [] then [] else initial_segments c)"

lemma view_receives:
  "\<not> Closed w \<Longrightarrow> client_view (receives c ts w) = client_view w @ concat (map framed (first_segments w c ts @ ts))"
  by (simp add: receives_def first_segments_def view_enqueue)

definition remembers :: "SegmentCache \<Rightarrow> slice \<Rightarrow> SegmentCache \<Rightarrow> bool" where
  "remembers c t c' \<longleftrightarrow> (if full c then c' = c else cache_add c t = Ok c')"

lemma remembers_shape: "remembers c t c' \<Longrightarrow> cache_shape c \<Longrightarrow> cache_shape c'"
  using cache_add_shape by (auto simp: remembers_def split: if_splits)

text \<open>The clients of a stream, in the order of the list.\<close>

definition clients_of :: "'m writer_refs \<Rightarrow> ('l, 'm, 'w) qs \<Rightarrow> nat list \<Rightarrow> bool" where
  "clients_of wl qs rs \<longleftrightarrow> al_Values wl (FlvWriters (fst qs)) = map Some rs \<and> distinct rs
     \<and> (\<forall>r \<in> set rs. delivering (writers (snd qs) r)) \<and> cache_shape (cache (fst qs))"

definition fans_out :: "'m writer_refs \<Rightarrow> nat list \<Rightarrow> ('l, 'm, 'w) qs \<Rightarrow> slice list \<Rightarrow> ('l, 'm, 'w) qs \<Rightarrow> bool" where
  "fans_out wl rs qs ts qs' \<longleftrightarrow>
     (\<exists>c. (ts \<noteq> [] \<longrightarrow> remembers (cache (fst qs)) (hd ts) c)
       \<and> (\<forall>r. writers (snd qs') r = (if r \<in> set rs then receives c ts (writers (snd qs) r) else writers (snd qs) r)))
     \<and> clients_of wl qs' (filter (\<lambda>r. ts = [] \<or> \<not> Closed (writers (snd qs) r)) rs)
     \<and> (ts = [] \<longrightarrow> cache (fst qs') = cache (fst qs))"

lemma clients_of_held: "held qs' = held qs \<Longrightarrow> clients_of wl qs' rs = clients_of wl qs rs"
  by (simp add: held_def clients_of_def)

lemma fans_out_held:
  assumes "held qs1 = held qs" "held qs2 = held qs'"
  shows "fans_out wl rs qs1 ts qs2 = fans_out wl rs qs ts qs'"
proof -
  have e: "cache (fst qs1) = cache (fst qs)" "writers (snd qs1) = writers (snd qs)"
      "cache (fst qs2) = cache (fst qs')" "writers (snd qs2) = writers (snd qs')"
    using assms by (simp_all add: held_def)
  show ?thesis unfolding fans_out_def e clients_of_held [OF assms(2)] by (rule refl)
qed

lemma fans_out_Nil: "clients_of wl qs rs \<Longrightarrow> fans_out wl rs qs [] qs"
  by (simp add: fans_out_def)

lemma fans_out_append:
  assumes "fans_out wl rs qs ts qs1" "fans_out wl (filter (\<lambda>r. ts = [] \<or> \<not> Closed (writers (snd qs) r)) rs) qs1 us qs2"
  shows "fans_out wl rs qs (ts @ us) qs2"
proof (cases "ts = []")
  case True
  then have w: "writers (snd qs1) r = writers (snd qs) r" "cache (fst qs1) = cache (fst qs)" for r
    using assms(1) by (auto simp: fans_out_def)
  have all: "filter (\<lambda>r. [] = [] \<or> P r) rs = rs" for P :: "nat \<Rightarrow> bool" by simp
  from assms(2) show ?thesis
    unfolding fans_out_def w True append_Nil all by blast
next
  case False
  obtain c where c: "remembers (cache (fst qs)) (hd ts) c"
      "\<And>r. writers (snd qs1) r = (if r \<in> set rs then receives c ts (writers (snd qs) r) else writers (snd qs) r)"
    using assms(1) False by (auto simp: fans_out_def)
  then have cl: "Closed (writers (snd qs1) r) = Closed (writers (snd qs) r)" for r by simp
  obtain d where d: "\<And>r. writers (snd qs2) r = (if r \<in> set rs \<and> \<not> Closed (writers (snd qs) r)
        then receives d us (writers (snd qs1) r) else writers (snd qs1) r)"
      "clients_of wl qs2 (filter (\<lambda>r. us = [] \<or> \<not> Closed (writers (snd qs) r)) (filter (\<lambda>r. \<not> Closed (writers (snd qs) r)) rs))"
    using assms(2) False by (auto simp: fans_out_def cl)
  have "writers (snd qs2) r = (if r \<in> set rs then receives c (ts @ us) (writers (snd qs) r) else writers (snd qs) r)" for r
    using False by (simp add: d(1) c(2) receives_append)
  moreover have "filter (\<lambda>r. us = [] \<or> \<not> Closed (writers (snd qs) r)) (filter (\<lambda>r. \<not> Closed (writers (snd qs) r)) rs)
      = filter (\<lambda>r. \<not> Closed (writers (snd qs) r)) rs"
    by (auto intro: filter_cong)
  ultimately show ?thesis
    using c(1) d(2) False by (auto simp: fans_out_def)
qed

subsection \<open>Delivery\<close>

context writer_list
begin

lemma fan_out_clients:
  assumes "fan_out wl tag qs = Ok (qs', failed)" "clients_of wl qs rs"
  shows "\<not> failed \<and> cache (fst qs') = cache (fst qs)
    \<and> writers (snd qs') = (\<lambda>r. if r \<in> set rs then feed_writer (cache (fst qs)) tag (writers (snd qs) r) else writers (snd qs) r)
    \<and> clients_of wl qs' (filter (\<lambda>r. \<not> Closed (writers (snd qs) r)) rs)"
proof (cases qs)
  case (Pair q s)
  have sz: "nat (al_Size wl (FlvWriters q)) = length rs"
    using assms(2) Pair by (simp add: size clients_of_def)
  obtain l ws where l: "writer_loop wl (cache q) tag (length rs) (FlvWriters q) (writers s) = Ok (l, ws, failed)"
      "qs' = (q\<lparr>FlvWriters := l\<rparr>, s\<lparr>writers := ws\<rparr>)"
    using assms(1) Pair sz by (auto simp: fan_out_def andthen_eq_Ok)
  have feed: "delivering (feed_writer c tag w) = delivering w" for c w
    by (simp flip: receives_single)
  show ?thesis
    using writer_loop_Ok [of "cache q" rs "writers s" "FlvWriters q" "[]" tag, OF _ _ _ _ l(1)] assms(2)
    by (auto simp: clients_of_def Pair l(2) feed)
qed

lemma deliver_clients:
  assumes "deliver env cfg wl tag qs = Ok qs'" "clients_of wl qs rs"
  shows "fans_out wl rs qs [tag] qs'"
proof -
  obtain a b c failed where s: "count_tag env cfg tag qs = Ok a" "remember_segment tag a = Ok b"
      "fan_out wl tag b = Ok (c, failed)"
      "(if failed then Ok (reset_record c) else andthen (to_hls env tag c) (\<lambda>qs.
         andthen (to_file tag qs) (\<lambda>qs. Ok (reset_record qs)))) = Ok qs'"
    using assms(1) by (auto simp: deliver_def andthen_eq_Ok)
  have a: "held a = held qs" using ensuresD [OF count_tag_ident s(1)] by simp
  have b: "remembers (cache (fst a)) tag (cache (fst b))" "FlvWriters (fst b) = FlvWriters (fst a)" "writers (snd b) = writers (snd a)"
    using s(2) by (cases a; auto simp: remember_segment_def andthen_eq_Ok remembers_def split: if_splits)+
  have "clients_of wl a rs" using assms(2) clients_of_held [OF a] by simp
  then have "clients_of wl b rs" using b remembers_shape by (auto simp: clients_of_def)
  note f = fan_out_clients [OF s(3) this]
  from s(4) f obtain d e where h: "to_hls env tag c = Ok d" "to_file tag d = Ok e" "qs' = reset_record e"
    by (auto simp: andthen_eq_Ok)
  have "FlvWriters (fst d) = FlvWriters (fst c)" "cache (fst d) = cache (fst c)" "writers (snd d) = writers (snd c)"
    using h(1) by (cases c; auto simp: to_hls_def andthen_eq_Ok Let_def split: option.splits)+
  moreover have "held qs' = held d"
    using ensuresD [OF to_file_ident h(2)] reset_record_ident [of e] by (simp add: h(3))
  ultimately have c: "clients_of wl qs' xs = clients_of wl c xs" "writers (snd qs') = writers (snd c)" for xs
    by (simp_all add: clients_of_def held_def)
  from a have "cache (fst a) = cache (fst qs)" "writers (snd a) = writers (snd qs)" by (simp_all add: held_def)
  with f b show ?thesis
    unfolding fans_out_def c by (intro conjI exI [of _ "cache (fst b)"]) (simp_all add: receives_single)
qed

lemma extractFlv_clients:
  assumes "extractFlv env cfg wl rp (q, s) = Ok (q', s')" "clients_of wl (q, s) rs"
  shows "\<exists>ts. feed (flvRecord q) [rp] = Ok (flvRecord q', ts) \<and> fans_out wl rs (q, s) ts (q', s')"
proof -
  from assms obtain r d where r: "reassemble (flvRecord q) rp = Ok (r, d)"
    and rest: "(case d of None \<Rightarrow> Ok (q\<lparr>flvRecord := r\<rparr>, s)
      | Some tag \<Rightarrow> deliver env cfg wl tag (q\<lparr>flvRecord := r\<rparr>, s)) = Ok (q', s')"
    by (auto simp: extractFlv_def andthen_eq_Ok Let_def)
  have c: "clients_of wl (q\<lparr>flvRecord := r\<rparr>, s) rs" using assms(2) clients_of_held [of "(q\<lparr>flvRecord := r\<rparr>, s)" "(q, s)" wl rs] by simp
  show ?thesis
  proof (cases d)
    case None
    with rest have e: "held (q', s') = held (q, s)" by auto
    have "fans_out wl rs (q, s) [] (q', s')"
      unfolding fans_out_held [OF refl e] by (rule fans_out_Nil [OF assms(2)])
    with r rest None show ?thesis by auto
  next
    case (Some tag)
    with rest have "tags_state (q', s') = (Reset r, accFlvTags q + 1)"
      using ensuresD [OF deliver_tags [of env cfg wl tag "(q\<lparr>flvRecord := r\<rparr>, s)"]] by simp
    moreover from rest Some have "fans_out wl rs (q, s) [tag] (q', s')"
      using deliver_clients [OF _ c] fans_out_held [of "(q\<lparr>flvRecord := r\<rparr>, s)" "(q, s)"] by simp
    ultimately show ?thesis using Some r by (simp add: tags_state_def)
  qed
qed

text \<open>A run of the goroutine: without protection, the tags are those that the emitted slots make up.\<close>

lemma stream_run_clients:
  assumes "stream_run env cfg al wl qs es qs'" "clients_of wl qs rs"
  shows "\<exists>ts. fans_out wl rs qs ts qs'
    \<and> (\<not> PROTECT cfg \<longrightarrow> feed (flvRecord (fst qs)) (map snd (emitted es)) = Ok (flvRecord (fst qs'), ts))"
  using assms
proof (induction arbitrary: rs rule: stream_run.induct)
  case (finish qs)
  then show ?case by (auto intro: fans_out_Nil)
next
  case (arrive q p s es qs')
  have h: "held (Enqueue al q p, s) = held (q, s)" by simp
  from arrive.IH [of rs] arrive.prems clients_of_held [OF h] obtain ts where
    "fans_out wl rs (Enqueue al q p, s) ts qs'"
    "\<not> PROTECT cfg \<longrightarrow> feed (flvRecord q) (map snd (emitted es)) = Ok (flvRecord (fst qs'), ts)"
    by auto
  then show ?case using fans_out_held [OF h refl] by auto
next
  case (emit q s rp q1 s1 qs2 es qs')
  have h: "held (q1, s1) = held (q, s)" using ensuresD [OF Dequeue_ident emit.hyps(2)] by simp
  obtain q2 s2 where qs2: "qs2 = (q2, s2)" by (cases qs2)
  from extractFlv_clients [of env cfg rp q1 s1 q2 s2 rs] emit.hyps(3) emit.prems clients_of_held [OF h] qs2
  obtain ts where ts: "feed (flvRecord q1) [rp] = Ok (flvRecord q2, ts)" "fans_out wl rs (q, s) ts qs2"
    using fans_out_held [OF h refl] by auto
  then have "clients_of wl qs2 (filter (\<lambda>r. ts = [] \<or> \<not> Closed (writers s r)) rs)" by (simp add: fans_out_def)
  from emit.IH [OF this] obtain us where us:
    "fans_out wl (filter (\<lambda>r. ts = [] \<or> \<not> Closed (writers s r)) rs) qs2 us qs'"
    "\<not> PROTECT cfg \<longrightarrow> feed (flvRecord q2) (map snd (emitted es)) = Ok (flvRecord (fst qs'), us)"
    by (auto simp: qs2)
  have "fans_out wl rs (q, s) (ts @ us) qs'" by (rule fans_out_append [OF ts(2)]) (use us(1) in simp)
  moreover have "feed (flvRecord q) (rp # map snd (emitted es)) = Ok (flvRecord (fst qs'), ts @ us)" if "\<not> PROTECT cfg"
    using feed_append [of "flvRecord q1" "[rp]"] ts(1) us(2) Dequeue_tags [OF emit.hyps(2) that] that by simp
  ultimately show ?case by auto
qed

end

end
