(* ===== verification/Node_Clients.thy ===== *)
theory Node_Clients
  imports Node_Properties Client_Delivery
begin

text \<open>
  The HTTP-FLV clients of all streams of the node: each belongs to one stream, and whatever the node
  does, what a client receives grows exactly by the tags that its own stream completes.
\<close>

subsection \<open>Effects of the steps\<close>

lemma handleNewPacket_Ok:
  assumes "handleNewPacket nd rp app = Ok app'"
  obtains app1 r c where "app1 = app \<and> RtpQueueMap app (SSRC rp) = Some r
      \<or> RtpQueueMap app (SSRC rp) = None \<and> handleNewStream nd (SSRC rp) app = Ok (app1, r)"
    "ch_buf c = ch_buf (InChan (app_queues app1 r)) @ [Some rp]"
    "app' = app1\<lparr>app_queues := (app_queues app1)(r := (app_queues app1 r)\<lparr>InChan := c\<rparr>)\<rparr>"
proof -
  obtain app1 r where s: "(case RtpQueueMap app (SSRC rp) of Some r \<Rightarrow> Ok (app, r)
        | None \<Rightarrow> handleNewStream nd (SSRC rp) app) = Ok (app1, r)"
      "andthen (chan_send (InChan (app_queues app1 r)) (Some rp)) (\<lambda>c.
        Ok (app1\<lparr>app_queues := (app_queues app1)(r := (app_queues app1 r)\<lparr>InChan := c\<rparr>)\<rparr>)) = Ok app'"
    using assms by (auto simp: handleNewPacket_def andthen_eq_Ok)
  from s(2) obtain c where "chan_send (InChan (app_queues app1 r)) (Some rp) = Ok c"
      "app' = app1\<lparr>app_queues := (app_queues app1)(r := (app_queues app1 r)\<lparr>InChan := c\<rparr>)\<rparr>"
    by (auto simp: andthen_eq_Ok)
  with s(1) that [of app1 r c] show thesis by (auto simp: chan_send_Ok split: option.splits)
qed

lemma receiveRtp_round_Ok:
  assumes "receiveRtp_round nd d (app, first) = Ok (app', first')"
  obtains cfg where "cfg = (if first then fst (first_datagram d (app_conf app)) else app_conf app)"
    "app' = app\<lparr>app_conf := cfg\<rparr> \<or> (\<exists>rp. accepted cfg d = [rp] \<and> handleNewPacket nd rp (app\<lparr>app_conf := cfg\<rparr>) = Ok app')"
proof -
  define cfg where "cfg = (if first then fst (first_datagram d (app_conf app)) else app_conf app)"
  let ?app = "app\<lparr>app_conf := cfg\<rparr>"
  have r: "receiveRtp_round nd d (?app, False) = Ok (app', first')"
    using assms receive_first [of nd d app] by (cases first) (simp_all add: cfg_def)
  have "app' = ?app \<or> (\<exists>rp. accepted cfg d = [rp] \<and> handleNewPacket nd rp ?app = Ok app')"
  proof (cases "IsPacketLoss cfg (dg_rand d)")
    case True
    with r show ?thesis by (auto simp: receiveRtp_round_def andthen_eq_Ok)
  next
    case False
    with r obtain rp where "Parse (udp_buffer d) = Ok rp"
        "(case rp of None \<Rightarrow> Ok (?app, False) | Some rp \<Rightarrow> andthen (handleNewPacket nd rp ?app) (\<lambda>app. Ok (app, False))) = Ok (app', first')"
      by (auto simp: receiveRtp_round_def andthen_eq_Ok Let_def)
    with False show ?thesis by (cases rp) (auto simp: accepted_def andthen_eq_Ok)
  qed
  with that cfg_def show thesis by blast
qed

lemma handleConn_Answer: "handleConn h uid c addr u s = Answer resp s' \<Longrightarrow> s' = s"
  by (auto simp: handleConn_def Let_def NewFLVWriter_def andthen_eq_Ok Wait_def chan_recv_def make_chan_def
      split: option.splits if_splits go.splits prod.splits)

lemma handleConn_Streaming:
  assumes "handleConn (MyHttpHandler nd) uid c addr u app = Streaming x app'"
  obtains w path r a t where "fresh_writer a t addr c w" "x = next_writer app" "RtpQueueMap app (key_ssrc app path) = Some r"
    "app' = (set_writer x w app)\<lparr>next_writer := x + 1, app_queues := (app_queues app)
       (r := (app_queues app r)\<lparr>FlvWriters := al_Add (nd_wl nd) (FlvWriters (app_queues app r)) (Some x)\<rparr>)\<rparr>"
proof -
  define path where "path = TrimSuffix (TrimLeft u CHR ''/'') ''.flv''"
  define a where "a = SplitN path CHR ''/'' 2 ! 0"
  define t where "t = SplitN path CHR ''/'' 2 ! Suc 0"
  obtain w where w: "NewFLVWriter uid a t addr c = Ok w" "fresh_writer a t addr c w"
    using NewFLVWriter_fresh by blast
  then have wait: "Wait w = Blocked" by (simp add: fresh_writer_def)
  obtain x' app1 where n: "new_writer w app = (x', app1)" by force
  have h: "(case HandleNewFlvWriterRequest nd path x' app1 of
      Ok s \<Rightarrow> Streaming x' s | Panic e \<Rightarrow> Recovered app1 | Blocked \<Rightarrow> Streaming x' app1) = Streaming x app'"
    using assms w(1) n wait
    by (auto simp: handleConn_def Let_def MyHttpHandler_def simp flip: path_def a_def t_def
        split: option.splits if_splits go.splits)
  have key: "key_ssrc app1 path = key_ssrc app path" "RtpQueueMap app1 = RtpQueueMap app" "app_queues app1 = app_queues app"
      "x' = next_writer app" "app1 = (set_writer x' w app)\<lparr>next_writer := x' + 1\<rparr>"
    using n by (auto simp: new_writer_def Let_def key_ssrc_def set_writer_def)
  have r: "HandleNewFlvWriterRequest nd path x' app1 = (case RtpQueueMap app (key_ssrc app path) of None \<Rightarrow> Panic NilDeref
      | Some r \<Rightarrow> Ok (app1\<lparr>app_queues := (app_queues app)(r := (app_queues app r)
          \<lparr>FlvWriters := al_Add (nd_wl nd) (FlvWriters (app_queues app r)) (Some x')\<rparr>)\<rparr>))"
    by (simp add: HandleNewFlvWriterRequest_def nonnil_def key(1-3) Let_def split: option.split)
  show thesis
  proof (cases "RtpQueueMap app (key_ssrc app path)")
    case None
    with h show thesis by (simp add: r)
  next
    case (Some i)
    with h have "x = x' \<and> app' = app1\<lparr>app_queues := (app_queues app)(i := (app_queues app i)
          \<lparr>FlvWriters := al_Add (nd_wl nd) (FlvWriters (app_queues app i)) (Some x')\<rparr>)\<rparr>"
      by (auto simp: r)
    with that [OF w(2) _ Some] show thesis by (simp add: key(4,5))
  qed
qed

lemma set_writer_fields [simp]:
  "app_queues (set_writer x w app) = app_queues app" "next_queue (set_writer x w app) = next_queue app"
  "next_writer (set_writer x w app) = next_writer app" "RtpQueueMap (set_writer x w app) = RtpQueueMap app"
  "writers (app_shared (set_writer x w app)) = (writers (app_shared app))(x := w)"
  "quic (app_shared (set_writer x w app)) = quic (app_shared app)" "app_conf (set_writer x w app) = app_conf app"
  "app_hls (set_writer x w app) = app_hls app" "KeySsrcMap (set_writer x w app) = KeySsrcMap app"
  by (simp_all add: set_writer_def)

lemma Ssrc_self [simp]: "\<exists>ssrc. q = q\<lparr>Ssrc := ssrc\<rparr>"
  by (rule exI [of _ "Ssrc q"]) simp

lemma check_streams_frame:
  assumes "check_streams nd order app = Ok app'"
  shows "(\<forall>r. \<exists>ssrc. app_queues app' r = (app_queues app r)\<lparr>Ssrc := ssrc\<rparr>) \<and> writers (app_shared app') = writers (app_shared app)
    \<and> next_queue app' = next_queue app \<and> next_writer app' = next_writer app \<and> app_hls app' = app_hls app
    \<and> next_file app' = next_file app \<and> app_conf app' = app_conf app \<and> (\<forall>r. contents (files (app_shared app') r) = contents (files (app_shared app) r))"
  using assms
proof (induction order arbitrary: app)
  case Nil
  then show ?case by simp
next
  case (Cons ssrc order)
  show ?case
  proof (cases "Publishers_map (app_shared app) ssrc")
    case (Some info)
    with Cons show ?thesis by simp
  next
    case None
    obtain r where r: "RtpQueueMap app ssrc = Some r" using Cons.prems None by (auto simp: nonnil_def split: option.splits)
    let ?q = "app_queues app r"
    obtain q sh where c: "Queue_Close (?q, app_shared app) = (q, sh)" by force
    then have q: "q = ?q\<lparr>Ssrc := 0\<rparr>" "writers sh = writers (app_shared app)"
        "\<And>r. contents (files sh r) = contents (files (app_shared app) r)"
      by (auto simp: Queue_Close_def Let_def split: option.splits)
    obtain st where st: "check_streams nd order (app\<lparr>KeySsrcMap := (KeySsrcMap app)(ChannelKey ?q := None),
        RtpQueueMap := (RtpQueueMap app)(Ssrc ?q := None), app_queues := (app_queues app)(r := q),
        app_shared := sh\<lparr>quic := st\<rparr>\<rparr>) = Ok app'"
      using Cons.prems None r c by (auto simp: nonnil_def Let_def andthen_eq_Ok)
    have "\<exists>s. app_queues app' i = (app_queues app i)\<lparr>Ssrc := s\<rparr>" for i
    proof -
      obtain s where "app_queues app' i = (((app_queues app)(r := q)) i)\<lparr>Ssrc := s\<rparr>" using Cons.IH [OF st] by auto
      then show ?thesis by (cases "i = r") (auto simp: q(1))
    qed
    with Cons.IH [OF st] show ?thesis by (simp add: q(2,3))
  qed
qed

lemma CheckAlive_frame:
  assumes "CheckAlive_round nd order app = Ok app'"
  shows "(\<forall>r. \<exists>ssrc. app_queues app' r = (app_queues app r)\<lparr>Ssrc := ssrc\<rparr>) \<and> writers (app_shared app') = writers (app_shared app)
    \<and> next_queue app' = next_queue app \<and> next_writer app' = next_writer app \<and> app_hls app' = app_hls app
    \<and> next_file app' = next_file app \<and> app_conf app' = app_conf app \<and> (\<forall>r. contents (files (app_shared app') r) = contents (files (app_shared app) r))"
proof (cases "INIT (app_conf app)")
  case True
  with assms obtain res n pubs where
    "check_streams nd order (app\<lparr>app_shared := (set_world n (app_shared app))\<lparr>Publishers_map := pubs\<rparr>\<rparr>) = Ok app'"
    by (cases "HttpGet (nd_env nd) (livestat_url (app_conf app)) (world (app_shared app))")
      (auto simp: CheckAlive_round_def andthen_eq_Ok)
  from check_streams_frame [OF this] show ?thesis by simp
next
  case False
  with assms show ?thesis by (simp add: CheckAlive_round_def)
qed

subsection \<open>The clients of each stream\<close>

definition queue_clients :: "('l, 'm, 'f, 'w, 'x) Node \<Rightarrow> ('l, 'm, 'f, 'w, 'x) App \<Rightarrow> nat \<Rightarrow> nat list" where
  "queue_clients nd app r = map the (al_Values (nd_wl nd) (FlvWriters (app_queues app r)))"

abbreviation writer_at :: "('l, 'm, 'f, 'w, 'x) App \<Rightarrow> nat \<Rightarrow> FLVWriter" where
  "writer_at app x \<equiv> writers (app_shared app) x"

text \<open>
  Each client is registered with one stream, its writer exists, and the stream's goroutine can still
  send to it.
\<close>

definition clients_inv :: "('l, 'm, 'f, 'w, 'x) Node \<Rightarrow> ('l, 'm, 'f, 'w, 'x) App \<Rightarrow> bool" where
  "clients_inv nd app \<longleftrightarrow>
     (\<forall>r < next_queue app. clients_of (nd_wl nd) (app_queues app r, app_shared app) (queue_clients nd app r)
        \<and> set (queue_clients nd app r) \<subseteq> {..<next_writer app})
   \<and> (\<forall>r r'. r < next_queue app \<longrightarrow> r' < next_queue app \<longrightarrow> r \<noteq> r'
        \<longrightarrow> set (queue_clients nd app r) \<inter> set (queue_clients nd app r') = {})
   \<and> (\<forall>x < next_writer app. delivering (writer_at app x))"

text \<open>The part of a queue that only its goroutine changes.\<close>

definition core :: "('l, 'm) Queue \<Rightarrow> 'l \<times> u16 \<times> int \<times> FlvRecord \<times> SegmentCache \<times> int" where
  "core q = (queue q, FirstSeq q, PaddingWindowSize q, flvRecord q, cache q, accFlvTags q)"

lemma core_upd [simp]: "core (q\<lparr>InChan := c\<rparr>) = core q" "core (q\<lparr>FlvWriters := l\<rparr>) = core q" "core (q\<lparr>Ssrc := n\<rparr>) = core q"
  by (simp_all add: core_def)

text \<open>A step that touches a writer without the stream's goroutine leaves an open client's view alone.\<close>

definition same_view :: "FLVWriter \<Rightarrow> FLVWriter \<Rightarrow> bool" where
  "same_view w w' \<longleftrightarrow> (\<not> Closed w' \<longrightarrow> \<not> Closed w \<and> client_view w' = client_view w \<and> Init w' = Init w)
     \<and> (delivering w \<longrightarrow> delivering w')"

lemma same_view_refl [simp]: "same_view w w"
  by (simp add: same_view_def)

lemma same_view_sent: "SendPacket_round w = Ok (w', None) \<Longrightarrow> same_view w w'"
  using view_sent [of w w'] SendPacket_round_frame [of w w' None] by (simp add: same_view_def delivering_def)

lemma same_view_closed [simp]: "same_view w (w'\<lparr>Closed := True\<rparr>)"
  by (simp add: same_view_def delivering_def)

lemma same_view_broken [simp]: "same_view w (w\<lparr>ctx := (ctx w)\<lparr>hw_broken := b\<rparr>\<rparr>)"
  by (simp add: same_view_def delivering_def client_view_def)

text \<open>A step in which no queue's goroutine takes part; \<open>xs r\<close> are the clients that stream \<open>r\<close> gains.\<close>

definition quiet :: "('l, 'm, 'f, 'w, 'x) Node \<Rightarrow> ('l, 'm, 'f, 'w, 'x) App \<Rightarrow> ('l, 'm, 'f, 'w, 'x) App \<Rightarrow> (nat \<Rightarrow> nat list) \<Rightarrow> bool" where
  "quiet nd app app' xs \<longleftrightarrow> next_queue app \<le> next_queue app' \<and> next_writer app \<le> next_writer app'
   \<and> (\<forall>r < next_queue app. core (app_queues app' r) = core (app_queues app r)
        \<and> al_Values (nd_wl nd) (FlvWriters (app_queues app' r))
          = al_Values (nd_wl nd) (FlvWriters (app_queues app r)) @ map Some (xs r))
   \<and> (\<forall>r. next_queue app \<le> r \<and> r < next_queue app' \<longrightarrow> cache (app_queues app' r) = NewCache
        \<and> al_Values (nd_wl nd) (FlvWriters (app_queues app' r)) = [])
   \<and> (\<forall>r. distinct (xs r) \<and> set (xs r) \<subseteq> {next_writer app..<next_writer app'})
   \<and> (\<forall>r r'. r \<noteq> r' \<longrightarrow> set (xs r) \<inter> set (xs r') = {})
   \<and> (\<forall>x. next_writer app \<le> x \<and> x < next_writer app' \<longrightarrow> delivering (writer_at app' x))
   \<and> (\<forall>x < next_writer app. same_view (writer_at app x) (writer_at app' x))"

lemma quiet_clients:
  assumes "quiet nd app app' xs" "clients_inv nd app" "r < next_queue app'"
  shows "queue_clients nd app' r = (if r < next_queue app then queue_clients nd app r @ xs r else [])"
  using assms by (auto simp: queue_clients_def quiet_def comp_def)

lemma quiet_inv:
  assumes "quiet nd app app' xs" "clients_inv nd app"
  shows "clients_inv nd app'"
proof -
  have xs: "distinct (xs r)" "set (xs r) \<subseteq> {next_writer app..<next_writer app'}" for r
    using assms(1) by (auto simp: quiet_def)
  have disj: "r \<noteq> r' \<Longrightarrow> set (xs r) \<inter> set (xs r') = {}" for r r' using assms(1) by (simp add: quiet_def)
  have old: "set (queue_clients nd app r) \<subseteq> {..<next_writer app}" if "r < next_queue app" for r
    using assms(2) that by (simp add: clients_inv_def)
  have deliv: "delivering (writer_at app' x)" if "x < next_writer app'" for x
    using that assms unfolding quiet_def clients_inv_def same_view_def by (meson not_le_imp_less)
  have bound: "set (queue_clients nd app' r) \<subseteq> {..<next_writer app'}" if "r < next_queue app'" for r
  proof -
    have "next_writer app \<le> next_writer app'" using assms(1) by (simp add: quiet_def)
    then show ?thesis using old [of r] xs(2) [of r] by (fastforce simp: quiet_clients [OF assms that])
  qed
  have "clients_of (nd_wl nd) (app_queues app' r, app_shared app') (queue_clients nd app' r)" if "r < next_queue app'" for r
  proof (cases "r < next_queue app")
    case True
    then have "clients_of (nd_wl nd) (app_queues app r, app_shared app) (queue_clients nd app r)"
      using assms(2) by (simp add: clients_inv_def)
    moreover have "core (app_queues app' r) = core (app_queues app r)"
        "al_Values (nd_wl nd) (FlvWriters (app_queues app' r)) = al_Values (nd_wl nd) (FlvWriters (app_queues app r)) @ map Some (xs r)"
      using assms(1) True by (simp_all add: quiet_def)
    moreover have "set (queue_clients nd app r) \<inter> set (xs r) = {}"
      using old [OF True] xs(2) [of r] by fastforce
    ultimately show ?thesis
      using bound [OF that] deliv xs(1) by (auto simp: clients_of_def quiet_clients [OF assms that] True core_def)
  next
    case False
    then have "cache (app_queues app' r) = NewCache" "al_Values (nd_wl nd) (FlvWriters (app_queues app' r)) = []"
      using assms(1) that by (simp_all add: quiet_def)
    then show ?thesis by (simp add: clients_of_def queue_clients_def)
  qed
  moreover have "set (queue_clients nd app' r) \<inter> set (queue_clients nd app' r') = {}"
    if "r < next_queue app'" "r' < next_queue app'" "r \<noteq> r'" for r r'
  proof (cases "r < next_queue app \<and> r' < next_queue app")
    case True
    then have "set (queue_clients nd app r) \<inter> set (queue_clients nd app r') = {}"
      using assms(2) that(3) by (simp add: clients_inv_def)
    moreover have "set (queue_clients nd app r) \<inter> set (xs r') = {}" "set (queue_clients nd app r') \<inter> set (xs r) = {}"
      using old [of r] old [of r'] True xs(2) [of r'] xs(2) [of r] by fastforce+
    ultimately show ?thesis
      using True disj [OF that(3)] by (auto simp: quiet_clients [OF assms that(1)] quiet_clients [OF assms that(2)])
  next
    case False
    then show ?thesis by (auto simp: quiet_clients [OF assms that(1)] quiet_clients [OF assms that(2)])
  qed
  ultimately show ?thesis using bound deliv by (simp add: clients_inv_def)
qed

lemma quiet_refl:
  assumes "next_queue app' = next_queue app" "next_writer app' = next_writer app"
    and "\<And>r. core (app_queues app' r) = core (app_queues app r) \<and> FlvWriters (app_queues app' r) = FlvWriters (app_queues app r)"
    and "\<And>x. x < next_writer app \<Longrightarrow> same_view (writer_at app x) (writer_at app' x)"
  shows "quiet nd app app' (\<lambda>_. [])"
  using assms by (auto simp: quiet_def)

lemma NewQueue_empty:
  assumes "NewQueue al wl cfg h ssrc key wz record f = Ok q"
  shows "cache q = NewCache \<and> FlvWriters q = al_New wl \<and> queue q = al_New al \<and> PaddingWindowSize q = wz \<and> flvRecord q = record"
  using assms by (auto simp: NewQueue_def Let_def andthen_eq_Ok)

context edge_node
begin

lemma new_stream_quiet:
  assumes "handleNewStream nd ssrc app = Ok (app', r)"
  shows "quiet nd app app' (\<lambda>_. [])"
proof (rule handleNewStream_Ok [OF assms], goal_cases)
  case (1 key q res n pub src rf)
  then show ?case
    using NewQueue_empty [OF 1(13)] by (auto simp: quiet_def values_new less_Suc_eq)
qed

lemma packet_quiet:
  assumes "handleNewPacket nd rp app = Ok app'"
  shows "quiet nd app app' (\<lambda>_. [])"
proof -
  obtain app1 r c where p: "app1 = app \<and> RtpQueueMap app (SSRC rp) = Some r
      \<or> RtpQueueMap app (SSRC rp) = None \<and> handleNewStream nd (SSRC rp) app = Ok (app1, r)"
      "app' = app1\<lparr>app_queues := (app_queues app1)(r := (app_queues app1 r)\<lparr>InChan := c\<rparr>)\<rparr>"
    using handleNewPacket_Ok [OF assms] by metis
  have "quiet nd app app1 (\<lambda>_. [])" using p(1) new_stream_quiet by (auto intro: quiet_refl)
  then show ?thesis by (auto simp: quiet_def p(2))
qed

lemma step_quiet:
  assumes "node_step nd (app, first) e (app', first')" "\<And>r. e \<noteq> Handled r" "app_ok app"
  shows "\<exists>xs. quiet nd app app' xs"
  using assms(1)
proof (cases rule: node_step.cases)
  case (step_receive d)
  obtain cfg where cfg: "app' = app\<lparr>app_conf := cfg\<rparr>
      \<or> (\<exists>rp. accepted cfg d = [rp] \<and> handleNewPacket nd rp (app\<lparr>app_conf := cfg\<rparr>) = Ok app')"
    using receiveRtp_round_Ok [OF step_receive(2)] by metis
  have "quiet nd (app\<lparr>app_conf := cfg\<rparr>) app' (\<lambda>_. [])"
    using cfg packet_quiet by (auto intro: quiet_refl)
  then show ?thesis by (auto simp: quiet_def)
next
  case (step_answer uid c addr u resp)
  then show ?thesis using handleConn_Answer by (metis quiet_refl same_view_refl)
next
  case (step_client uid c addr u x)
  obtain w path r a t where w: "fresh_writer a t addr c w" "x = next_writer app" "RtpQueueMap app (key_ssrc app path) = Some r"
      "app' = (set_writer x w app)\<lparr>next_writer := x + 1, app_queues := (app_queues app)
         (r := (app_queues app r)\<lparr>FlvWriters := al_Add (nd_wl nd) (FlvWriters (app_queues app r)) (Some x)\<rparr>)\<rparr>"
    using handleConn_Streaming [OF step_client(3)] by metis
  have "delivering w" using w(1) by (simp add: fresh_writer_def delivering_def make_chan_def)
  then have "quiet nd app app' ((\<lambda>_. [])(r := [x]))"
    using w(2) by (auto simp: quiet_def w(4) values_add less_Suc_eq)
  then show ?thesis by blast
next
  case (step_alive order)
  have "quiet nd app app' (\<lambda>_. [])"
  proof (rule quiet_refl)
    fix r
    obtain n where "app_queues app' r = (app_queues app r)\<lparr>Ssrc := n\<rparr>" using CheckAlive_frame [OF step_alive(5)] by auto
    then show "core (app_queues app' r) = core (app_queues app r) \<and> FlvWriters (app_queues app' r) = FlvWriters (app_queues app r)"
      by simp
  qed (use CheckAlive_frame [OF step_alive(5)] in simp_all)
  then show ?thesis by blast
next
  case (step_sent x w)
  then have "quiet nd app app' (\<lambda>_. [])" by (intro quiet_refl) (auto intro: same_view_sent)
  then show ?thesis by blast
qed (use assms(2) in \<open>auto intro!: exI [of _ "\<lambda>_. []"] quiet_refl simp: set_source_def\<close>)

end

subsection \<open>What a stream's clients get\<close>

text \<open>
  Between two states, the clients of stream \<open>r\<close> that are still open have received the tags \<open>ts\<close>, the
  first of them preceded by the initialisation segments if they had received none.
\<close>

definition gets_from :: "('l, 'm, 'f, 'w, 'x) Node \<Rightarrow> nat \<Rightarrow> ('l, 'm, 'f, 'w, 'x) App \<Rightarrow> SegmentCache \<Rightarrow> slice list
    \<Rightarrow> ('l, 'm, 'f, 'w, 'x) App \<Rightarrow> nat \<Rightarrow> bool" where
  "gets_from nd r app c ts app' x \<longleftrightarrow> x \<in> set (queue_clients nd app' r)
     \<and> client_view (writer_at app' x) = client_view (writer_at app x)
          @ concat (map framed (first_segments (writer_at app x) c ts @ ts))
     \<and> Init (writer_at app' x) = (Init (writer_at app x) \<or> ts \<noteq> [])"

definition gets :: "('l, 'm, 'f, 'w, 'x) Node \<Rightarrow> nat \<Rightarrow> ('l, 'm, 'f, 'w, 'x) App \<Rightarrow> slice list \<Rightarrow> ('l, 'm, 'f, 'w, 'x) App \<Rightarrow> bool" where
  "gets nd r app ts app' \<longleftrightarrow>
     (\<exists>c. (ts \<noteq> [] \<longrightarrow> remembers (cache (app_queues app r)) (hd ts) c)
        \<and> (\<forall>x \<in> set (queue_clients nd app r). \<not> Closed (writer_at app' x) \<longrightarrow> gets_from nd r app c ts app' x))
     \<and> (ts = [] \<longrightarrow> cache (app_queues app' r) = cache (app_queues app r))
     \<and> next_writer app \<le> next_writer app' \<and> (\<forall>x < next_writer app. Closed (writer_at app x) \<longrightarrow> Closed (writer_at app' x))"

lemma gets_from_trans:
  assumes "gets_from nd r app c ts app1 x" "gets_from nd r app1 d us app' x"
  shows "gets_from nd r app (if ts = [] then d else c) (ts @ us) app' x"
proof (cases "ts = []")
  case True
  with assms show ?thesis by (simp add: gets_from_def first_segments_def)
next
  case False
  with assms have "first_segments (writer_at app1 x) d us = []" by (simp add: gets_from_def first_segments_def)
  with assms False show ?thesis by (simp add: gets_from_def first_segments_def)
qed

lemma gets_refl [simp]: "gets nd r app [] app"
  by (simp add: gets_def gets_from_def first_segments_def)

lemma gets_trans:
  assumes "gets nd r app ts app1" "gets nd r app1 us app'"
    and "set (queue_clients nd app r) \<subseteq> {..<next_writer app}"
  shows "gets nd r app (ts @ us) app'"
proof -
  obtain c where c: "ts \<noteq> [] \<longrightarrow> remembers (cache (app_queues app r)) (hd ts) c"
      "\<And>x. x \<in> set (queue_clients nd app r) \<Longrightarrow> \<not> Closed (writer_at app1 x) \<Longrightarrow> gets_from nd r app c ts app1 x"
    using assms(1) unfolding gets_def by blast
  obtain d where d: "us \<noteq> [] \<longrightarrow> remembers (cache (app_queues app1 r)) (hd us) d"
      "\<And>x. x \<in> set (queue_clients nd app1 r) \<Longrightarrow> \<not> Closed (writer_at app' x) \<Longrightarrow> gets_from nd r app1 d us app' x"
    using assms(2) unfolding gets_def by blast
  have mono: "next_writer app \<le> next_writer app1" "\<And>x. x < next_writer app1 \<Longrightarrow> Closed (writer_at app1 x) \<Longrightarrow> Closed (writer_at app' x)"
      "\<And>x. x < next_writer app \<Longrightarrow> Closed (writer_at app x) \<Longrightarrow> Closed (writer_at app1 x)" "next_writer app1 \<le> next_writer app'"
      "ts = [] \<longrightarrow> cache (app_queues app1 r) = cache (app_queues app r)"
      "us = [] \<longrightarrow> cache (app_queues app' r) = cache (app_queues app1 r)"
    using assms(1,2) by (simp_all add: gets_def)
  have "gets_from nd r app (if ts = [] then d else c) (ts @ us) app' x"
    if x: "x \<in> set (queue_clients nd app r)" "\<not> Closed (writer_at app' x)" for x
  proof -
    have "x < next_writer app1" using assms(3) mono(1) x(1) by fastforce
    with mono(2) x(2) have "\<not> Closed (writer_at app1 x)" by blast
    note g = c(2) [OF x(1) this]
    then have "x \<in> set (queue_clients nd app1 r)" by (simp add: gets_from_def)
    from gets_from_trans [OF g d(2) [OF this x(2)]] show ?thesis .
  qed
  moreover have "ts @ us \<noteq> [] \<longrightarrow> remembers (cache (app_queues app r)) (hd (ts @ us)) (if ts = [] then d else c)"
    using c(1) d(1) mono(5) by auto
  moreover have "next_writer app \<le> next_writer app'" using mono(1,4) by simp
  moreover have "Closed (writer_at app' x)" if "x < next_writer app" "Closed (writer_at app x)" for x
    using mono(1-3) that by (meson less_le_trans)
  ultimately show ?thesis using mono(5,6) unfolding gets_def by auto
qed

lemma quiet_gets:
  assumes "quiet nd app app' xs" "clients_inv nd app" "r < next_queue app"
  shows "gets nd r app [] app'"
proof -
  have q: "next_queue app \<le> next_queue app'" "next_writer app \<le> next_writer app'" "core (app_queues app' r) = core (app_queues app r)"
      "\<And>x. x < next_writer app \<Longrightarrow> same_view (writer_at app x) (writer_at app' x)"
    using assms(1,3) by (simp_all add: quiet_def)
  have "gets_from nd r app c [] app' x" if "x \<in> set (queue_clients nd app r)" "\<not> Closed (writer_at app' x)" for c x
  proof -
    have "x < next_writer app" using assms(2,3) that(1) by (fastforce simp: clients_inv_def)
    from q(4) [OF this] that show ?thesis
      using quiet_clients [OF assms(1,2), of r] assms(3) q(1) by (simp add: gets_from_def same_view_def first_segments_def)
  qed
  with q show ?thesis by (auto simp: gets_def core_def same_view_def)
qed

subsection \<open>A round of a queue's goroutine\<close>

sublocale edge_node \<subseteq> wl: writer_list "nd_wl nd"
  by unfold_locales

lemma view_fields [simp]:
  "writers (shared_view app) = writers (app_shared app)" "quic (shared_view app) = quic (app_shared app)"
  by (simp_all add: shared_view_def)

lemma clients_of_view [simp]:
  "clients_of wl (q\<lparr>InChan := c\<rparr>, shared_view app) rs = clients_of wl (q, app_shared app) rs"
  by (simp add: clients_of_def shared_view_def)

context edge_node
begin

lemma queue_round:
  assumes "queue_goroutine nd r app = Some (Ok app')" "r < next_queue app" "clients_inv nd app"
  obtains (idle) "app' = app"
    | (packet) p c es q sh ts where "chan_recv (InChan (app_queues app r)) = Ok (Some p, c)"
      "stream_run (nd_env nd) (app_conf app) (nd_al nd) (nd_wl nd) ((app_queues app r)\<lparr>InChan := c\<rparr>, shared_view app) es (q, sh)"
      "arrivals es = [p]" "app' = store_shared sh (app\<lparr>app_queues := (app_queues app)(r := q)\<rparr>)"
      "fans_out (nd_wl nd) (queue_clients nd app r) ((app_queues app r)\<lparr>InChan := c\<rparr>, shared_view app) ts (q, sh)"
      "\<not> PROTECT (app_conf app) \<longrightarrow> feed (flvRecord (app_queues app r)) (map snd (emitted es)) = Ok (flvRecord q, ts)"
  using assms(1)
proof (cases rule: queue_goroutine_Ok)
  case (packet p c q sh)
  obtain es where es: "stream_run (nd_env nd) (app_conf app) (nd_al nd) (nd_wl nd)
      ((app_queues app r)\<lparr>InChan := c\<rparr>, shared_view app) (Arrive p # es) (q, sh)" "arrivals es = []"
    using RecvPacket_one_run [OF packet(2)] by blast
  have "clients_of (nd_wl nd) (app_queues app r, app_shared app) (queue_clients nd app r)"
    using assms(2,3) by (simp add: clients_inv_def)
  with wl.stream_run_clients [OF es(1), of "queue_clients nd app r"] that(2) [OF packet(1) es(1)] packet(3) es(2)
  show thesis by auto
qed (use that(1) in blast)

lemma queue_round_effect:
  assumes inv: "clients_inv nd app" and r: "r < next_queue app"
    and f: "fans_out (nd_wl nd) (queue_clients nd app r) ((app_queues app r)\<lparr>InChan := c\<rparr>, shared_view app) ts (q, sh)"
    and app': "app' = store_shared sh (app\<lparr>app_queues := (app_queues app)(r := q)\<rparr>)"
  shows "clients_inv nd app' \<and> gets nd r app ts app' \<and> (\<forall>r' < next_queue app. r' \<noteq> r \<longrightarrow> gets nd r' app [] app')"
proof -
  let ?rs = "queue_clients nd app r" and ?w = "writer_at app"
  let ?rs' = "filter (\<lambda>x. ts = [] \<or> \<not> Closed (?w x)) ?rs"
  obtain d where d: "ts \<noteq> [] \<longrightarrow> remembers (cache (app_queues app r)) (hd ts) d"
      "\<And>x. writers sh x = (if x \<in> set ?rs then receives d ts (?w x) else ?w x)"
      "clients_of (nd_wl nd) (q, sh) ?rs'" "ts = [] \<longrightarrow> cache q = cache (app_queues app r)"
    using f unfolding fans_out_def snd_conv fst_conv view_fields by auto
  have cl: "Closed (writers sh x) = Closed (?w x)" "delivering (writers sh x) = delivering (?w x)" for x
    by (simp_all add: d(2))
  have new: "queue_clients nd app' i = (if i = r then ?rs' else queue_clients nd app i)" for i
    using d(3) by (auto simp: app' queue_clients_def clients_of_def comp_def)
  have disj: "set (queue_clients nd app i) \<inter> set (queue_clients nd app j) = {}"
    if "i < next_queue app" "j < next_queue app" "i \<noteq> j" for i j
    using inv that by (simp add: clients_inv_def)
  have sub: "set (queue_clients nd app i) \<subseteq> {..<next_writer app}" if "i < next_queue app" for i
    using inv that by (simp add: clients_inv_def)
  have "clients_of (nd_wl nd) (app_queues app' i, app_shared app') (queue_clients nd app' i)" if "i < next_queue app" for i
    using inv that d(3) new [of i] cl(2) by (auto simp: clients_inv_def app' clients_of_def)
  moreover have "set (queue_clients nd app' i) \<inter> set (queue_clients nd app' j) = {}"
    if "i < next_queue app" "j < next_queue app" "i \<noteq> j" for i j
    using disj [OF that] by (auto simp: new)
  moreover have "set (queue_clients nd app' i) \<subseteq> {..<next_writer app}" if "i < next_queue app" for i
    using sub [OF that] by (auto simp: new)
  ultimately have "clients_inv nd app'"
    using inv by (simp add: clients_inv_def app' cl)
  moreover have "gets_from nd r app d ts app' x" if "x \<in> set ?rs" "\<not> Closed (writer_at app' x)" for x
  proof -
    have "\<not> Closed (?w x)" using that(2) cl(1) by (simp add: app')
    with that(1) new [of r] show ?thesis
      by (simp add: gets_from_def app' d(2) view_receives) (simp add: receives_def)
  qed
  then have "gets nd r app ts app'"
    using d(1,4) cl(1) by (auto simp: gets_def app')
  moreover have "gets nd i app [] app'" if i: "i < next_queue app" "i \<noteq> r" for i
  proof -
    have "writer_at app' x = ?w x" if "x \<in> set (queue_clients nd app i)" for x
      using disj [OF i(1) r i(2)] that by (auto simp: app' d(2))
    with i(2) new [of i] cl(1) show ?thesis by (auto simp: gets_def gets_from_def first_segments_def app')
  qed
  ultimately show ?thesis by blast
qed

end

end
