(* ===== verification/Hls_Delivery.thy ===== *)
theory Hls_Delivery
  imports Client_Delivery Hls_Segments
begin

text \<open>
  What a stream's goroutine does to its HLS source and its recording: each tag that it completes is
  parsed and put into the channel of the source, and written to the file, in order; no other source and
  no other file changes.
\<close>

subsection \<open>Feeding a source\<close>

fun hls_fed :: "'w Env \<Rightarrow> slice list \<Rightarrow> 'a Source_scheme \<Rightarrow> 'a Source_scheme \<Rightarrow> bool" where
  "hls_fed env [] s s' = (s' = s)"
| "hls_fed env (t # ts) s s' =
     (\<exists>p s1. av_Parse env t True = Ok p \<and> Source_Write s p = Ok (s1, None) \<and> hls_fed env ts s1 s')"

lemma hls_fed_append: "hls_fed env (ts @ us) s s'' = (\<exists>s'. hls_fed env ts s s' \<and> hls_fed env us s' s'')"
  by (induction ts arbitrary: s) auto

lemma Write_Some: "Source_Write s p = Ok (s', None)
    \<Longrightarrow> \<exists>c. chan_send (src_packetQueue s) p = Ok c \<and> s' = s\<lparr>src_packetQueue := c\<rparr> \<and> \<not> src_closed s"
  by (auto simp: Source_Write_def split: if_splits go.splits)

text \<open>The packets, as the source finds them in its channel.\<close>

lemma hls_fed_channel:
  assumes "hls_fed env ts s s'"
  shows "\<exists>ps. list_all2 (\<lambda>t p. av_Parse env t True = Ok p) ts ps
    \<and> ch_buf (src_packetQueue s') = ch_buf (src_packetQueue s) @ ps \<and> (ts \<noteq> [] \<longrightarrow> \<not> src_closed s)
    \<and> src_closed s' = src_closed s"
  using assms
proof (induction ts arbitrary: s)
  case (Cons t ts)
  then obtain p s1 where p: "av_Parse env t True = Ok p" "Source_Write s p = Ok (s1, None)" "hls_fed env ts s1 s'"
    by auto
  obtain c where c: "chan_send (src_packetQueue s) p = Ok c" "s1 = s\<lparr>src_packetQueue := c\<rparr>" "\<not> src_closed s"
    using Write_Some [OF p(2)] by blast
  from Cons.IH [OF p(3)] obtain ps where "list_all2 (\<lambda>t p. av_Parse env t True = Ok p) ts ps"
      "ch_buf (src_packetQueue s') = ch_buf (src_packetQueue s1) @ ps" "src_closed s' = src_closed s1"
    by blast
  with p(1) c show ?case by (intro exI [of _ "p # ps"]) (auto simp: chan_send_Ok)
qed simp

text \<open>A source that has more fields than the goroutine sees.\<close>

lemma Write_extend:
  assumes "Source_Write (Source.truncate s) p = Ok (s1, None)"
  shows "Source_Write s p = Ok (Source.extend s1 (Source.more s), None)"
  using assms by (cases s) (auto simp: Source_Write_def Source.defs split: if_splits go.splits)

lemma extend_truncate [simp]:
  "Source.extend (Source.truncate s) (Source.more s) = s" "Source.truncate (Source.extend r m) = r"
  "Source.more (Source.extend r m) = m"
  by (cases s; cases r; simp add: Source.defs)+

lemma hls_fed_extend:
  "hls_fed env ts (Source.truncate s) src \<Longrightarrow> hls_fed env ts s (Source.extend src (Source.more s))"
proof (induction ts arbitrary: s)
  case (Cons t ts)
  then obtain p s1 where p: "av_Parse env t True = Ok p" "Source_Write (Source.truncate s) p = Ok (s1, None)" "hls_fed env ts s1 src"
    by auto
  let ?s1 = "Source.extend s1 (Source.more s)"
  have "hls_fed env ts ?s1 (Source.extend src (Source.more ?s1))" using Cons.IH [of ?s1] p(3) by simp
  with p(1) Write_extend [OF p(2)] show ?case by auto
qed simp

lemma recorded_fed:
  assumes "hls_fed env ts s s'" "recorded lg s"
  shows "recorded lg s' \<and> src_Key s' = src_Key s"
  using assms
proof (induction ts arbitrary: s)
  case (Cons t ts)
  then obtain p s1 where "Source_Write s p = Ok (s1, None)" "hls_fed env ts s1 s'" by auto
  with Cons.IH [of s1] recorded_write [OF Cons.prems(2)] show ?case by auto
qed simp

subsection \<open>The source's own goroutine\<close>

text \<open>Only the receive at the start of a round touches the channel.\<close>

definition apart :: "('x HlsSource, 'a) act \<Rightarrow> bool" where
  "apart m \<longleftrightarrow> (\<forall>s. src_packetQueue (fst (m s)) = src_packetQueue s)"

lemma apartD: "apart m \<Longrightarrow> src_packetQueue (fst (m s)) = src_packetQueue s"
  by (simp add: apart_def)

lemma apart_dep: "(\<And>a. apart (m a)) \<Longrightarrow> apart (\<lambda>s. m (h s) s)"
  by (simp add: apart_def)

lemma apart_pre: "apart m \<Longrightarrow> apart (\<lambda>s. m (s\<lparr>hs_bwriter := b\<rparr>))"
  by (auto simp: apart_def)

lemma apart_bind [intro]: "apart m \<Longrightarrow> (\<And>a. apart (f a)) \<Longrightarrow> apart (bind_act m f)"
  by (auto simp: apart_def fst_bind_act split: go.splits)

lemma apart_ret [simp]: "apart (ret_act a)" "apart (\<lambda>s. (s, r))"
  by (simp_all add: apart_def ret_act_def)

lemma apart_if: "apart m \<Longrightarrow> apart m' \<Longrightarrow> apart (\<lambda>s. if P s then m s else m' s)"
  by (simp add: apart_def)

lemma apart_ops:
  "apart (Mux lg p)" "apart (Parse_into_bwriter lg p)" "apart (calcPtsDts lg v ts c)" "apart (write_tables lg)"
  "apart (finish_segment now)" "apart (upd_act (\<lambda>s. s\<lparr>hs_stat := f (hs_stat s)\<rparr>))"
  by (auto simp: apart_def Mux_def Parse_into_bwriter_def calcPtsDts_def write_tables_def finish_segment_def upd_act_def
      Let_def split: go.splits prod.splits option.splits)

lemma apart_muxAudio: "apart (muxAudio lg n)"
  by (auto simp: apart_def muxAudio_def apartD [OF apart_ops(1)] split: option.splits prod.splits)

lemma apart_tsMux: "apart (tsMux lg p)"
  by (auto simp: apart_def tsMux_def apartD [OF apart_ops(1)] apartD [OF apart_muxAudio] split: option.splits)

lemma apart_cut: "apart (cut lg now)"
proof -
  have "apart (bind_act (flushAudio lg) (\<lambda>_. bind_act (finish_segment now) (\<lambda>_. write_tables lg)))"
    unfolding flushAudio_def by (intro apart_bind apart_muxAudio apart_ops)
  then show ?thesis by (auto simp: apart_def cut_def apartD [OF apart_ops(4)])
qed

lemma apart_parse_frame: "apart (parse_frame lg now p ct k)"
proof -
  let ?rest = "\<lambda>err. case err of
      Some e \<Rightarrow> ret_act (ct, False, Some e, p)
    | None \<Rightarrow> (\<lambda>s. bind_act (if k then cut lg now else ret_act ())
        (\<lambda>_. ret_act (ct, False, None, p\<lparr>av_Data := of_bytes (case hs_bwriter s of Some b \<Rightarrow> b | None \<Rightarrow> [])\<rparr>)) s)"
  have "apart (bind_act (if k then cut lg now else ret_act ()) (\<lambda>_. ret_act (ct, False, None, q)))" for q
    by (intro apart_bind) (simp_all add: apart_cut)
  then have "apart (?rest None)" unfolding option.case by (rule apart_dep)
  then have "apart (?rest err)" for err by (cases err) simp_all
  from apart_pre [OF apart_bind [OF apart_ops(2) this]]
  have "apart (\<lambda>s. bind_act (Parse_into_bwriter lg p) ?rest (s\<lparr>hs_bwriter := Some []\<rparr>))" .
  then show ?thesis
    unfolding parse_frame_def Let_def by (rule apart_if [OF apart_ret(2)])
qed

lemma apart_parse: "apart (parse lg now p)"
proof -
  have seq: "apart (bind_act (Parse_into_bwriter lg p) (\<lambda>err. ret_act (f err)))" for f :: "_ \<Rightarrow> 'b"
    by (intro apart_bind apart_ops) simp
  show ?thesis unfolding parse_def by (cases "av_Header p") (auto simp: apart_if apart_parse_frame seq)
qed

lemma apart_send_frame: "apart (send_frame lg now p)"
  unfolding send_frame_def
proof (rule apart_bind [OF apart_parse])
  fix r :: "u32 \<times> bool \<times> string option \<times> av_Packet"
  obtain ct isSeq err p where r: "r = (ct, isSeq, err, p)" by (cases r)
  have "apart (bind_act (upd_act (\<lambda>s. s\<lparr>hs_stat := update (av_IsVideo p) (av_TimeStamp p) (hs_stat s)\<rparr>)) (\<lambda>_.
         bind_act (calcPtsDts lg (av_IsVideo p) (av_TimeStamp p) ct) (\<lambda>_.
         bind_act (tsMux lg p) (\<lambda>_. ret_act (None :: string option)))))"
    by (intro apart_bind apart_ops apart_tsMux apart_ret)
  then show "apart (case r of (ct, isSeq, err, p) \<Rightarrow> \<lambda>s.
       if err \<noteq> None \<or> isSeq then (s, Ok (None :: string option))
       else if hs_btswriter s \<noteq> None then
         bind_act (upd_act (\<lambda>s. s\<lparr>hs_stat := update (av_IsVideo p) (av_TimeStamp p) (hs_stat s)\<rparr>)) (\<lambda>_.
         bind_act (calcPtsDts lg (av_IsVideo p) (av_TimeStamp p) ct) (\<lambda>_.
         bind_act (tsMux lg p) (\<lambda>_. ret_act None))) s
       else (s, Ok None))"
    by (simp add: r apart_def)
qed

lemma goroutine_channel:
  assumes "source_goroutine lg now s = Ok s'"
  shows "\<exists>k. k \<le> length (ch_buf (src_packetQueue s))
    \<and> ch_buf (src_packetQueue s') = drop k (ch_buf (src_packetQueue s))"
proof (cases "src_closed s")
  case True
  then show ?thesis using goroutine_closed [OF assms] by (intro exI [of _ 0]) simp
next
  case False
  let ?s0 = "fst (Source_SendPacket_round lg now s)"
  have "src_packetQueue s' = src_packetQueue ?s0"
    using assms by (cases "Source_SendPacket_round lg now s") (auto simp: source_goroutine_def split: if_splits go.splits option.splits)
  moreover have "src_packetQueue ?s0 = src_packetQueue s
      \<or> (\<exists>p c. chan_recv (src_packetQueue s) = Ok (Some p, c) \<and> src_packetQueue ?s0 = c)"
    using False
    by (auto simp: apartD [OF apart_send_frame] Source_SendPacket_round_def Let_def split: go.splits prod.splits option.splits)
  ultimately show ?thesis
  proof (elim disjE exE conjE)
    fix p c
    assume c: "chan_recv (src_packetQueue s) = Ok (Some p, c)" "src_packetQueue ?s0 = c"
      "src_packetQueue s' = src_packetQueue ?s0"
    from c(1) have "ch_buf (src_packetQueue s) = p # ch_buf c"
      by (auto simp: chan_recv_def split: list.splits if_splits)
    with c(2,3) show ?thesis by (intro exI [of _ 1]) simp
  qed (auto intro: exI [of _ 0])
qed

subsection \<open>The goroutine and its source\<close>

definition hls_to :: "'w Env \<Rightarrow> nat option \<Rightarrow> slice list \<Rightarrow> (nat \<Rightarrow> Source) \<Rightarrow> (nat \<Rightarrow> Source) \<Rightarrow> bool" where
  "hls_to env h ts srcs srcs' \<longleftrightarrow>
     (case h of None \<Rightarrow> srcs' = srcs | Some r \<Rightarrow> \<exists>src. hls_fed env ts (srcs r) src \<and> srcs' = srcs(r := src))"

lemma hls_to_Nil [simp]: "hls_to env h [] srcs srcs' \<longleftrightarrow> srcs' = srcs"
  by (auto simp: hls_to_def split: option.split)

lemma hls_to_append:
  assumes "hls_to env h ts srcs srcs1" "hls_to env h us srcs1 srcs2"
  shows "hls_to env h (ts @ us) srcs srcs2"
proof (cases h)
  case (Some r)
  obtain src where src: "hls_fed env ts (srcs r) src" "srcs1 = srcs(r := src)" using assms(1) Some by (auto simp: hls_to_def)
  obtain src' where "hls_fed env us src src'" "srcs2 = srcs(r := src')" using assms(2) Some src(2) by (auto simp: hls_to_def)
  with src Some show ?thesis by (auto simp: hls_to_def hls_fed_append)
qed (use assms in \<open>simp add: hls_to_def\<close>)

text \<open>
  The same for the recording, to which the tags are written; descriptors of files with other names do not
  change.
\<close>

definition file_to :: "nat option \<Rightarrow> slice list \<Rightarrow> (nat \<Rightarrow> File) \<Rightarrow> (nat \<Rightarrow> File) \<Rightarrow> bool" where
  "file_to h ts fs fs' \<longleftrightarrow> (\<forall>i. fname (fs' i) = fname (fs i))
     \<and> (case h of None \<Rightarrow> fs' = fs
        | Some r \<Rightarrow> WriteTags (fs r) (map bytes ts) = (fs' r, None) \<and> (\<forall>i. fname (fs i) \<noteq> fname (fs r) \<longrightarrow> fs' i = fs i))"

lemma file_to_Nil [simp]: "file_to h [] fs fs"
  by (simp add: file_to_def split: option.split)

lemma file_to_append:
  assumes "file_to h ts fs fs1" "file_to h us fs1 fs2"
  shows "file_to h (ts @ us) fs fs2"
  using assms by (auto simp: file_to_def WriteTags_append split: option.splits)

lemma to_file_files:
  assumes "to_file tag qs = Ok qs'"
  shows "file_to (flvFile (fst qs)) [tag] (files (snd qs)) (files (snd qs'))"
proof (cases "flvFile (fst qs)")
  case None
  with assms show ?thesis by (cases qs) (auto simp: to_file_def file_to_def)
next
  case (Some r)
  let ?fs = "files (snd qs)"
  obtain f where f: "WriteTagDirect (?fs r) (bytes tag) = (f, None)" "files (snd qs') = put_file r f ?fs"
    using assms Some
    by (cases qs) (auto simp: to_file_def andthen_eq_Ok CheckError_def split: option.splits prod.splits)
  have n: "fname f = fname (?fs r)" by (rule WriteTagDirect_fname [OF f(1)])
  have "fname (put_file r f ?fs i) = fname (?fs i)" for i using n by (cases "i = r") simp_all
  moreover have "put_file r f ?fs i = ?fs i" if "fname (?fs i) \<noteq> fname (?fs r)" for i
    using that n by (cases "i = r") auto
  ultimately show ?thesis using Some f by (simp add: file_to_def)
qed

text \<open>Both outputs of a queue: its HLS source and its recording.\<close>

definition outputs_to :: "'w Env \<Rightarrow> ('l, 'm) Queue \<Rightarrow> slice list \<Rightarrow> 'w Shared \<Rightarrow> 'w Shared \<Rightarrow> bool" where
  "outputs_to env q ts s s' \<longleftrightarrow> hls_to env (hlsWriter q) ts (sources s) (sources s') \<and> file_to (flvFile q) ts (files s) (files s')"

lemma outputs_to_same [simp]: "sources s' = sources s \<Longrightarrow> files s' = files s \<Longrightarrow> outputs_to env q [] s s'"
  by (simp add: outputs_to_def)

lemma outputs_to_ident: "ident q = ident q' \<Longrightarrow> outputs_to env q = outputs_to env q'"
  by (intro ext) (simp add: outputs_to_def ident_def)

lemma outputs_to_append:
  "outputs_to env q ts s s1 \<Longrightarrow> outputs_to env q us s1 s2 \<Longrightarrow> outputs_to env q (ts @ us) s s2"
  by (auto simp: outputs_to_def intro: hls_to_append file_to_append)

context writer_list
begin

lemma deliver_outputs:
  assumes "deliver env cfg wl tag qs = Ok qs'" "clients_of wl qs rs"
  shows "outputs_to env (fst qs) [tag] (snd qs) (snd qs')"
proof -
  obtain a b c failed where s: "count_tag env cfg tag qs = Ok a" "remember_segment tag a = Ok b"
      "fan_out wl tag b = Ok (c, failed)"
      "(if failed then Ok (reset_record c) else andthen (to_hls env tag c) (\<lambda>qs.
         andthen (to_file tag qs) (\<lambda>qs. Ok (reset_record qs)))) = Ok qs'"
    using assms(1) by (auto simp: deliver_def andthen_eq_Ok)
  have a: "held a = held qs" "ident (fst a) = ident (fst qs)" "files (snd a) = files (snd qs)"
    using ensuresD [OF count_tag_ident s(1)] by simp_all
  have "FlvWriters (fst b) = FlvWriters (fst a)" "writers (snd b) = writers (snd a)" "remembers (cache (fst a)) tag (cache (fst b))"
      "sources (snd b) = sources (snd a)" "files (snd b) = files (snd a)"
    using s(2) by (cases a; auto simp: remember_segment_def andthen_eq_Ok remembers_def split: if_splits)+
  moreover have "clients_of wl a rs" using assms(2) clients_of_held [OF a(1)] by simp
  ultimately have b: "clients_of wl b rs" "sources (snd b) = sources (snd qs)" "ident (fst b) = ident (fst qs)" "files (snd b) = files (snd qs)"
    using remembers_shape a ensuresD [OF remember_segment_ident s(2)] by (auto simp: clients_of_def held_def)
  have "sources (snd c) = sources (snd b)" "files (snd c) = files (snd b)"
    using s(3) by (cases b; auto simp: fan_out_def andthen_eq_Ok)+
  with b(2-4) ensuresD [OF fan_out_ident s(3)]
  have c: "sources (snd c) = sources (snd qs)" "files (snd c) = files (snd qs)" "ident (fst c) = ident (fst qs)" by simp_all
  from s(4) fan_out_clients [OF s(3) b(1)] obtain d e where
    h: "to_hls env tag c = Ok d" "to_file tag d = Ok e" "qs' = reset_record e"
    by (auto simp: andthen_eq_Ok)
  have d: "hls_to env (hlsWriter (fst c)) [tag] (sources (snd c)) (sources (snd d))" "files (snd d) = files (snd c)"
    using h(1)
    by (cases c; auto simp: to_hls_def hls_to_def andthen_eq_Ok CheckError_def Let_def split: option.splits if_splits)+
  have "file_to (flvFile (fst d)) [tag] (files (snd d)) (files (snd e))"
    by (rule to_file_files [OF h(2)])
  moreover have "sources (snd e) = sources (snd d)" using ensuresD [OF to_file_ident h(2)] by (simp add: held_def)
  moreover have "snd qs' = snd e" by (cases e) (simp add: h(3) reset_record_def)
  moreover have "ident (fst d) = ident (fst c)" using ensuresD [OF to_hls_ident h(1)] by simp
  ultimately show ?thesis using d c by (simp add: outputs_to_def ident_def)
qed

lemma extractFlv_outputs:
  assumes "extractFlv env cfg wl rp (q, s) = Ok (q', s')" "clients_of wl (q, s) rs"
    and "feed (flvRecord q) [rp] = Ok (r', ts)"
  shows "outputs_to env q ts s s'"
proof -
  from assms(1) obtain r d where r: "reassemble (flvRecord q) rp = Ok (r, d)"
    and rest: "(case d of None \<Rightarrow> Ok (q\<lparr>flvRecord := r\<rparr>, s)
      | Some tag \<Rightarrow> deliver env cfg wl tag (q\<lparr>flvRecord := r\<rparr>, s)) = Ok (q', s')"
    by (auto simp: extractFlv_def andthen_eq_Ok Let_def)
  have c: "clients_of wl (q\<lparr>flvRecord := r\<rparr>, s) rs" using assms(2) clients_of_held [of "(q\<lparr>flvRecord := r\<rparr>, s)" "(q, s)" wl rs] by simp
  show ?thesis
  proof (cases d)
    case None
    with r rest assms(3) show ?thesis by auto
  next
    case (Some tag)
    with r assms(3) have "ts = [tag]" by auto
    with rest Some deliver_outputs [OF _ c] outputs_to_ident [of "q\<lparr>flvRecord := r\<rparr>" q env] show ?thesis by force
  qed
qed

lemma stream_run_outputs:
  assumes "stream_run env cfg al wl qs es qs'" "clients_of wl qs rs"
  shows "\<exists>ts. outputs_to env (fst qs) ts (snd qs) (snd qs')
    \<and> accFlvTags (fst qs') = accFlvTags (fst qs) + int (length ts)
    \<and> (\<not> PROTECT cfg \<longrightarrow> feed (flvRecord (fst qs)) (map snd (emitted es)) = Ok (flvRecord (fst qs'), ts))"
  using assms
proof (induction arbitrary: rs rule: stream_run.induct)
  case (finish qs)
  then show ?case by (intro exI [of _ "[]"]) simp
next
  case (arrive q p s es qs')
  have h: "held (Enqueue al q p, s) = held (q, s)" "ident (Enqueue al q p) = ident q"
    by simp_all
  have k: "flvRecord (Enqueue al q p) = flvRecord q" "accFlvTags (Enqueue al q p) = accFlvTags q"
    by (simp_all add: Enqueue_delivery)
  from arrive.IH [of rs] arrive.prems clients_of_held [OF h(1)] k outputs_to_ident [OF h(2), of env] show ?case by auto
next
  case (emit q s rp q1 s1 qs2 es qs')
  have h: "held (q1, s1) = held (q, s)" "ident q1 = ident q" "accFlvTags q1 = accFlvTags q" "files s1 = files s"
    using ensuresD [OF Dequeue_ident emit.hyps(2)] by simp_all
  obtain q2 s2 where qs2: "qs2 = (q2, s2)" by (cases qs2)
  have cl: "clients_of wl (q1, s1) rs" using emit.prems clients_of_held [OF h(1)] by simp
  have ext: "extractFlv env cfg wl rp (q1, s1) = Ok (q2, s2)" using emit.hyps(3) qs2 by simp
  from extractFlv_clients [OF ext cl] obtain ts where
    ts: "feed (flvRecord q1) [rp] = Ok (flvRecord q2, ts)" "fans_out wl rs (q1, s1) ts (q2, s2)"
    by blast
  have w: "ident q2 = ident q" "sources s1 = sources s"
    using ensuresD [OF extractFlv_ident ext] h by (simp_all add: held_def)
  from ts(2) have "clients_of wl qs2 (filter (\<lambda>r. ts = [] \<or> \<not> Closed (writers s1 r)) rs)" by (simp add: fans_out_def qs2)
  from emit.IH [OF this] obtain us where us: "outputs_to env q2 us s2 (snd qs')"
    "accFlvTags (fst qs') = accFlvTags q2 + int (length us)"
    "\<not> PROTECT cfg \<longrightarrow> feed (flvRecord q2) (map snd (emitted es)) = Ok (flvRecord (fst qs'), us)"
    by (auto simp: qs2)
  have "outputs_to env q ts s s2"
    using extractFlv_outputs [OF ext cl ts(1)] h(2,4) w(2) by (simp add: outputs_to_def ident_def)
  then have "outputs_to env q (ts @ us) s (snd qs')"
    using outputs_to_append us(1) outputs_to_ident [OF w(1), of env] by metis
  moreover have "feed (flvRecord q) (rp # map snd (emitted es)) = Ok (flvRecord (fst qs'), ts @ us)" if "\<not> PROTECT cfg"
    using feed_append [of "flvRecord q1" "[rp]"] ts(1) us(3) Dequeue_tags [OF emit.hyps(2) that] that by simp
  moreover have "accFlvTags q2 = accFlvTags q + int (length ts)"
    using extractFlv_feed [OF ext] ts(1) h(3) by auto
  ultimately show ?case using us(2) by (intro exI [of _ "ts @ us"]) simp
qed

end

end
