(* ===== verification/Node_Recordings.thy ===== *)
theory Node_Recordings
  imports Node_Clients Hls_Delivery
begin

text \<open>
  The recordings of the node. A recording whose name no other stream's recording has contains the header
  and the tags that its stream has completed, in order, each with its size. Streams with the same name
  share a file, which the later one truncates; then nothing is promised.
\<close>

subsection \<open>The invariant\<close>

text \<open>The name of a stream's recording: what follows the first slash of its key.\<close>

definition record_name :: "string \<Rightarrow> string" where
  "record_name key = SplitN key CHR ''/'' 2 ! 1"

abbreviation file_at :: "('l, 'm, 'f, 'w, 'x) App \<Rightarrow> nat \<Rightarrow> File" where
  "file_at app s \<equiv> files (app_shared app) s"

definition records_tags :: "('l, 'm) Queue \<Rightarrow> File \<Rightarrow> bool" where
  "records_tags q f \<longleftrightarrow> (\<exists>ts. fs_data (fd f) = HEADER_BYTES @ concat (map rec_frame ts) \<and> accFlvTags q = int (length ts))"

definition alone :: "('l, 'm, 'f, 'w, 'x) App \<Rightarrow> nat \<Rightarrow> bool" where
  "alone app i \<longleftrightarrow> (\<forall>j < next_queue app. j \<noteq> i
     \<longrightarrow> record_name (ChannelKey (app_queues app j)) \<noteq> record_name (ChannelKey (app_queues app i)))"

definition files_inv :: "('l, 'm, 'f, 'w, 'x) App \<Rightarrow> bool" where
  "files_inv app \<longleftrightarrow> (\<forall>i < next_queue app. \<forall>s. flvFile (app_queues app i) = Some s
     \<longrightarrow> s < next_file app \<and> fname (file_at app s) = record_path (app_conf app) (record_name (ChannelKey (app_queues app i)))
       \<and> (\<forall>j < next_queue app. j \<noteq> i \<longrightarrow> flvFile (app_queues app j) \<noteq> Some s)
       \<and> (alone app i \<longrightarrow> at_end (file_at app s) \<and> records_tags (app_queues app i) (file_at app s)))"

lemma record_path_inj [simp]: "record_path cfg a = record_path cfg b \<longleftrightarrow> a = b"
  by (simp add: record_path_def)

text \<open>The changes of the configuration at run time do not touch the directory.\<close>

lemma record_path_conf [simp]:
  "record_path (StartHTTPFlv stat cfg) = record_path cfg" "record_path (fst (first_datagram d cfg)) = record_path cfg"
  by (simp_all add: fun_eq_iff record_path_def StartHTTPFlv_def first_datagram_eq)

text \<open>What the recording of stream \<open>i\<close> is given between two states, if it has its name for itself.\<close>

definition file_gets :: "nat \<Rightarrow> ('l, 'm, 'f, 'w, 'x) App \<Rightarrow> slice list \<Rightarrow> ('l, 'm, 'f, 'w, 'x) App \<Rightarrow> bool" where
  "file_gets i app ts app' \<longleftrightarrow> next_queue app \<le> next_queue app'
     \<and> (\<forall>j < next_queue app. ChannelKey (app_queues app' j) = ChannelKey (app_queues app j))
     \<and> flvFile (app_queues app' i) = flvFile (app_queues app i)
     \<and> (\<forall>s. flvFile (app_queues app i) = Some s \<longrightarrow> alone app' i
          \<longrightarrow> fs_data (fd (file_at app' s)) = fs_data (fd (file_at app s)) @ concat (map (rec_frame \<circ> bytes) ts))"

lemma file_gets_refl [simp]: "file_gets i app [] app"
  by (simp add: file_gets_def)

lemma alone_before:
  assumes "alone app' i" "i < next_queue app" "next_queue app \<le> next_queue app'"
    and "\<forall>j < next_queue app. ChannelKey (app_queues app' j) = ChannelKey (app_queues app j)"
  shows "alone app i"
  using assms unfolding alone_def by (metis order_less_le_trans)

lemma file_gets_trans:
  assumes "file_gets i app ts app1" "file_gets i app1 us app'" "i < next_queue app"
  shows "file_gets i app (ts @ us) app'"
proof -
  have "alone app1 i" if "alone app' i"
    using alone_before [OF that, of app1] assms by (auto simp: file_gets_def)
  with assms show ?thesis by (auto simp: file_gets_def)
qed

lemma file_to_data:
  assumes "file_to (Some s) ts fs fs'" "at_end (fs s)"
  shows "at_end (fs' s) \<and> fs_data (fd (fs' s)) = fs_data (fd (fs s)) @ concat (map (rec_frame \<circ> bytes) ts)"
  using assms WriteTags_at_end by (auto simp: file_to_def)

subsection \<open>A round of a queue's goroutine\<close>

context edge_node
begin

lemma queue_round_files:
  assumes inv: "clients_inv nd app" "files_inv app" and r: "r < next_queue app"
    and run: "stream_run (nd_env nd) (app_conf app) (nd_al nd) (nd_wl nd) ((app_queues app r)\<lparr>InChan := c\<rparr>, shared_view app) es (q, sh)"
    and app': "app' = store_shared sh (app\<lparr>app_queues := (app_queues app)(r := q)\<rparr>)"
  shows "\<exists>ts. (\<not> PROTECT (app_conf app) \<longrightarrow> feed (flvRecord (app_queues app r)) (map snd (emitted es)) = Ok (flvRecord q, ts))
    \<and> files_inv app' \<and> file_gets r app ts app' \<and> (\<forall>i < next_queue app. i \<noteq> r \<longrightarrow> file_gets i app [] app')"
proof -
  let ?h = "flvFile (app_queues app r)"
  have "clients_of (nd_wl nd) ((app_queues app r)\<lparr>InChan := c\<rparr>, shared_view app) (queue_clients nd app r)"
    using inv(1) r by (simp add: clients_inv_def)
  from wl.stream_run_outputs [OF run this] obtain ts where
    ts: "file_to ?h ts (files (shared_view app)) (files sh)" "accFlvTags q = accFlvTags (app_queues app r) + int (length ts)"
      "\<not> PROTECT (app_conf app) \<longrightarrow> feed (flvRecord (app_queues app r)) (map snd (emitted es)) = Ok (flvRecord q, ts)"
    by (auto simp: outputs_to_def)
  have q: "flvFile q = ?h" using stream_run_ident [OF run] by (simp add: ident_def)
  have a: "next_queue app' = next_queue app" "next_file app' = next_file app" "files (app_shared app') = files sh"
      "app_queues app' = (app_queues app)(r := q)" "files (shared_view app) = files (app_shared app)"
    by (simp_all add: app' store_shared_def shared_view_def)
  have key: "ChannelKey (app_queues app' j) = ChannelKey (app_queues app j)" "app_conf app' = app_conf app" for j
    using stream_run_ident [OF run] by (simp_all add: a(4) ident_def) (simp add: app')
  have qkey: "ChannelKey q = ChannelKey (app_queues app r)" using key(1) [of r] by (simp add: a(4))
  have alone: "alone app' i = alone app i" for i by (simp add: alone_def a(1) key)
  have path: "fname (file_at app s) = record_path (app_conf app) (record_name (ChannelKey (app_queues app i)))"
    if "i < next_queue app" "flvFile (app_queues app i) = Some s" for i s
    using inv(2) that by (simp add: files_inv_def)
  have name: "fname (file_at app' s) = fname (file_at app s)" for s using ts(1) by (simp add: a file_to_def)
  have mine: "at_end (file_at app' s) \<and> fs_data (fd (file_at app' s)) = fs_data (fd (file_at app s)) @ concat (map (rec_frame \<circ> bytes) ts)
      \<and> records_tags q (file_at app' s)" if s: "?h = Some s" "alone app r" for s
  proof -
    have old: "at_end (file_at app s)" "records_tags (app_queues app r) (file_at app s)"
      using inv(2) r s by (simp_all add: files_inv_def)
    have f: "at_end (file_at app' s) \<and> fs_data (fd (file_at app' s)) = fs_data (fd (file_at app s)) @ concat (map (rec_frame \<circ> bytes) ts)"
      using file_to_data [of s ts "files (app_shared app)" "files sh"] ts(1) old(1) s by (simp add: a)
    moreover obtain us where "fs_data (fd (file_at app s)) = HEADER_BYTES @ concat (map rec_frame us)"
        "accFlvTags (app_queues app r) = int (length us)"
      using old(2) by (auto simp: records_tags_def)
    ultimately have "records_tags q (file_at app' s)"
      using ts(2) unfolding records_tags_def by (intro exI [of _ "us @ map bytes ts"]) (simp add: comp_def)
    with f show ?thesis by blast
  qed
  have others: "file_at app' s = file_at app s"
    if "i < next_queue app" "i \<noteq> r" "flvFile (app_queues app i) = Some s" "alone app i" for i s
  proof (cases ?h)
    case None
    with ts(1) show ?thesis by (simp add: a file_to_def)
  next
    case (Some x)
    have "record_name (ChannelKey (app_queues app r)) \<noteq> record_name (ChannelKey (app_queues app i))"
      using that(2,4) r by (simp add: alone_def)
    then have "fname (file_at app s) \<noteq> fname (file_at app x)" using path [OF that(1,3)] path [OF r Some] by simp
    with ts(1) Some show ?thesis by (simp add: a file_to_def)
  qed
  have "files_inv app'"
    unfolding files_inv_def a(1,2) alone key
  proof (intro allI impI)
    fix i s
    assume i: "i < next_queue app" "flvFile (app_queues app' i) = Some s"
    then have old: "flvFile (app_queues app i) = Some s" by (simp add: a(4) q split: if_splits)
    have "alone app i \<longrightarrow> at_end (file_at app' s) \<and> records_tags (app_queues app' i) (file_at app' s)"
    proof (cases "i = r")
      case True
      with mine old show ?thesis by (simp add: a(4))
    next
      case False
      with others [OF i(1) False old] i(1) old inv(2) show ?thesis by (simp add: a(4) files_inv_def)
    qed
    moreover have "s < next_file app \<and> (\<forall>j < next_queue app. j \<noteq> i \<longrightarrow> flvFile (app_queues app' j) \<noteq> Some s)"
      using inv(2) i(1) old by (simp add: files_inv_def a(4) q)
    ultimately show "s < next_file app
        \<and> fname (file_at app' s) = record_path (app_conf app) (record_name (ChannelKey (app_queues app i)))
        \<and> (\<forall>j < next_queue app. j \<noteq> i \<longrightarrow> flvFile (app_queues app' j) \<noteq> Some s)
        \<and> (alone app i \<longrightarrow> at_end (file_at app' s) \<and> records_tags (app_queues app' i) (file_at app' s))"
      using path [OF i(1) old] name by simp
  qed
  moreover have "file_gets r app ts app'" using mine by (simp add: file_gets_def a(1,4) q alone qkey)
  moreover have "file_gets i app [] app'" if "i < next_queue app" "i \<noteq> r" for i
    using others that by (auto simp: file_gets_def a(1,4) alone qkey)
  ultimately show ?thesis using ts(3) by blast
qed

lemma queue_step_files:
  assumes "queue_goroutine nd r app = Some (Ok app')" "r < next_queue app" "clients_inv nd app" "files_inv app"
  shows "files_inv app'"
  using assms(1-3)
proof (cases rule: queue_round)
  case idle
  with assms(4) show ?thesis by simp
next
  case (packet p c es q sh ts)
  from queue_round_files [OF assms(3,4,2) packet(2,4)] show ?thesis by blast
qed

end

subsection \<open>The other steps\<close>

text \<open>What a step that writes to no recording leaves as it is.\<close>

definition files_same :: "('l, 'm, 'f, 'w, 'x) App \<Rightarrow> ('l, 'm, 'f, 'w, 'x) App \<Rightarrow> bool" where
  "files_same app app' \<longleftrightarrow> next_queue app' = next_queue app \<and> next_file app' = next_file app
     \<and> record_path (app_conf app') = record_path (app_conf app)
     \<and> (\<forall>s. contents (file_at app' s) = contents (file_at app s))
     \<and> (\<forall>j. flvFile (app_queues app' j) = flvFile (app_queues app j) \<and> accFlvTags (app_queues app' j) = accFlvTags (app_queues app j)
          \<and> ChannelKey (app_queues app' j) = ChannelKey (app_queues app j))"

lemma files_same_step:
  assumes "files_same app app'"
  shows "(files_inv app \<longrightarrow> files_inv app') \<and> file_gets i app [] app'"
proof -
  have "at_end (file_at app' s) = at_end (file_at app s)" "fs_data (fd (file_at app' s)) = fs_data (fd (file_at app s))"
      "fname (file_at app' s) = fname (file_at app s)" for s
    using assms at_end_contents unfolding files_same_def by blast+
  then show ?thesis using assms by (simp add: files_same_def files_inv_def file_gets_def records_tags_def alone_def)
qed

text \<open>
  A new stream may get a new file, which contains the header; files with other names do not change. The
  file of a name that is in use is truncated.
\<close>

lemma open_record_files:
  assumes "open_record nd ch app = (app', rf)"
  shows "(\<forall>s < next_file app. fname (file_at app' s) = fname (file_at app s)
        \<and> (fname (file_at app s) \<noteq> record_path (app_conf app) ch \<longrightarrow> file_at app' s = file_at app s))
    \<and> (rf = None \<and> next_file app' = next_file app
     \<or> rf = Some (next_file app) \<and> next_file app' = next_file app + 1
       \<and> at_end (file_at app' (next_file app)) \<and> fs_data (fd (file_at app' (next_file app))) = HEADER_BYTES
       \<and> fname (file_at app' (next_file app)) = record_path (app_conf app) ch)"
proof (cases "ENABLE_RECORD (app_conf app)")
  case True
  let ?r = "next_file app" and ?path = "record_path (app_conf app) ch"
  obtain err fail where c: "nd_create nd ch (world (app_shared app)) = (err, fail)" by force
  define fs where "fs = (if err = None then on_path ?path [] (files (app_shared app)) else files (app_shared app))"
  have fs: "fname (fs s) = fname (file_at app s)" "fname (file_at app s) \<noteq> ?path \<Longrightarrow> fs s = file_at app s" for s
    by (simp_all add: fs_def)
  show ?thesis
  proof (cases "CreateFlvFile (app_conf app) ch err fail")
    case None
    then have "rf = None" "next_file app' = ?r" "files (app_shared app') = fs"
      using assms True by (auto simp: open_record_def c Let_def fs_def)
    then show ?thesis using fs by simp
  next
    case (Some f)
    have a: "rf = Some ?r" "next_file app' = ?r + 1" "files (app_shared app') = put_file ?r f fs"
      using assms True Some by (auto simp: open_record_def c Let_def fs_def)
    have f: "at_end f" "fs_data (fd f) = HEADER_BYTES" "fname f = ?path"
      using Some CreateFile_at_end by (auto simp: CreateFlvFile_def split: sum.splits)
    have "fname (put_file ?r f fs s) = fname (file_at app s)
        \<and> (fname (file_at app s) \<noteq> ?path \<longrightarrow> put_file ?r f fs s = file_at app s)" if "s < ?r" for s
      using that fs(1) [of s] fs(2) [of s] put_file_facts(2) [of s ?r f fs] put_file_facts(3) [of s ?r fs f] by (simp add: f(3))
    moreover have "put_file ?r f fs ?r = f" by simp
    ultimately show ?thesis using f by (simp add: a del: put_file_facts)
  qed
qed (use assms in \<open>simp add: open_record_def\<close>)

text \<open>A recording of the same name that is already open is truncated: it holds the new header only.\<close>

lemma open_record_truncates:
  assumes "open_record nd ch app = (app', Some r)" "i \<noteq> r" "fname (file_at app i) = record_path (app_conf app) ch"
  shows "fs_data (fd (file_at app' i)) = HEADER_BYTES"
proof -
  let ?path = "record_path (app_conf app) ch"
  have rec: "ENABLE_RECORD (app_conf app)" using assms(1) by (auto simp: open_record_def split: if_splits)
  obtain err fail where c: "nd_create nd ch (world (app_shared app)) = (err, fail)" by force
  define fs where "fs = (if err = None then on_path ?path [] (files (app_shared app)) else files (app_shared app))"
  obtain f where f: "CreateFlvFile (app_conf app) ch err fail = Some f" "files (app_shared app') = put_file r f fs"
    using assms(1) rec c by (auto simp: open_record_def Let_def fs_def [symmetric] split: option.splits)
  then have "CreateFile ?path err fail = Inr f" by (auto simp: CreateFlvFile_def split: sum.splits)
  from CreateFile_at_end [OF this] have "fname f = ?path" "fs_data (fd f) = HEADER_BYTES" by simp_all
  moreover have "fname (fs i) = ?path" using assms(3) by (simp add: fs_def)
  ultimately show ?thesis using assms(2) by (simp add: f(2) put_file_def on_path_def)
qed

lemma new_stream_files:
  assumes "handleNewStream nd ssrc app = Ok (app', r)" "files_inv app"
  shows "files_inv app' \<and> (\<forall>i < next_queue app. file_gets i app [] app')"
proof (rule new_stream_steps [OF assms(1)], goal_cases)
  case (1 res n pubs pub app2 app3 rf app4 src q)
  note n = 1
  let ?nq = "next_queue app"
  have two: "files (app_shared app2) = files (app_shared app)" "next_file app2 = next_file app"
      "next_queue app2 = ?nq" "app_queues app2 = app_queues app" "app_conf app2 = app_conf app"
    by (simp_all add: n(3))
  have three: "next_queue app3 = ?nq" "app_queues app3 = app_queues app" "app_conf app3 = app_conf app"
    using open_record_frame [OF n(4)] two by simp_all
  obtain h where h: "app4 = app3\<lparr>app_hls := h\<rparr>" using hls_writer_frame [OF n(5)] by blast
  have a: "next_queue app' = ?nq + 1" "next_file app' = next_file app3" "files (app_shared app') = files (app_shared app3)"
      "app_queues app' = (app_queues app)(?nq := q)" "app_conf app' = app_conf app"
    using n(7,8) by (simp_all add: h three)
  have q: "flvFile q = rf" "accFlvTags q = 0" "ChannelKey q = Key pub"
    using n(6) by (auto simp: NewQueue_def Let_def andthen_eq_Ok)
  note o = open_record_files [OF n(4), folded record_name_def, unfolded two]
  have old: "s < next_file app" "fname (file_at app s) = record_path (app_conf app) (record_name (ChannelKey (app_queues app i)))"
      "\<forall>j < ?nq. j \<noteq> i \<longrightarrow> flvFile (app_queues app j) \<noteq> Some s"
      "alone app i \<Longrightarrow> at_end (file_at app s) \<and> records_tags (app_queues app i) (file_at app s)"
    if "i < ?nq" "flvFile (app_queues app i) = Some s" for i s
    using assms(2) that by (simp_all add: files_inv_def)
  have key: "ChannelKey (app_queues app' j) = ChannelKey (app_queues app j)" if "j < ?nq" for j using that by (simp add: a(4))
  have keep: "alone app i \<and> file_at app' s = file_at app s"
    if i: "i < ?nq" "flvFile (app_queues app i) = Some s" "alone app' i" for i s
  proof
    show "alone app i" using alone_before [OF i(3,1)] key by (simp add: a(1))
    have "record_name (ChannelKey (app_queues app' ?nq)) \<noteq> record_name (ChannelKey (app_queues app' i))"
      using i(1,3) a(1) unfolding alone_def by auto
    then have "record_name (Key pub) \<noteq> record_name (ChannelKey (app_queues app i))" using key [OF i(1)] by (simp add: a(4) q(3))
    then show "file_at app' s = file_at app s" using o old(1,2) [OF i(1,2)] by (simp add: a(3))
  qed
  have "files_inv app'"
    unfolding files_inv_def
  proof (intro allI impI)
    fix i s
    assume i: "i < next_queue app'" "flvFile (app_queues app' i) = Some s"
    show "s < next_file app' \<and> fname (file_at app' s) = record_path (app_conf app') (record_name (ChannelKey (app_queues app' i)))
       \<and> (\<forall>j < next_queue app'. j \<noteq> i \<longrightarrow> flvFile (app_queues app' j) \<noteq> Some s)
       \<and> (alone app' i \<longrightarrow> at_end (file_at app' s) \<and> records_tags (app_queues app' i) (file_at app' s))"
    proof (cases "i = ?nq")
      case True
      with i(2) q(1) have "rf = Some s" by (simp add: a(4))
      then have s: "s = next_file app" "next_file app' = next_file app + 1" "at_end (file_at app' s)"
          "fs_data (fd (file_at app' s)) = HEADER_BYTES" "fname (file_at app' s) = record_path (app_conf app) (record_name (Key pub))"
        using o by (auto simp: a(2,3))
      have "records_tags q (file_at app' s)" using s(4) q(2) by (auto simp: records_tags_def intro: exI [of _ "[]"])
      moreover have "flvFile (app_queues app j) \<noteq> Some s" if "j < ?nq" for j using old(1) [OF that] s(1) by auto
      ultimately show ?thesis using s True q(3) by (simp add: a(1,4,5))
    next
      case False
      with i have i': "i < ?nq" "flvFile (app_queues app i) = Some s" by (simp_all add: a(1,4))
      have "rf \<noteq> Some s" "s < next_file app'" using o old(1) [OF i'] by (auto simp: a(2))
      moreover have "fname (file_at app' s) = fname (file_at app s)" using o old(1) [OF i'] by (simp add: a(3))
      ultimately show ?thesis
        using old [OF i'] keep [OF i'] False key [OF i'(1)] q(1) by (auto simp: a(1,4,5) less_Suc_eq)
    qed
  qed
  moreover have "file_gets i app [] app'" if "i < ?nq" for i
    using keep that key by (auto simp: file_gets_def a(1,4))
  ultimately show ?case by blast
qed

lemma packet_files:
  assumes "handleNewPacket nd rp app = Ok app'" "files_inv app"
  shows "files_inv app' \<and> (\<forall>i < next_queue app. file_gets i app [] app')"
proof (rule handleNewPacket_Ok [OF assms(1)], goal_cases)
  case (1 app1 r c)
  then have a: "files_inv app1 \<and> (\<forall>i < next_queue app. file_gets i app [] app1)"
    using new_stream_files [OF _ assms(2)] assms(2) by auto
  have "files_same app1 app'" by (simp add: files_same_def 1(3))
  from files_same_step [OF this] a file_gets_trans [of _ app "[]" app1 "[]" app'] show ?case by auto
qed

context edge_node
begin

lemma quiet_step_files:
  assumes "node_step nd (app, first) e (app', first')" "\<And>r. e \<noteq> Handled r" "files_inv app"
  shows "files_inv app' \<and> (\<forall>i < next_queue app. file_gets i app [] app')"
  using assms(1)
proof (cases rule: node_step.cases)
  case (step_receive d)
  obtain cfg where dir: "record_path cfg = record_path (app_conf app)" and cfg: "app' = app\<lparr>app_conf := cfg\<rparr>
      \<or> (\<exists>rp. accepted cfg d = [rp] \<and> handleNewPacket nd rp (app\<lparr>app_conf := cfg\<rparr>) = Ok app')"
    using receiveRtp_round_Ok [OF step_receive(2)] by (metis record_path_conf(2))
  have same: "files_same app (app\<lparr>app_conf := cfg\<rparr>)" by (simp add: files_same_def dir)
  have inv: "files_inv (app\<lparr>app_conf := cfg\<rparr>)" using files_same_step [OF same] assms(3) by blast
  have same_conf: "file_gets i (app\<lparr>app_conf := cfg\<rparr>) [] app' = file_gets i app [] app'" for i by (simp add: file_gets_def)
  from cfg show ?thesis
  proof
    assume "app' = app\<lparr>app_conf := cfg\<rparr>"
    with files_same_step [OF same] assms(3) show ?thesis by blast
  next
    assume "\<exists>rp. accepted cfg d = [rp] \<and> handleNewPacket nd rp (app\<lparr>app_conf := cfg\<rparr>) = Ok app'"
    then obtain rp where "handleNewPacket nd rp (app\<lparr>app_conf := cfg\<rparr>) = Ok app'" by blast
    from packet_files [OF this inv] show ?thesis by (simp add: same_conf)
  qed
next
  case (step_answer uid c addr u resp)
  then have "files_same app app'" using handleConn_Answer by (metis files_same_def)
  then show ?thesis using files_same_step assms(3) by blast
next
  case (step_client uid c addr u x)
  obtain w path r where "app' = (set_writer x w app)\<lparr>next_writer := x + 1, app_queues := (app_queues app)
         (r := (app_queues app r)\<lparr>FlvWriters := al_Add (nd_wl nd) (FlvWriters (app_queues app r)) (Some x)\<rparr>)\<rparr>"
    using handleConn_Streaming [OF step_client(3)] by metis
  then have "files_same app app'" by (simp add: files_same_def set_writer_def)
  then show ?thesis using files_same_step assms(3) by blast
next
  case (step_alive order)
  have "flvFile (app_queues app' j) = flvFile (app_queues app j) \<and> accFlvTags (app_queues app' j) = accFlvTags (app_queues app j)
      \<and> ChannelKey (app_queues app' j) = ChannelKey (app_queues app j)" for j
  proof -
    obtain n where "app_queues app' j = (app_queues app j)\<lparr>Ssrc := n\<rparr>" using CheckAlive_frame [OF step_alive(5)] by auto
    then show ?thesis by simp
  qed
  then have "files_same app app'" using CheckAlive_frame [OF step_alive(5)] by (simp add: files_same_def)
  then show ?thesis using files_same_step assms(3) by blast
qed (use assms(2) files_same_step [of app app'] assms(3) in \<open>auto simp: files_same_def set_source_def set_writer_def\<close>)

end

end
