(* ===== verification/Hls_Node.thy ===== *)
theory Hls_Node
  imports Node_Recordings Http_Mux
begin

text \<open>
  The HLS sources of the node: each stream writes to the source of its own key, each source has a
  regular life (\<open>source_run\<close>), and what a source is given are the tags of its stream.
\<close>

subsection \<open>The invariant\<close>

abbreviation source_at :: "('l, 'm, 'f, 'w, 'x) App \<Rightarrow> nat \<Rightarrow> 'x HlsSource" where
  "source_at app s \<equiv> hw_heap (app_hls app) s"

abbreviation waiting_at :: "('l, 'm, 'f, 'w, 'x) App \<Rightarrow> nat \<Rightarrow> av_Packet list" where
  "waiting_at app s \<equiv> ch_buf (src_packetQueue (source_at app s))"

definition hls_inv :: "('l, 'm, 'f, 'w, 'x) Node \<Rightarrow> ('l, 'm, 'f, 'w, 'x) App \<Rightarrow> bool" where
  "hls_inv nd app \<longleftrightarrow> table_ok (app_hls app) \<and> (\<forall>s < hw_next (app_hls app). recorded (nd_lg nd) (source_at app s))
     \<and> (\<forall>i < next_queue app. \<forall>s. hlsWriter (app_queues app i) = Some s
          \<longrightarrow> s < hw_next (app_hls app) \<and> src_Key (source_at app s) = ChannelKey (app_queues app i))"

lemma GetWriter_effect:
  assumes "GetWriter lg err now key w = Ok (w', r)" "table_ok w"
  shows "table_ok w' \<and> r < hw_next w' \<and> src_Key (hw_heap w' r) = key \<and> hw_next w \<le> hw_next w'
    \<and> (\<forall>s < hw_next w. hw_heap w' s = hw_heap w s)
    \<and> (\<forall>s. hw_next w \<le> s \<and> s < hw_next w' \<longrightarrow> recorded lg (hw_heap w' s))"
proof -
  have t: "table_ok w'" "\<exists>conns. hw_server w' = Some conns \<and> conns key = Some r"
    using GetWriter_ok [OF assms] by simp_all
  moreover have "r < hw_next w'" "src_Key (hw_heap w' r) = key" using t unfolding table_ok_def by blast+
  moreover have "hw_next w \<le> hw_next w' \<and> (\<forall>s < hw_next w. hw_heap w' s = hw_heap w s)
    \<and> (\<forall>s. hw_next w \<le> s \<and> s < hw_next w' \<longrightarrow> recorded lg (hw_heap w' s))"
  proof -
    obtain conns where c: "(if hw_server w = None then StartHls err w else Ok w) = Ok (w\<lparr>hw_server := Some conns\<rparr>)"
      using assms(1) by (cases w; cases "hw_server w"; cases err) (auto simp: GetWriter_def StartHls_def CheckError_def hls_NewServer_def intro: that)
    then show ?thesis
      using assms(1) by (cases "conns key") (auto simp: GetWriter_def Let_def less_Suc_eq)
  qed
  ultimately show ?thesis by blast
qed

subsection \<open>What a stream's source is given\<close>

text \<open>
  Between two states the goroutine of stream \<open>i\<close> has put the tags \<open>ts\<close> into the channel of its source;
  if no other stream writes to it, the channel holds what was in it and these, less what the source
  has taken out at the front. A closed source stays closed and gets nothing.
\<close>

definition hls_gets :: "('l, 'm, 'f, 'w, 'x) Node \<Rightarrow> nat \<Rightarrow> ('l, 'm, 'f, 'w, 'x) App \<Rightarrow> slice list \<Rightarrow> ('l, 'm, 'f, 'w, 'x) App \<Rightarrow> bool" where
  "hls_gets nd i app ts app' \<longleftrightarrow> next_queue app \<le> next_queue app' \<and> hw_next (app_hls app) \<le> hw_next (app_hls app')
     \<and> (\<forall>j < next_queue app. hlsWriter (app_queues app' j) = hlsWriter (app_queues app j))
     \<and> (\<forall>s < hw_next (app_hls app). src_closed (source_at app s) \<longrightarrow> src_closed (source_at app' s))
     \<and> (\<forall>s. hlsWriter (app_queues app i) = Some s \<longrightarrow> (src_closed (source_at app s) \<longrightarrow> ts = [])
          \<and> ((\<forall>j < next_queue app'. j \<noteq> i \<longrightarrow> hlsWriter (app_queues app' j) \<noteq> Some s)
             \<longrightarrow> (\<exists>k ps. list_all2 (\<lambda>t p. av_Parse (nd_env nd) t True = Ok p) ts ps
                   \<and> k \<le> length (waiting_at app s @ ps) \<and> waiting_at app' s = drop k (waiting_at app s @ ps))))"

lemma hls_gets_refl [simp]: "hls_gets nd i app [] app"
  by (auto simp: hls_gets_def intro: exI [of _ 0])

lemma drop_drop_append:
  assumes "k \<le> length xs" "k' \<le> length (drop k xs @ ys)"
  shows "drop k' (drop k xs @ ys) = drop (k + k') (xs @ ys)" "k + k' \<le> length (xs @ ys)"
proof -
  have "drop k xs @ ys = drop k (xs @ ys)" using assms(1) by simp
  then show "drop k' (drop k xs @ ys) = drop (k + k') (xs @ ys)" by (simp only: drop_drop add.commute append_assoc)
  show "k + k' \<le> length (xs @ ys)" using assms by simp
qed

lemma hls_gets_trans:
  assumes "hls_gets nd i app ts app1" "hls_gets nd i app1 us app'" "hls_inv nd app" "i < next_queue app"
  shows "hls_gets nd i app (ts @ us) app'"
proof -
  have mono: "next_queue app \<le> next_queue app1" "next_queue app1 \<le> next_queue app'"
      "hw_next (app_hls app) \<le> hw_next (app_hls app1)" "hw_next (app_hls app1) \<le> hw_next (app_hls app')"
      "\<And>j. j < next_queue app \<Longrightarrow> hlsWriter (app_queues app1 j) = hlsWriter (app_queues app j)"
      "\<And>j. j < next_queue app1 \<Longrightarrow> hlsWriter (app_queues app' j) = hlsWriter (app_queues app1 j)"
      "\<And>s. s < hw_next (app_hls app) \<Longrightarrow> src_closed (source_at app s) \<Longrightarrow> src_closed (source_at app1 s)"
      "\<And>s. s < hw_next (app_hls app1) \<Longrightarrow> src_closed (source_at app1 s) \<Longrightarrow> src_closed (source_at app' s)"
    using assms(1,2) by (simp_all add: hls_gets_def)
  have "(src_closed (source_at app s) \<longrightarrow> ts @ us = [])
      \<and> ((\<forall>j < next_queue app'. j \<noteq> i \<longrightarrow> hlsWriter (app_queues app' j) \<noteq> Some s)
         \<longrightarrow> (\<exists>k ps. list_all2 (\<lambda>t p. av_Parse (nd_env nd) t True = Ok p) (ts @ us) ps
               \<and> k \<le> length (waiting_at app s @ ps) \<and> waiting_at app' s = drop k (waiting_at app s @ ps)))"
    if s: "hlsWriter (app_queues app i) = Some s" for s
  proof (intro conjI impI)
    have s1: "hlsWriter (app_queues app1 i) = Some s" using mono(5) s assms(4) by simp
    have lt: "s < hw_next (app_hls app)" using assms(3,4) s by (simp add: hls_inv_def)
    assume "src_closed (source_at app s)"
    moreover from this have "src_closed (source_at app1 s)" using mono(7) lt by blast
    ultimately show "ts @ us = []" using assms(1,2) s s1 by (simp add: hls_gets_def)
  next
    have s1: "hlsWriter (app_queues app1 i) = Some s" using mono(5) s assms(4) by simp
    assume alone: "\<forall>j < next_queue app'. j \<noteq> i \<longrightarrow> hlsWriter (app_queues app' j) \<noteq> Some s"
    then have "\<forall>j < next_queue app1. j \<noteq> i \<longrightarrow> hlsWriter (app_queues app1 j) \<noteq> Some s"
      using mono(2,6) by (metis less_le_trans)
    then obtain k ps where k: "list_all2 (\<lambda>t p. av_Parse (nd_env nd) t True = Ok p) ts ps"
        "k \<le> length (waiting_at app s @ ps)" "waiting_at app1 s = drop k (waiting_at app s @ ps)"
      using assms(1) s by (auto simp: hls_gets_def)
    obtain l qs where l: "list_all2 (\<lambda>t p. av_Parse (nd_env nd) t True = Ok p) us qs"
        "l \<le> length (waiting_at app1 s @ qs)" "waiting_at app' s = drop l (waiting_at app1 s @ qs)"
      using assms(2) s1 alone by (auto simp: hls_gets_def)
    note d = drop_drop_append [OF k(2) l(2) [unfolded k(3)]]
    show "\<exists>k ps. list_all2 (\<lambda>t p. av_Parse (nd_env nd) t True = Ok p) (ts @ us) ps
        \<and> k \<le> length (waiting_at app s @ ps) \<and> waiting_at app' s = drop k (waiting_at app s @ ps)"
      using d l(3) list_all2_appendI [OF k(1) l(1)]
      by (intro exI [of _ "k + l"] exI [of _ "ps @ qs"]) (simp add: k(3) del: drop_append drop_drop)
  qed
  moreover have "hlsWriter (app_queues app' j) = hlsWriter (app_queues app j)" if "j < next_queue app" for j
    using mono(1,5,6) that by simp
  moreover have "src_closed (source_at app' s)" if "s < hw_next (app_hls app)" "src_closed (source_at app s)" for s
    using mono(3,7,8) that by simp
  ultimately show ?thesis using mono(1-4) unfolding hls_gets_def by simp
qed

subsection \<open>A round of a queue's goroutine\<close>

lemma store_sources:
  assumes "hls_to env h ts (sources (shared_view app)) (sources sh)" "app_hls app0 = app_hls app"
  shows "case h of None \<Rightarrow> hw_heap (app_hls (store_shared sh app0)) = hw_heap (app_hls app)
    | Some s \<Rightarrow> \<exists>src. hls_fed env ts (source_at app s) src \<and> hw_heap (app_hls (store_shared sh app0)) = (hw_heap (app_hls app))(s := src)"
proof (cases h)
  case None
  with assms show ?thesis by (simp add: hls_to_def store_shared_def shared_view_def)
next
  case (Some s)
  then obtain src where src: "hls_fed env ts (Source.truncate (source_at app s)) src"
      "sources sh = (\<lambda>r. Source.truncate (source_at app r))(s := src)"
    using assms(1) by (auto simp: hls_to_def shared_view_def)
  have "hw_heap (app_hls (store_shared sh app0))
      = (hw_heap (app_hls app))(s := Source.extend src (Source.more (source_at app s)))"
    by (auto simp: store_shared_def src(2) assms(2))
  with hls_fed_extend [OF src(1)] Some show ?thesis by auto
qed

lemma store_hls [simp]:
  "hw_next (app_hls (store_shared sh app)) = hw_next (app_hls app)"
  "hw_server (app_hls (store_shared sh app)) = hw_server (app_hls app)"
  by (simp_all add: store_shared_def)

context edge_node
begin

lemma queue_round_hls:
  assumes inv: "clients_inv nd app" and r: "r < next_queue app"
    and run: "stream_run (nd_env nd) (app_conf app) (nd_al nd) (nd_wl nd) ((app_queues app r)\<lparr>InChan := c\<rparr>, shared_view app) es (q, sh)"
    and app': "app' = store_shared sh (app\<lparr>app_queues := (app_queues app)(r := q)\<rparr>)"
  shows "\<exists>ts. (\<not> PROTECT (app_conf app) \<longrightarrow> feed (flvRecord (app_queues app r)) (map snd (emitted es)) = Ok (flvRecord q, ts))
    \<and> accFlvTags q = accFlvTags (app_queues app r) + int (length ts) \<and> (hls_inv nd app \<longrightarrow> hls_inv nd app') \<and> hls_gets nd r app ts app'
    \<and> (\<forall>i < next_queue app. i \<noteq> r \<longrightarrow> hls_gets nd i app [] app')"
proof -
  let ?h = "hlsWriter (app_queues app r)"
  have "clients_of (nd_wl nd) ((app_queues app r)\<lparr>InChan := c\<rparr>, shared_view app) (queue_clients nd app r)"
    using inv r by (simp add: clients_inv_def)
  from wl.stream_run_outputs [OF run this] obtain ts where
    ts: "hls_to (nd_env nd) ?h ts (sources (shared_view app)) (sources sh)"
      "(\<not> PROTECT (app_conf app) \<longrightarrow> feed (flvRecord (app_queues app r)) (map snd (emitted es)) = Ok (flvRecord q, ts))
        \<and> accFlvTags q = accFlvTags (app_queues app r) + int (length ts)"
    by (auto simp: outputs_to_def)
  have "ident q = ident ((app_queues app r)\<lparr>InChan := c\<rparr>)" using stream_run_ident [OF run] by simp
  then have q: "hlsWriter q = ?h" "ChannelKey q = ChannelKey (app_queues app r)" by (simp_all add: ident_def)
  have outs: "hlsWriter (app_queues app' i) = hlsWriter (app_queues app i)"
      "ChannelKey (app_queues app' i) = ChannelKey (app_queues app i)" for i
    by (simp_all add: app' q)
  have sizes: "next_queue app' = next_queue app" "hw_next (app_hls app') = hw_next (app_hls app)"
      "hw_server (app_hls app') = hw_server (app_hls app)"
    by (simp_all add: app')
  show ?thesis
  proof (cases ?h)
    case None
    then have heap: "hw_heap (app_hls app') = hw_heap (app_hls app)"
      using store_sources [OF ts(1), of "app\<lparr>app_queues := (app_queues app)(r := q)\<rparr>"] by (simp add: app')
    have "hls_inv nd app'" if "hls_inv nd app"
      using that unfolding hls_inv_def table_ok_def heap outs sizes by blast
    moreover have "hls_gets nd i app [] app'" for i
      by (auto simp: hls_gets_def heap outs sizes intro: exI [of _ 0])
    moreover have "hls_gets nd r app ts app'"
      using None by (auto simp: hls_gets_def heap outs sizes)
    ultimately show ?thesis using ts(2) by blast
  next
    case (Some s)
    obtain src where src: "hls_fed (nd_env nd) ts (source_at app s) src" "hw_heap (app_hls app') = (hw_heap (app_hls app))(s := src)"
      using store_sources [OF ts(1), of "app\<lparr>app_queues := (app_queues app)(r := q)\<rparr>"] Some by (auto simp: app')
    obtain ps where ps: "list_all2 (\<lambda>t p. av_Parse (nd_env nd) t True = Ok p) ts ps"
        "ch_buf (src_packetQueue src) = waiting_at app s @ ps" "ts \<noteq> [] \<longrightarrow> \<not> src_closed (source_at app s)"
        "src_closed src = src_closed (source_at app s)"
      using hls_fed_channel [OF src(1)] by blast
    have "hls_inv nd app'" if inv: "hls_inv nd app"
    proof -
      have "s < hw_next (app_hls app)" using inv r Some by (simp add: hls_inv_def)
      then have rec: "recorded (nd_lg nd) src \<and> src_Key src = src_Key (source_at app s)"
        using recorded_fed [OF src(1), of "nd_lg nd"] inv by (simp add: hls_inv_def)
      moreover have "table_ok (app_hls app')"
        using inv rec unfolding hls_inv_def table_ok_def by (auto simp: src(2) sizes)
      ultimately show ?thesis using inv by (auto simp: hls_inv_def outs sizes src(2))
    qed
    moreover have "hls_gets nd r app ts app'"
      using ps Some by (auto simp: hls_gets_def outs sizes src(2) intro: exI [of _ 0])
    moreover have "hls_gets nd i app [] app'" if "i \<noteq> r" for i
    proof -
      have "x \<noteq> s" if "\<forall>j < next_queue app. j \<noteq> i \<longrightarrow> hlsWriter (app_queues app j) \<noteq> Some x" for x
        using that \<open>i \<noteq> r\<close> r Some by auto
      then show ?thesis using ps(4) by (auto simp: hls_gets_def outs sizes src(2) intro: exI [of _ 0])
    qed
    ultimately show ?thesis using ts(2) by blast
  qed
qed

end

subsection \<open>The other steps\<close>

text \<open>What a step that does not concern HLS leaves as it is.\<close>

definition hls_same :: "('l, 'm, 'f, 'w, 'x) App \<Rightarrow> ('l, 'm, 'f, 'w, 'x) App \<Rightarrow> bool" where
  "hls_same app app' \<longleftrightarrow> next_queue app' = next_queue app \<and> hw_heap (app_hls app') = hw_heap (app_hls app)
     \<and> hw_next (app_hls app') = hw_next (app_hls app) \<and> (table_ok (app_hls app) \<longrightarrow> table_ok (app_hls app'))
     \<and> (\<forall>j. hlsWriter (app_queues app' j) = hlsWriter (app_queues app j)
          \<and> ChannelKey (app_queues app' j) = ChannelKey (app_queues app j))"

lemma hls_same_step:
  assumes "hls_same app app'"
  shows "(hls_inv nd app \<longrightarrow> hls_inv nd app') \<and> hls_gets nd i app [] app'"
  using assms by (auto simp: hls_same_def hls_inv_def hls_gets_def intro: exI [of _ 0])

lemma new_stream_hls:
  assumes "handleNewStream nd ssrc app = Ok (app', r)" "hls_inv nd app"
  shows "hls_inv nd app' \<and> (\<forall>i < next_queue app. hls_gets nd i app [] app')"
proof (rule handleNewStream_Ok [OF assms(1)], goal_cases)
  case (1 key q res n pub src rf)
  note n = 1
  have q: "hlsWriter q = (if ENABLE_HLS (app_conf app) then Some src else None)" "ChannelKey q = key"
    using n(13) by (auto simp: NewQueue_def Let_def andthen_eq_Ok)
  have inv: "table_ok (app_hls app)" "\<And>s. s < hw_next (app_hls app) \<Longrightarrow> recorded (nd_lg nd) (source_at app s)"
      "\<And>i s. i < next_queue app \<Longrightarrow> hlsWriter (app_queues app i) = Some s
        \<Longrightarrow> s < hw_next (app_hls app) \<and> src_Key (source_at app s) = ChannelKey (app_queues app i)"
    using assms(2) by (auto simp: hls_inv_def)
  have h: "table_ok (app_hls app') \<and> hw_next (app_hls app) \<le> hw_next (app_hls app')
      \<and> (\<forall>s < hw_next (app_hls app). source_at app' s = source_at app s)
      \<and> (\<forall>s < hw_next (app_hls app'). recorded (nd_lg nd) (source_at app' s))
      \<and> (ENABLE_HLS (app_conf app) \<longrightarrow> src < hw_next (app_hls app') \<and> src_Key (source_at app' src) = key)"
  proof (cases "ENABLE_HLS (app_conf app)")
    case True
    from GetWriter_effect [OF n(14) [OF True] inv(1)] inv(2) show ?thesis by (metis not_le_imp_less)
  next
    case False
    with n(15) inv(1,2) show ?thesis by simp
  qed
  then have hls: "table_ok (app_hls app')" "hw_next (app_hls app) \<le> hw_next (app_hls app')"
      "\<And>s. s < hw_next (app_hls app) \<Longrightarrow> source_at app' s = source_at app s"
      "\<And>s. s < hw_next (app_hls app') \<Longrightarrow> recorded (nd_lg nd) (source_at app' s)"
      "ENABLE_HLS (app_conf app) \<Longrightarrow> src < hw_next (app_hls app') \<and> src_Key (source_at app' src) = key"
    by simp_all
  have "hls_inv nd app'"
    unfolding hls_inv_def
  proof (intro conjI allI impI)
    fix i s
    assume i: "i < next_queue app'" "hlsWriter (app_queues app' i) = Some s"
    have "s < hw_next (app_hls app') \<and> src_Key (source_at app' s) = ChannelKey (app_queues app' i)"
    proof (cases "i = next_queue app")
      case True
      with i(2) q hls(5) n(1,5) show ?thesis by (auto split: if_splits)
    next
      case False
      with i n(5,6) have "i < next_queue app" "hlsWriter (app_queues app i) = Some s" using n(1) by auto
      from inv(3) [OF this] hls(2,3) False n(1,5) show ?thesis by auto
    qed
    then show "s < hw_next (app_hls app')" "src_Key (source_at app' s) = ChannelKey (app_queues app' i)" by simp_all
  qed (use hls in auto)
  moreover have "hls_gets nd i app [] app'" if "i < next_queue app" for i
    using hls(2,3) inv(3) [OF that] n(1,5,6) by (auto simp: hls_gets_def intro: exI [of _ 0])
  ultimately show ?case by blast
qed

lemma packet_hls:
  assumes "handleNewPacket nd rp app = Ok app'" "hls_inv nd app"
  shows "hls_inv nd app' \<and> (\<forall>i < next_queue app. hls_gets nd i app [] app')"
proof (rule handleNewPacket_Ok [OF assms(1)], goal_cases)
  case (1 app1 r c)
  then have a: "hls_inv nd app1 \<and> (\<forall>i < next_queue app. hls_gets nd i app [] app1)"
    using new_stream_hls [OF _ assms(2)] assms(2) by auto
  have "hls_same app1 app'" by (simp add: hls_same_def 1(3))
  from hls_same_step [OF this] a hls_gets_trans [of nd _ app "[]" app1 "[]" app'] assms(2) show ?case by auto
qed

lemma segmenter_hls:
  assumes "source_goroutine (nd_lg nd) now (source_at app r) = Ok src'" "r < hw_next (app_hls app)" "hls_inv nd app"
  shows "hls_inv nd (set_source r src' app) \<and> hls_gets nd i app [] (set_source r src' app)"
proof -
  have rec: "recorded (nd_lg nd) src' \<and> src_Key src' = src_Key (source_at app r)"
    using recorded_goroutine [OF _ assms(1)] assms(2,3) by (simp add: hls_inv_def)
  obtain k where k: "k \<le> length (waiting_at app r)" "ch_buf (src_packetQueue src') = drop k (waiting_at app r)"
    using goroutine_channel [OF assms(1)] by blast
  have cl: "src_closed (source_at app r) \<longrightarrow> src_closed src'" using goroutine_closed [OF assms(1)] by auto
  have "hls_inv nd (set_source r src' app)"
    using assms(3) rec unfolding hls_inv_def table_ok_def by (auto simp: set_source_def)
  moreover have "\<exists>k. k \<le> length (waiting_at app s) \<and> waiting_at (set_source r src' app) s = drop k (waiting_at app s)" for s
    using k by (cases "s = r") (auto simp: set_source_def intro: exI [of _ 0])
  then have "hls_gets nd i app [] (set_source r src' app)"
    using cl by (auto simp: hls_gets_def) (auto simp: set_source_def)
  ultimately show ?thesis by blast
qed

text \<open>All invariants of the node together, along its runs.\<close>

definition node_inv :: "('l, 'm, 'f, 'w, 'x) Node \<Rightarrow> ('l, 'm, 'f, 'w, 'x) App \<Rightarrow> bool" where
  "node_inv nd app \<longleftrightarrow> app_ok app \<and> clients_inv nd app \<and> hls_inv nd app \<and> files_inv app"

context edge_node
begin

lemma quiet_step_hls:
  assumes "node_step nd (app, first) e (app', first')" "\<And>r. e \<noteq> Handled r" "hls_inv nd app"
  shows "hls_inv nd app' \<and> (\<forall>i < next_queue app. hls_gets nd i app [] app')"
  using assms(1)
proof (cases rule: node_step.cases)
  case (step_receive d)
  obtain cfg where cfg: "app' = app\<lparr>app_conf := cfg\<rparr>
      \<or> (\<exists>rp. accepted cfg d = [rp] \<and> handleNewPacket nd rp (app\<lparr>app_conf := cfg\<rparr>) = Ok app')"
    using receiveRtp_round_Ok [OF step_receive(2)] by metis
  have same: "hls_same app (app\<lparr>app_conf := cfg\<rparr>)" by (simp add: hls_same_def)
  have inv: "hls_inv nd (app\<lparr>app_conf := cfg\<rparr>)" using hls_same_step [OF same] assms(3) by blast
  have same_conf: "hls_gets nd i (app\<lparr>app_conf := cfg\<rparr>) [] app' = hls_gets nd i app [] app'" for i by (simp add: hls_gets_def)
  from cfg show ?thesis
  proof
    assume "app' = app\<lparr>app_conf := cfg\<rparr>"
    with hls_same_step [OF same] assms(3) show ?thesis by blast
  next
    assume "\<exists>rp. accepted cfg d = [rp] \<and> handleNewPacket nd rp (app\<lparr>app_conf := cfg\<rparr>) = Ok app'"
    then obtain rp where "handleNewPacket nd rp (app\<lparr>app_conf := cfg\<rparr>) = Ok app'" by blast
    from packet_hls [OF this inv] show ?thesis by (simp add: same_conf)
  qed
next
  case (step_answer uid c addr u resp)
  then have "hls_same app app'" using handleConn_Answer by (metis hls_same_def)
  then show ?thesis using hls_same_step assms(3) by blast
next
  case (step_client uid c addr u x)
  obtain w path r where "app' = (set_writer x w app)\<lparr>next_writer := x + 1, app_queues := (app_queues app)
         (r := (app_queues app r)\<lparr>FlvWriters := al_Add (nd_wl nd) (FlvWriters (app_queues app r)) (Some x)\<rparr>)\<rparr>"
    using handleConn_Streaming [OF step_client(3)] by metis
  then have "hls_same app app'" by (simp add: hls_same_def)
  then show ?thesis using hls_same_step assms(3) by blast
next
  case (step_alive order)
  have "hlsWriter (app_queues app' j) = hlsWriter (app_queues app j) \<and> ChannelKey (app_queues app' j) = ChannelKey (app_queues app j)" for j
  proof -
    obtain n where "app_queues app' j = (app_queues app j)\<lparr>Ssrc := n\<rparr>" using CheckAlive_frame [OF step_alive(5)] by auto
    then show ?thesis by simp
  qed
  then have "hls_same app app'" using CheckAlive_frame [OF step_alive(5)] by (simp add: hls_same_def)
  then show ?thesis using hls_same_step assms(3) by blast
next
  case (step_segment r src now src')
  then show ?thesis using segmenter_hls [of nd now app r src'] assms(3) by simp
next
  case (step_sweep conns alive)
  then have "hls_same app app'"
    by (auto simp: hls_same_def table_ok_def checkStop_round_def split: option.splits if_splits)
  then show ?thesis using hls_same_step assms(3) by blast
qed (use assms(2) hls_same_step [of app app'] assms(3) in \<open>auto simp: hls_same_def\<close>)

lemma queue_step_hls:
  assumes "queue_goroutine nd r app = Some (Ok app')" "r < next_queue app" "clients_inv nd app" "hls_inv nd app"
  shows "clients_inv nd app' \<and> hls_inv nd app' \<and> (\<exists>ts. hls_gets nd r app ts app')
    \<and> (\<forall>i < next_queue app. i \<noteq> r \<longrightarrow> hls_gets nd i app [] app')"
  using assms(1-3)
proof (cases rule: queue_round)
  case idle
  with assms(3,4) show ?thesis by (auto intro: exI [of _ "[]"])
next
  case (packet p c es q sh ts)
  with queue_round_effect [OF assms(3,2) packet(5,4)] queue_round_hls [OF assms(3,2) packet(2,4)] assms(4)
  show ?thesis by blast
qed

lemma step_inv:
  assumes "node_step nd (app, first) e (app', first')" "node_inv nd app"
  shows "node_inv nd app' \<and> next_queue app \<le> next_queue app' \<and> (\<forall>i < next_queue app. \<exists>ts. hls_gets nd i app ts app')"
proof (cases "\<exists>r. e = Handled r")
  case True
  then obtain r where e: "e = Handled r" by blast
  have q: "r < next_queue app" "queue_goroutine nd r app = Some (Ok app')"
    using assms(1) e by (auto elim: node_step.cases)
  have "\<exists>ts. hls_gets nd i app ts app'" if "i < next_queue app" for i
    using queue_step_hls [OF q(2,1)] assms(2) that by (cases "i = r") (auto simp: node_inv_def)
  moreover have "next_queue app' = next_queue app" using q(2) by (cases rule: queue_goroutine_Ok) auto
  ultimately show ?thesis
    using queue_step_hls [OF q(2,1)] queue_step_files [OF q(2,1)] node_step_ok [OF assms(1)] assms(2) by (simp add: node_inv_def)
next
  case False
  obtain xs where xs: "quiet nd app app' xs" using step_quiet [OF assms(1)] False assms(2) by (auto simp: node_inv_def)
  have "next_queue app \<le> next_queue app'" using xs by (simp add: quiet_def)
  with quiet_inv [OF xs] quiet_step_hls [OF assms(1)] quiet_step_files [OF assms(1)] node_step_ok [OF assms(1)] False assms(2)
  show ?thesis unfolding node_inv_def by blast
qed

lemma node_run_inv: "node_run nd cfg app first \<Longrightarrow> node_inv nd app"
proof (induction rule: node_run_induct)
  case (main sh qs heap)
  show ?case by (simp add: node_inv_def main_App_def app_ok_def clients_inv_def hls_inv_def table_ok_def files_inv_def)
next
  case (step app first e app' first')
  then show ?case using step_inv by blast
qed

lemma closed_source_round:
  assumes "clients_inv nd app" "hls_inv nd app" "i < next_queue app" "hlsWriter (app_queues app i) = Some s"
    and "src_closed (source_at app s)" "queue_goroutine nd i app = Some (Ok app')"
  shows "accFlvTags (app_queues app' i) = accFlvTags (app_queues app i) \<and> src_closed (source_at app' s)"
  using assms(6,3,1)
proof (cases rule: queue_round)
  case idle
  with assms(5) show ?thesis by simp
next
  case (packet p c es q sh ts)
  obtain us where us: "accFlvTags q = accFlvTags (app_queues app i) + int (length us)" "hls_gets nd i app us app'"
    using queue_round_hls [OF assms(1,3) packet(2,4)] by blast
  have "s < hw_next (app_hls app)" using assms(2-4) by (simp add: hls_inv_def)
  then have "us = []" "src_closed (source_at app' s)" using us(2) assms(4,5) by (auto simp: hls_gets_def)
  with us(1) show ?thesis by (simp add: packet(4))
qed

end

subsection \<open>Properties\<close>

text \<open>
  Every stream is served over HLS: in every reachable state of the node, each open source in the table
  is on a run of the segmenter for its key, so that what it has cut is served (\<open>segments_served\<close>).
\<close>

lemma node_serves_hls:
  assumes "arraylist (nd_wl nd)" "node_run nd cfg app first" "hw_server (app_hls app) = Some conns"
    and "conns key = Some s" "\<not> src_closed (source_at app s)" "clean_key key"
  shows "\<exists>its ts. source_run (nd_lg nd) key its ts (source_at app s)"
    and "source_run (nd_lg nd) key its ts (source_at app s) \<Longrightarrow> distinct (last5 ts) \<Longrightarrow> it \<in> set (last3 its)
      \<Longrightarrow> hls_Serve (hw_heap (app_hls app)) conns (ts_Name it) = HlsAnswer (serve_segment it)"
proof -
  have "hls_inv nd app"
    using edge_node.node_run_inv [OF _ assms(2)] assms(1) by (simp add: edge_node_def node_inv_def)
  then show "\<exists>its ts. source_run (nd_lg nd) key its ts (source_at app s)"
    using assms(3,4) unfolding hls_inv_def table_ok_def recorded_def by blast
  show "hls_Serve (hw_heap (app_hls app)) conns (ts_Name it) = HlsAnswer (serve_segment it)"
    if "source_run (nd_lg nd) key its ts (source_at app s)" "distinct (last5 ts)" "it \<in> set (last3 its)"
    using source_routed [where heap = "hw_heap (app_hls app)" and conns = conns and r = s, OF that(1) assms(5,6,4) refl that(2)] that(3) by blast
qed

text \<open>
  C37: A stream and its HLS source. In every reachable state each stream whose queue has an HLS source
  writes to a source that was created for the stream's own key; and once that source is closed,
  the stream never completes another tag: every further round of the queue's goroutine that ends
  leaves the tag counter as it is, since the goroutine panics at the next tag.
\<close>

theorem closed_source_ends_stream:
  assumes "arraylist (nd_wl nd)" "node_run nd cfg app first" "i < next_queue app"
    and "hlsWriter (app_queues app i) = Some s"
  shows "src_Key (source_at app s) = ChannelKey (app_queues app i)
    \<and> (src_closed (source_at app s) \<longrightarrow> queue_goroutine nd i app = Some (Ok app')
       \<longrightarrow> accFlvTags (app_queues app' i) = accFlvTags (app_queues app i) \<and> src_closed (source_at app' s))"
proof -
  have e: "edge_node nd" using assms(1) by (simp add: edge_node_def)
  have inv: "clients_inv nd app" "hls_inv nd app"
    using edge_node.node_run_inv [OF e assms(2)] by (simp_all add: node_inv_def)
  have "src_Key (source_at app s) = ChannelKey (app_queues app i)"
    using inv(2) assms(3,4) by (simp add: hls_inv_def)
  with edge_node.closed_source_round [OF e inv assms(3,4)] show ?thesis by blast
qed

end
