(* ===== verification/Node_Delivery.thy ===== *)
theory Node_Delivery
  imports Hls_Node
begin

text \<open>
  From a sender's packets to what the clients of a node receive: the invariant of the queues over
  all interleavings, and the progress of a stream between two states of the node.
\<close>

subsection \<open>Tags as slices\<close>

text \<open>How a tag of the sender appears on the connection of a client.\<close>

definition on_wire :: "byte list \<Rightarrow> byte list" where
  "on_wire t = t @ put32 (word_of_nat (length t))"

definition record_ok :: "FlvRecord \<Rightarrow> bool" where
  "record_ok r \<longleftrightarrow> (\<forall>t. flvTag r = Some t \<longrightarrow> slice_ok t)"

lemma copy_into_slice_ok: "copy_into s i j bs = Ok s' \<Longrightarrow> slice_ok s \<Longrightarrow> slice_ok s'"
  by (auto simp: copy_into_def slice_ok_def split: if_splits)

lemma slice_ok_make_bytes [simp]: "slice_ok (make_bytes n)"
  by (simp add: make_bytes_def)

lemma reassemble_slices:
  assumes "reassemble r p = Ok (r', d)" "record_ok r" "\<forall>rp. p = Some rp \<longrightarrow> slice_ok (Payload rp)"
  shows "record_ok r' \<and> (\<forall>t. d = Some t \<longrightarrow> slice_ok t)"
  using assms
  by (auto simp: reassemble_def add_fragment_def lose_def Reset_def record_ok_def andthen_eq_Ok Let_def
      dest: copy_into_slice_ok split: option.splits if_splits)

lemma feed_slices:
  assumes "feed r ps = Ok (r', ts)" "record_ok r" "\<forall>p. Some p \<in> set ps \<longrightarrow> slice_ok (Payload p)"
  shows "\<forall>t \<in> set ts. slice_ok t"
  using assms
proof (induction ps arbitrary: r ts)
  case (Cons p ps)
  obtain r1 d where r1: "reassemble r p = Ok (r1, d)" using Cons.prems(1) by (auto simp: andthen_eq_Ok)
  have ok: "record_ok r1" "\<And>t. d = Some t \<Longrightarrow> slice_ok t"
    using reassemble_slices [OF r1] Cons.prems(2,3) by auto
  then have reset: "record_ok (Reset r1)" by (simp add: record_ok_def Reset_def)
  from Cons.prems(1) r1 show ?case
    using Cons.IH [OF _ ok(1)] Cons.IH [OF _ reset] Cons.prems(3) ok(2)
    by (auto simp: andthen_eq_Ok split: option.splits)
qed simp

lemma framed_on_wire: "slice_ok t \<Longrightarrow> framed t = on_wire (bytes t)"
  by (simp add: framed_def on_wire_def)

subsection \<open>The queues of a node\<close>

definition certs :: "Config \<Rightarrow> Config \<Rightarrow> bool" where
  "certs cfg cfg' \<longleftrightarrow> (\<exists>k c. cfg' = cfg\<lparr>KEY_FILE := k, CERT_FILE := c\<rparr>)"

lemma certs_fields:
  assumes "certs cfg cfg'"
  shows "PROTECT cfg' = PROTECT cfg" "INIT cfg' = INIT cfg" "CLOUD_HOST cfg' = CLOUD_HOST cfg"
    "RTP_QUEUE_PADDING_WINDOW_SIZE cfg' = RTP_QUEUE_PADDING_WINDOW_SIZE cfg" "accepted cfg' = accepted cfg"
  using assms by (auto simp: certs_def accepted_def IsPacketLoss_def fun_eq_iff)

lemma certs_retransmission:
  assumes "retransmission env cfg ssrc good answering genuine" "certs cfg cfg'"
  shows "retransmission env cfg' ssrc good answering genuine"
proof -
  have i: "initQuic qg cfg' = initQuic qg cfg" for qg using assms(2) by (auto simp: certs_def initQuic_def fun_eq_iff)
  have d: "DISABLE_QUIC cfg' = DISABLE_QUIC cfg" using assms(2) by (auto simp: certs_def)
  have "GetByQuic (quic_lib env) cfg' s seq st = GetByQuic (quic_lib env) cfg s seq st" for s seq st
    unfolding GetByQuic_def i d by (rule refl)
  with assms(1) show ?thesis
    by (simp add: retransmission_def quic_env_def retransmission_axioms_def)
qed

text \<open>Everything that the sender's streams have put into a queue is what the sender sent.\<close>

definition from_sender :: "(u32 \<Rightarrow> u16 \<Rightarrow> RtpPack) \<Rightarrow> ('l, 'm, 'f, 'w, 'x) Node \<Rightarrow> Config \<Rightarrow> ('l, 'm) Queue \<Rightarrow> bool" where
  "from_sender src nd cfg q \<longleftrightarrow> window_ok (window_of (nd_al nd) q)
     \<and> PaddingWindowSize q = RTP_QUEUE_PADDING_WINDOW_SIZE cfg
     \<and> (\<forall>p. Some p \<in> set (al_Values (nd_al nd) (queue q)) \<union> set (ch_buf (InChan q)) \<longrightarrow> same_packet p (src (Ssrc q) (SequenceNumber p)))"

definition queues_inv :: "(u32 \<Rightarrow> u16 \<Rightarrow> RtpPack) \<Rightarrow> ('w quic_state \<Rightarrow> bool) \<Rightarrow> ('l, 'm, 'f, 'w, 'x) Node \<Rightarrow> Config
    \<Rightarrow> ('l, 'm, 'f, 'w, 'x) App \<Rightarrow> bool" where
  "queues_inv src good nd cfg app \<longleftrightarrow> certs cfg (app_conf app) \<and> good (quic (app_shared app))
     \<and> (\<forall>r < next_queue app. from_sender src nd cfg (app_queues app r))"

definition sent_by :: "(u32 \<Rightarrow> u16 \<Rightarrow> RtpPack) \<Rightarrow> Config \<Rightarrow> Datagram \<Rightarrow> bool" where
  "sent_by src cfg d \<longleftrightarrow> (\<forall>rp \<in> set (accepted cfg d). same_packet rp (src (SSRC rp) (SequenceNumber rp)))"

text \<open>Progress of stream \<open>r\<close>: slots leave its window, tags are completed, clients get them.\<close>

definition progress :: "(u32 \<Rightarrow> u16 \<Rightarrow> RtpPack) \<Rightarrow> ('l, 'm, 'f, 'w, 'x) Node \<Rightarrow> Config \<Rightarrow> nat
    \<Rightarrow> ('l, 'm, 'f, 'w, 'x) App \<Rightarrow> event list \<Rightarrow> slice list \<Rightarrow> ('l, 'm, 'f, 'w, 'x) App \<Rightarrow> bool" where
  "progress src nd cfg r app es ts app' \<longleftrightarrow>
     (let q = app_queues app r; q' = app_queues app' r; G = \<lambda>p. same_packet p (src (Ssrc q) (SequenceNumber p)) in
      window_run (promises cfg (RTP_QUEUE_PADDING_WINDOW_SIZE cfg) True G) (window_of (nd_al nd) q) es (window_of (nd_al nd) q')
      \<and> (\<forall>p. Some p \<in> set (arrivals es) \<longrightarrow> G p)
      \<and> feed (flvRecord q) (map snd (emitted es)) = Ok (flvRecord q', ts)
      \<and> accFlvTags q' = accFlvTags q + int (length ts) \<and> Ssrc q' = Ssrc q \<and> gets nd r app ts app' \<and> hls_gets nd r app ts app'
      \<and> file_gets r app ts app')"

lemma progress_trans:
  assumes "progress src nd cfg r app es ts app1" "progress src nd cfg r app1 fs us app'"
    and "node_inv nd app" "r < next_queue app"
  shows "progress src nd cfg r app (es @ fs) (ts @ us) app'"
proof -
  have sub: "set (queue_clients nd app r) \<subseteq> {..<next_writer app}" and hls: "hls_inv nd app"
    using assms(3,4) by (simp_all add: node_inv_def clients_inv_def)
  have g: "gets nd r app (ts @ us) app'" "hls_gets nd r app (ts @ us) app'" "file_gets r app (ts @ us) app'"
    using gets_trans [OF _ _ sub] hls_gets_trans [OF _ _ hls assms(4)] file_gets_trans [of r app ts app1 us app'] assms(1,2,4) by (auto simp: progress_def Let_def)
  from assms(1,2) have s: "Ssrc (app_queues app1 r) = Ssrc (app_queues app r)" by (simp add: progress_def Let_def)
  with assms(1,2) g window_run_append show ?thesis
    by (simp add: progress_def Let_def feed_append) blast
qed

locale sending = edge_node nd + packet_list "nd_al nd" for nd :: "('l, 'm, 'f, 'w, 'x) Node" +
  fixes cfg :: Config and good :: "'w quic_state \<Rightarrow> bool" and src :: "u32 \<Rightarrow> u16 \<Rightarrow> RtpPack"
  assumes service: "retransmission (nd_env nd) cfg ssrc good True (\<lambda>p. same_packet p (src ssrc (SequenceNumber p)))"
    and conf: "\<not> PROTECT cfg" "\<not> INIT cfg" "CLOUD_HOST cfg \<noteq> []" "1 \<le> RTP_QUEUE_PADDING_WINDOW_SIZE cfg"
begin

lemma env: "quic_env (nd_env nd) cfg ssrc good"
  using service [of ssrc] by (simp add: retransmission_def)

lemma queues_inv_queue:
  assumes "queues_inv src good nd cfg app" "from_sender src nd cfg q"
  shows "queues_inv src good nd cfg (app\<lparr>app_queues := (app_queues app)(r := q)\<rparr>)"
  using assms by (simp add: queues_inv_def)

lemma new_stream_inv:
  assumes "queues_inv src good nd cfg app" "handleNewStream nd ssrc app = Ok (app', r)"
  shows "queues_inv src good nd cfg app' \<and> Ssrc (app_queues app' r) = ssrc"
proof (rule handleNewStream_Ok [OF assms(2)], goal_cases)
  case (1 key q res n pub h rf)
  have "good ((quic (app_shared app))\<lparr>net := n\<rparr>)"
    using quic_env.good_http [OF env _ 1(2)] assms(1) by (auto simp: queues_inv_def)
  moreover have "from_sender src nd cfg q"
    using NewQueue_empty [OF 1(13)] NewQueue_fields [OF 1(13)] certs_fields [of cfg "app_conf app"] assms(1)
    by (auto simp: from_sender_def queues_inv_def window_of_def window_ok_def al_laws)
  ultimately show ?case
    using assms(1) 1 NewQueue_fields [OF 1(13)] by (auto simp: queues_inv_def less_Suc_eq)
qed

lemma packet_inv:
  assumes "queues_inv src good nd cfg app" "app_ok app" "handleNewPacket nd rp app = Ok app'"
    and "same_packet rp (src (SSRC rp) (SequenceNumber rp))"
  shows "queues_inv src good nd cfg app'"
proof -
  obtain app1 r c where p: "app1 = app \<and> RtpQueueMap app (SSRC rp) = Some r
      \<or> RtpQueueMap app (SSRC rp) = None \<and> handleNewStream nd (SSRC rp) app = Ok (app1, r)"
      "ch_buf c = ch_buf (InChan (app_queues app1 r)) @ [Some rp]"
      "app' = app1\<lparr>app_queues := (app_queues app1)(r := (app_queues app1 r)\<lparr>InChan := c\<rparr>)\<rparr>"
    using handleNewPacket_Ok [OF assms(3)] by metis
  have a: "queues_inv src good nd cfg app1 \<and> Ssrc (app_queues app1 r) = SSRC rp \<and> r < next_queue app1"
  proof (cases "RtpQueueMap app (SSRC rp)")
    case None
    then have "handleNewStream nd (SSRC rp) app = Ok (app1, r)" using p(1) by simp
    from new_stream_inv [OF assms(1) this] handleNewStream_Ok [OF this] show ?thesis
      by (metis less_add_one)
  next
    case (Some i)
    with p(1) assms(1,2) show ?thesis by (auto simp: app_ok_def)
  qed
  then have "from_sender src nd cfg (app_queues app1 r)" by (simp add: queues_inv_def)
  then have "from_sender src nd cfg ((app_queues app1 r)\<lparr>InChan := c\<rparr>)"
    using a p(2) assms(4) by (auto simp: from_sender_def window_of_def)
  from queues_inv_queue [OF _ this] a show ?thesis unfolding p(3) by simp
qed

text \<open>A round of a queue's goroutine.\<close>

lemma round_progress:
  assumes "queue_goroutine nd r app = Some (Ok app')" "r < next_queue app" "clients_inv nd app" "queues_inv src good nd cfg app"
    and "files_inv app"
  shows "queues_inv src good nd cfg app' \<and> (\<exists>es ts. progress src nd cfg r app es ts app')
    \<and> (\<forall>i < next_queue app. i \<noteq> r \<longrightarrow> app_queues app' i = app_queues app i \<and> gets nd i app [] app' \<and> hls_gets nd i app [] app'
         \<and> file_gets i app [] app')"
  using assms(1-3)
proof (cases rule: queue_round)
  case idle
  have "progress src nd cfg r app [] [] app" by (auto simp: progress_def Let_def window_run.finish)
  with idle assms(3,4) show ?thesis by auto
next
  case (packet p c es q sh ts)
  let ?q = "app_queues app r" and ?new = "(app_queues app r)\<lparr>InChan := c\<rparr>"
  let ?G = "\<lambda>p. same_packet p (src (Ssrc ?q) (SequenceNumber p))"
  have inv: "from_sender src nd cfg ?q" "certs cfg (app_conf app)" "good (quic (app_shared app))"
    using assms(2,4) by (simp_all add: queues_inv_def)
  have pend: "ch_buf (InChan ?q) = p # ch_buf c" using packet(1)
    by (cases "ch_buf (InChan ?q)") (auto simp: chan_recv_def split: if_splits)
  have st: "stream (nd_al nd) (nd_env nd) (app_conf app) (Ssrc ?q) good True ?G"
    using streamI [OF packet_list_axioms certs_retransmission [OF service inv(2)]] .
  have "stream_ok (nd_al nd) (Ssrc ?q) good (?new, shared_view app)"
    using inv conf(4) by (simp add: stream_ok_def from_sender_def window_of_def)
  note sim = stream.simulation [OF st packet(2) this]
  have prom: "promises (app_conf app) = promises cfg"
    using certs_fields(1) [OF inv(2)] by (simp add: promises_def fun_eq_iff)
  have run: "window_run (promises cfg (RTP_QUEUE_PADDING_WINDOW_SIZE cfg) True ?G) (window_of (nd_al nd) ?q) es (window_of (nd_al nd) q)"
      "window_ok (window_of (nd_al nd) q)" "Ssrc q = Ssrc ?q" "good (quic sh)" "PaddingWindowSize q = RTP_QUEUE_PADDING_WINDOW_SIZE cfg"
    using sim inv(1) by (simp_all add: stream_ok_def prom from_sender_def window_of_def)
  have arr: "\<forall>p'. Some p' \<in> set (arrivals es) \<longrightarrow> ?G p'" using inv(1) pend packet(3) by (auto simp: from_sender_def)
  have "InChan q = c" using stream_run_ident [OF packet(2)] by (simp add: ident_def)
  moreover have "?G p'" if "Some p' \<in> set (al_Values (nd_al nd) (queue q))" for p'
    using window_run_genuine [OF run(1), of p'] that arr inv(1) by (simp add: window_of_def from_sender_def)
  ultimately have "from_sender src nd cfg q"
    using run(2,3,5) inv(1) pend by (auto simp: from_sender_def)
  then have "queues_inv src good nd cfg app'"
    using assms(4) run(4) by (simp add: queues_inv_def packet(4))
  moreover have feed: "feed (flvRecord ?q) (map snd (emitted es)) = Ok (flvRecord q, ts)"
    using packet(6) certs_fields(1) [OF inv(2)] conf(1) by simp
  moreover have "accFlvTags q = accFlvTags ?q + int (length ts)"
    using stream_run_feed [OF packet(2)] certs_fields(1) [OF inv(2)] conf(1) feed by auto
  moreover have "hls_gets nd r app ts app'" "\<forall>i < next_queue app. i \<noteq> r \<longrightarrow> hls_gets nd i app [] app'"
    using queue_round_hls [OF assms(3,2) packet(2,4)] certs_fields(1) [OF inv(2)] conf(1) feed by auto
  moreover have "file_gets r app ts app'" "\<forall>i < next_queue app. i \<noteq> r \<longrightarrow> file_gets i app [] app'"
    using queue_round_files [OF assms(3,5,2) packet(2,4)] certs_fields(1) [OF inv(2)] conf(1) feed by auto
  moreover note queue_round_effect [OF assms(3,2) packet(5,4)]
  ultimately show ?thesis
    using run(1,3) arr by (auto simp: progress_def Let_def packet(4))
qed

end

subsection \<open>Steps and traces\<close>

lemma new_stream_Ssrc:
  assumes "handleNewStream nd ssrc app = Ok (app', i)" "r < next_queue app"
  shows "Ssrc (app_queues app' r) = Ssrc (app_queues app r)"
  by (rule handleNewStream_Ok [OF assms(1)]) (use assms(2) in simp)

lemma packet_Ssrc:
  assumes "handleNewPacket nd rp app = Ok app'" "r < next_queue app"
  shows "Ssrc (app_queues app' r) = Ssrc (app_queues app r)"
proof (rule handleNewPacket_Ok [OF assms(1)], goal_cases)
  case (1 app1 i c)
  then have "Ssrc (app_queues app1 r) = Ssrc (app_queues app r)" using new_stream_Ssrc [OF _ assms(2)] by blast
  with 1(3) show ?case by auto
qed

context sending
begin

lemma quiet_step_inv:
  assumes "node_step nd (app, first) e (app', first')" "\<And>r. e \<noteq> Handled r" "\<And>d. e = Received d \<Longrightarrow> sent_by src cfg d"
    and inv: "app_ok app" "queues_inv src good nd cfg app"
  shows "queues_inv src good nd cfg app' \<and> (\<forall>r < next_queue app. Ssrc (app_queues app' r) = Ssrc (app_queues app r))"
  using assms(1)
proof (cases rule: node_step.cases)
  case (step_certs stat)
  have "certs cfg (StartHTTPFlv stat c)" if cc: "certs cfg c" for c
  proof -
    obtain k l where "c = cfg\<lparr>KEY_FILE := k, CERT_FILE := l\<rparr>" using cc unfolding certs_def by blast
    then show ?thesis by (cases cfg) (auto simp: certs_def StartHTTPFlv_def)
  qed
  with inv(2) step_certs show ?thesis by (simp add: queues_inv_def)
next
  case (step_receive d)
  have c: "certs cfg (app_conf app)" using inv(2) by (simp add: queues_inv_def)
  then have "fst (first_datagram d (app_conf app)) = app_conf app"
    using conf(3) by (simp add: first_datagram_eq certs_fields(3))
  then have "app' = app \<or> (\<exists>rp. accepted (app_conf app) d = [rp] \<and> handleNewPacket nd rp app = Ok app')"
    by (rule_tac receiveRtp_round_Ok [OF step_receive(2)]) (auto split: if_splits)
  moreover have "queues_inv src good nd cfg app' \<and> (\<forall>r < next_queue app. Ssrc (app_queues app' r) = Ssrc (app_queues app r))"
    if p: "accepted (app_conf app) d = [rp]" "handleNewPacket nd rp app = Ok app'" for rp
  proof -
    have "same_packet rp (src (SSRC rp) (SequenceNumber rp))"
      using assms(3) [OF step_receive(1)] p(1) certs_fields(5) [OF c] by (simp add: sent_by_def)
    with packet_inv [OF inv(2,1) p(2)] packet_Ssrc [OF p(2)] show ?thesis by simp
  qed
  ultimately show ?thesis using inv(2) by blast
next
  case (step_answer uid c addr u resp)
  then show ?thesis using handleConn_Answer inv(2) by metis
next
  case (step_client uid c addr u x)
  obtain w path r a t where w: "RtpQueueMap app (key_ssrc app path) = Some r"
      "app' = (set_writer x w app)\<lparr>next_writer := x + 1, app_queues := (app_queues app)
         (r := (app_queues app r)\<lparr>FlvWriters := al_Add (nd_wl nd) (FlvWriters (app_queues app r)) (Some x)\<rparr>)\<rparr>"
    using handleConn_Streaming [OF step_client(3)] by metis
  then have "from_sender src nd cfg (app_queues app r)" using inv by (auto simp: queues_inv_def app_ok_def)
  then have "from_sender src nd cfg ((app_queues app r)\<lparr>FlvWriters := l\<rparr>)" for l
    by (simp add: from_sender_def window_of_def)
  with inv(2) show ?thesis by (auto simp: queues_inv_def w(2))
next
  case (step_alive order)
  then have "app' = app" using inv(2) conf(2) certs_fields(2) by (auto simp: CheckAlive_round_def queues_inv_def)
  with inv(2) show ?thesis by simp
qed (use assms(2) inv(2) in \<open>simp_all add: queues_inv_def set_source_def\<close>)

lemma step_progress:
  assumes "node_step nd (app, first) e (app', first')" "\<And>d. e = Received d \<Longrightarrow> sent_by src cfg d"
    and inv: "node_inv nd app" "queues_inv src good nd cfg app"
  shows "queues_inv src good nd cfg app' \<and> (\<forall>r < next_queue app. \<exists>es ts. progress src nd cfg r app es ts app')"
proof -
  have clients: "clients_inv nd app" "hls_inv nd app" "app_ok app" "files_inv app" using inv(1) by (simp_all add: node_inv_def)
  have still: "progress src nd cfg r app [] [] app'"
    if "core (app_queues app' r) = core (app_queues app r)" "Ssrc (app_queues app' r) = Ssrc (app_queues app r)"
      "gets nd r app [] app'" "hls_gets nd r app [] app'" "file_gets r app [] app'" for r
    using that by (auto simp: progress_def Let_def core_def window_of_def window_run.finish)
  show ?thesis
  proof (cases "\<exists>r. e = Handled r")
    case True
    then obtain r where e: "e = Handled r" by blast
    have q: "r < next_queue app" "queue_goroutine nd r app = Some (Ok app')"
      using assms(1) e by (auto elim: node_step.cases)
    from round_progress [OF q(2,1) clients(1) inv(2) clients(4)] have p: "queues_inv src good nd cfg app'"
        "\<exists>es ts. progress src nd cfg r app es ts app'"
        "\<And>i. i < next_queue app \<Longrightarrow> i \<noteq> r \<Longrightarrow> app_queues app' i = app_queues app i \<and> gets nd i app [] app' \<and> hls_gets nd i app [] app'
          \<and> file_gets i app [] app'"
      by blast+
    have "\<exists>es ts. progress src nd cfg i app es ts app'" if "i < next_queue app" for i
      using p(2) p(3) [OF that] still [of i] by (cases "i = r") auto
    with p(1) show ?thesis by blast
  next
    case False
    obtain xs where xs: "quiet nd app app' xs" using step_quiet [OF assms(1) _ clients(3)] False by blast
    have q: "queues_inv src good nd cfg app'" "\<And>r. r < next_queue app \<Longrightarrow> Ssrc (app_queues app' r) = Ssrc (app_queues app r)"
      using quiet_step_inv [OF assms(1) _ assms(2) clients(3) inv(2)] False by blast+
    have h: "hls_gets nd r app [] app'" "file_gets r app [] app'" if "r < next_queue app" for r
      using quiet_step_hls [OF assms(1) _ clients(2)] quiet_step_files [OF assms(1) _ clients(4)] False that by blast+
    have "progress src nd cfg r app [] [] app'" if "r < next_queue app" for r
      using still [OF _ q(2) [OF that] quiet_gets [OF xs clients(1) that] h(1,2) [OF that]] xs that by (simp add: quiet_def)
    with q(1) show ?thesis by blast
  qed
qed

lemma trace_progress:
  assumes "node_trace nd st evs st'" "\<And>d. Received d \<in> set evs \<Longrightarrow> sent_by src cfg d"
    and inv: "node_inv nd (fst st)" "queues_inv src good nd cfg (fst st)"
  shows "node_inv nd (fst st') \<and> queues_inv src good nd cfg (fst st') \<and> next_queue (fst st) \<le> next_queue (fst st')
    \<and> (\<forall>r < next_queue (fst st). \<exists>es ts. progress src nd cfg r (fst st) es ts (fst st'))"
  using assms(1,2)
proof (induction rule: node_trace.induct)
  case trace_nil
  have "progress src nd cfg r app [] [] app" for r app by (auto simp: progress_def Let_def window_run.finish)
  with inv show ?case by blast
next
  case (trace_snoc evs st' e st'')
  obtain app f app' f' where s: "st' = (app, f)" "st'' = (app', f')" by fastforce
  have ih: "node_inv nd app" "queues_inv src good nd cfg app" "next_queue (fst st) \<le> next_queue app"
      "\<forall>r < next_queue (fst st). \<exists>es ts. progress src nd cfg r (fst st) es ts app"
    using trace_snoc.IH trace_snoc.prems by (simp_all add: s)
  have step: "node_step nd (app, f) e (app', f')" using trace_snoc.hyps(2) by (simp add: s)
  note inv' = step_inv [OF step ih(1)]
  have more: "queues_inv src good nd cfg app' \<and> (\<forall>r < next_queue app. \<exists>es ts. progress src nd cfg r app es ts app')"
    by (rule step_progress [OF step _ ih(1,2)]) (simp add: trace_snoc.prems)
  have "\<exists>es ts. progress src nd cfg r (fst st) es ts app'" if r: "r < next_queue (fst st)" for r
  proof -
    obtain es ts where "progress src nd cfg r (fst st) es ts app" using ih(4) r by blast
    moreover obtain fs us where "progress src nd cfg r app fs us app'" using more ih(3) r by (meson less_le_trans)
    ultimately show ?thesis using progress_trans [OF _ _ inv(1) r] by blast
  qed
  with more inv' ih(3) show ?case by (simp add: s)
qed

lemma start_inv:
  assumes "good (quic sh)"
  shows "node_inv nd (main_App nd cfg sh qs heap) \<and> queues_inv src good nd cfg (main_App nd cfg sh qs heap)"
proof -
  have "cfg = cfg\<lparr>KEY_FILE := KEY_FILE cfg, CERT_FILE := CERT_FILE cfg\<rparr>" by simp
  then have "certs cfg cfg" unfolding certs_def by blast
  moreover have "node_inv nd (main_App nd cfg sh qs heap)" using node_run_inv [OF node_run_main] .
  ultimately show ?thesis using assms by (simp add: main_App_def queues_inv_def)
qed

text \<open>The progress of a stream between two states of the node.\<close>

lemma stream_progress:
  assumes "good (quic sh)" "node_trace nd (main_App nd cfg sh qs heap, True) evs (app, f)"
    and "node_trace nd (app, f) evs' (app', f')" "\<And>d. Received d \<in> set evs \<union> set evs' \<Longrightarrow> sent_by src cfg d"
    and "RtpQueueMap app ssrc = Some r" "al_Values (nd_al nd) (queue (app_queues app r)) \<noteq> []"
  shows "\<exists>ps ts. FirstSeq (app_queues app' r) = FirstSeq (app_queues app r) + word_of_nat (length ps)
    \<and> list_all2 same_packet ps (map (\<lambda>i. src ssrc (FirstSeq (app_queues app r) + word_of_nat i)) [0..<length ps])
    \<and> feed (flvRecord (app_queues app r)) (map Some ps) = Ok (flvRecord (app_queues app' r), ts)
    \<and> accFlvTags (app_queues app' r) = accFlvTags (app_queues app r) + int (length ts)
    \<and> gets nd r app ts app' \<and> hls_gets nd r app ts app' \<and> file_gets r app ts app' \<and> node_inv nd app' \<and> r < next_queue app"
proof -
  have inv: "node_inv nd app" "queues_inv src good nd cfg app"
    using trace_progress [OF assms(2)] start_inv [OF assms(1), of qs heap] assms(4) by auto
  have r: "r < next_queue app" "Ssrc (app_queues app r) = ssrc"
    using inv(1) assms(5) by (auto simp: app_ok_def node_inv_def)
  obtain es ts where p: "progress src nd cfg r app es ts app'" and inv': "node_inv nd app'"
    using trace_progress [OF assms(3)] inv assms(4) r(1) by auto
  let ?q = "app_queues app r" and ?q' = "app_queues app' r"
  let ?m = "promises cfg (RTP_QUEUE_PADDING_WINDOW_SIZE cfg) True (\<lambda>p. same_packet p (src ssrc (SequenceNumber p)))"
  have w: "window_run ?m (window_of (nd_al nd) ?q) es (window_of (nd_al nd) ?q')"
      "\<forall>p. Some p \<in> set (arrivals es) \<longrightarrow> same_packet p (src ssrc (SequenceNumber p))"
      "feed (flvRecord ?q) (map snd (emitted es)) = Ok (flvRecord ?q', ts)"
      "accFlvTags ?q' = accFlvTags ?q + int (length ts)" "gets nd r app ts app'" "hls_gets nd r app ts app'" "file_gets r app ts app'"
    using p by (simp_all add: progress_def Let_def r(2))
  have "\<forall>p. Some p \<in> set (al_Values (nd_al nd) (queue ?q)) \<longrightarrow> same_packet p (src ssrc (SequenceNumber p))"
    using inv(2) r by (auto simp: queues_inv_def from_sender_def)
  with window_run_source [OF w(1), of "src ssrc"] w(2) conf assms(6)
  obtain ps where out: "map snd (emitted es) = map Some ps"
      "list_all2 same_packet ps (map (\<lambda>i. src ssrc (FirstSeq ?q + word_of_nat i)) [0..<length ps])"
      "FirstSeq ?q' = FirstSeq ?q + word_of_nat (length ps)"
    by (auto simp: window_of_def)
  with w(3-7) inv' r(1) show ?thesis
    by (intro exI [of _ ps] exI [of _ ts]) simp
qed

text \<open>
  With the sender's tags at hand, the tags of the progress are known: \<open>n\<close> packets have left the
  window, \<open>k\<close> tags have been completed.
\<close>

lemma sender_progress:
  assumes "good (quic sh)" "node_trace nd (main_App nd cfg sh qs heap, True) evs (app, f)"
    and "node_trace nd (app, f) evs' (app', f')" "\<forall>d. Received d \<in> set evs \<union> set evs' \<longrightarrow> sent_by src cfg d"
    and "RtpQueueMap app ssrc = Some r" "al_Values (nd_al nd) (queue (app_queues app r)) \<noteq> []"
    and "fresh (flvRecord (app_queues app r))" "list_all2 packets_of tags pss"
      "concat pss = map (\<lambda>i. src ssrc (FirstSeq (app_queues app r) + word_of_nat i)) [0..<N]"
  shows "\<exists>n ts. FirstSeq (app_queues app' r) = FirstSeq (app_queues app r) + word_of_nat n
    \<and> accFlvTags (app_queues app' r) = accFlvTags (app_queues app r) + int (length ts)
    \<and> (n \<le> N \<longrightarrow> length ts \<le> length tags) \<and> (N \<le> n \<longrightarrow> length tags \<le> length ts) \<and> (\<forall>t \<in> set ts. slice_ok t)
    \<and> (length ts \<le> length tags \<longrightarrow> map bytes ts = take (length ts) tags)
    \<and> gets nd r app ts app' \<and> hls_gets nd r app ts app' \<and> file_gets r app ts app' \<and> node_inv nd app' \<and> r < next_queue app"
proof -
  let ?q = "app_queues app r" and ?q' = "app_queues app' r"
  obtain ps ts where v: "FirstSeq ?q' = FirstSeq ?q + word_of_nat (length ps)"
      "list_all2 same_packet ps (map (\<lambda>i. src ssrc (FirstSeq ?q + word_of_nat i)) [0..<length ps])"
      "feed (flvRecord ?q) (map Some ps) = Ok (flvRecord ?q', ts)" "accFlvTags ?q' = accFlvTags ?q + int (length ts)"
      "gets nd r app ts app'" "hls_gets nd r app ts app'" "file_gets r app ts app'" "node_inv nd app'" "r < next_queue app"
    using stream_progress [OF assms(1-3) _ assms(5,6)] assms(4) by blast
  note pre = feed_source_prefix [OF assms(7-9) v(2,3)]
  have "\<forall>p \<in> set ps. slice_ok (Payload p)" using v(2) by (rule same_packets_ok)
  then have "\<forall>p. Some p \<in> set (map Some ps) \<longrightarrow> slice_ok (Payload p)" by auto
  moreover have "record_ok (flvRecord ?q)" using assms(7) by (simp add: record_ok_def fresh_def)
  ultimately have "\<forall>t \<in> set ts. slice_ok t" by (intro feed_slices [OF v(3)])
  moreover have "length ts \<le> length tags \<longrightarrow> map bytes ts = take (length ts) tags"
    using take_of_prefixes [of "map bytes ts" tags] pre by (auto simp: nat_le_linear)
  moreover have "length ps \<le> N \<longrightarrow> length ts \<le> length tags" "N \<le> length ps \<longrightarrow> length tags \<le> length ts"
    using pre prefix_length_le [of "map bytes ts" tags] prefix_length_le [of tags "map bytes ts"] by auto
  ultimately show ?thesis using v by (intro exI [of _ "length ps"] exI [of _ ts]) simp
qed

end

end
