(* ===== verification/Demo_Viewer.thy ===== *)
theory Demo_Viewer
  imports Node_Delivery
begin

text \<open>
  A run of the small node, with HLS and recording: a stream begins, a client connects, and the next packet completes
  a tag, which goes to the client, to the stream's HLS source and to its recording.
\<close>

definition view_conf :: Config where
  "view_conf = demo_conf\<lparr>PROTECT := False, ENABLE_HLS := True, ENABLE_RECORD := True\<rparr>"

lemma view_conf: "\<not> PROTECT view_conf" "\<not> INIT view_conf" "CLOUD_HOST view_conf = ''10.0.0.1''"
  "RTP_QUEUE_PADDING_WINDOW_SIZE view_conf = 100" "\<not> DISABLE_QUIC view_conf" "ENABLE_RECORD view_conf"
  "ENABLE_HLS view_conf" "RTP_QUEUE_CHAN_SIZE view_conf = 100" "\<not> IsPacketLoss view_conf 9999"
  by (simp_all add: view_conf_def demo_conf_def Conf_def IsPacketLoss_def)

lemma demo_cloud_env: "cloud_env (nd_env demo_node) id node_store 0 1 2 view_conf ssrc True"
proof unfold_locales
  show "length (node_store ssrc' seq) < 65536" for ssrc' seq
    by (simp add: node_store_def rtp_wire_def words_wire_def ext_wire_def pad_wire_def)
qed (auto simp: caches_node_store demo_node_def node_env_def node_quic_def view_conf take_is_prefix drop_min_length)

lemma demo_sending: "sending demo_node view_conf (idle id 0 1 2) node_packet"
proof -
  have "retransmission (nd_env demo_node) view_conf ssrc (idle id 0 1 2) True
      (\<lambda>p. same_packet p (node_packet ssrc (SequenceNumber p)))" for ssrc
  proof (rule retransmission_mono [OF cloud_env.service [OF demo_cloud_env]])
    fix p
    assume "Parse (of_bytes (node_store ssrc (SequenceNumber p))) = Ok (Some p)"
    then have "p = node_packet ssrc (SequenceNumber p)" using node_packet(1) by simp
    then show "same_packet p (node_packet ssrc (SequenceNumber p))" by (metis node_packet(5) same_packet_refl)
  qed
  moreover have "packet_list (nd_al demo_node)" by (simp add: demo_node_def spl.packet_list_axioms)
  ultimately show ?thesis
    by (simp add: sending_def sending_axioms_def demo_edge.edge_node_axioms view_conf)
qed

interpretation demo_sender: sending demo_node view_conf "idle id 0 1 2" node_packet
  by (rule demo_sending)

text \<open>The datagrams of the sender.\<close>

definition view_datagram :: "u16 \<Rightarrow> Datagram" where
  "view_datagram seq = \<lparr>dg_data = node_store 7 seq, dg_ip = ''10.0.0.1'', dg_err = None, dg_rand = 9999\<rparr>"

lemma view_datagram:
  "\<exists>p. Parse (udp_buffer (view_datagram seq)) = Ok (Some p) \<and> accepted view_conf (view_datagram seq) = [p]
    \<and> same_packet p (node_packet 7 seq) \<and> SSRC p = 7"
proof -
  have len: "length (node_store 7 seq) = 25" by (simp add: node_store_def rtp_wire_def words_wire_def ext_wire_def pad_wire_def)
  then have "bytes (udp_buffer (view_datagram seq)) = node_store 7 seq" "slice_ok (udp_buffer (view_datagram seq))"
    by (simp_all add: udp_buffer_def bytes_def slice_ok_def view_datagram_def)
  with Parse_bytes [of "udp_buffer (view_datagram seq)"] node_packet(1,6) [of 7 seq] obtain p where
    "Parse (udp_buffer (view_datagram seq)) = Ok (Some p)" "same_packet p (node_packet 7 seq)" "SSRC p = 7"
    by auto
  moreover have "dg_rand (view_datagram seq) = 9999" by (simp add: view_datagram_def)
  ultimately show ?thesis by (simp add: accepted_def view_conf)
qed

lemma view_datagram_sent: "sent_by node_packet view_conf (view_datagram seq)"
  using view_datagram [of seq] by (auto simp: sent_by_def same_packet_def node_packet)

lemma view_receive:
  assumes "app_conf app = view_conf" "Parse (udp_buffer (view_datagram seq)) = Ok (Some p)"
    and "handleNewPacket demo_node p app = Ok app'"
  shows "receiveRtp_round demo_node (view_datagram seq) (app, first) = Ok (app', False)"
proof -
  have same: "app\<lparr>app_conf := view_conf\<rparr> = app" using assms(1) by (cases app) simp
  have "first_datagram (view_datagram seq) view_conf = (view_conf, False)"
    by (simp add: first_datagram_eq view_conf)
  moreover have "dg_err (view_datagram seq) = None" "dg_rand (view_datagram seq) = 9999" by (simp_all add: view_datagram_def)
  ultimately show ?thesis
    unfolding receiveRtp_round_def by (simp add: CheckError_def view_conf assms(1,2) same assms(3))
qed

text \<open>The stream begins: its first packet waits in the window.\<close>

definition waiting :: "(RtpPack option list, nat option list, nat option list, cloud, nat) App \<Rightarrow> nat \<Rightarrow> RtpPack \<Rightarrow> bool" where
  "waiting app r p \<longleftrightarrow> app_conf app = view_conf \<and> RtpQueueMap app = [7 \<mapsto> r] \<and> KeySsrcMap app ''live/a'' = Some 7
     \<and> next_queue app = Suc r \<and> SequenceNumber p = 65535 \<and> same_packet p (node_packet 7 65535)
     \<and> InChan (app_queues app r) = make_chan 100 \<and> queue (app_queues app r) = [Some p] \<and> FirstSeq (app_queues app r) = 65535
     \<and> flvRecord (app_queues app r) = NewFlvRecord \<and> accFlvTags (app_queues app r) = 0
     \<and> cache (app_queues app r) = NewCache \<and> hlsWriter (app_queues app r) = Some 0
     \<and> hw_server (app_hls app) = Some [''live/a'' \<mapsto> 0] \<and> hw_next (app_hls app) = 1 \<and> source_at app 0 = NewSource demo_lg 0 ''live/a''
     \<and> flvFile (app_queues app r) = Some 0 \<and> recording (file_at app 0)
     \<and> PaddingWindowSize (app_queues app r) = 100"

definition view_app :: "(RtpPack option list, nat option list, nat option list, cloud, nat) App" where
  "view_app = main_App demo_node view_conf (snd demo_stream) (\<lambda>_. fst demo_stream) (\<lambda>_. demo_source [])"

lemma queue_simps: "nd_al demo_node = slice_al" "nd_wl demo_node = slice_al"
  by (simp_all add: demo_node_def)

lemma drain_window_done:
  "\<not> al_Size al (queue (fst qs)) > PaddingWindowSize (fst qs) \<Longrightarrow> drain_window env cfg al wl qs = Some (Ok qs)"
  by (subst drain_window.simps) simp

lemma drain_ready_done:
  "\<not> al_Size al (queue (fst qs)) > 1 \<Longrightarrow> drain_ready env cfg al wl qs = Some (Ok qs)"
  by (subst drain_ready.simps) simp

lemma demo_begins:
  "\<exists>app p. node_trace demo_node (view_app, True) [Received (view_datagram 65535), Handled 0] (app, False) \<and> waiting app 0 p
     \<and> FlvWriters (app_queues app 0) = []"
proof -
  obtain p where p: "Parse (udp_buffer (view_datagram 65535)) = Ok (Some p)" "same_packet p (node_packet 7 65535)" "SSRC p = 7"
    using view_datagram [of 65535] by blast
  have conf: "app_conf view_app = view_conf" "RtpQueueMap view_app = Map.empty" "next_queue view_app = 0" "next_file view_app = 0"
      "app_hls view_app = \<lparr>hw_server = None, hw_heap = \<lambda>_. demo_source [], hw_next = 0\<rparr>" "KeySsrcMap view_app = Map.empty"
    by (simp_all add: view_app_def main_App_def)
  obtain app1 q where n: "handleNewStream demo_node 7 view_app = Ok (app1, 0)" "app_queues app1 = (app_queues view_app)(0 := q)"
      "next_queue app1 = 1" "RtpQueueMap app1 = [7 \<mapsto> 0]" "KeySsrcMap app1 ''live/a'' = Some 7" "app_conf app1 = view_conf"
      "InChan q = make_chan 100" "queue q = []" "flvRecord q = NewFlvRecord" "accFlvTags q = 0" "cache q = NewCache"
      "FlvWriters q = []" "hlsWriter q = Some 0" "flvFile q = Some 0" "recording (file_at app1 0)" "PaddingWindowSize q = 100"
      "app_hls app1 = \<lparr>hw_server = Some [''live/a'' \<mapsto> 0], hw_heap = (\<lambda>_. demo_source [])(0 := NewSource demo_lg 0 ''live/a''), hw_next = 1\<rparr>"
    using demo_new_stream [of view_app "\<lambda>_. demo_source []"] conf
    by (auto simp: view_conf)
  let ?c = "(make_chan 100)\<lparr>ch_buf := [Some p]\<rparr>"
  let ?app2 = "app1\<lparr>app_queues := (app_queues app1)(0 := q\<lparr>InChan := ?c\<rparr>)\<rparr>"
  have "handleNewPacket demo_node p view_app = Ok ?app2"
    by (simp add: handleNewPacket_def p(3) conf n chan_send_def) (simp add: make_chan_def)
  note step1 = view_receive [OF conf(1) p(1) this, of True]
  let ?q3 = "q\<lparr>InChan := make_chan 100, accPackets := accPackets q + 1, FirstSeq := 65535, queue := [Some p]\<rparr>"
  have seq: "SequenceNumber p = 65535" using p(2) by (simp add: same_packet_def node_packet)
  have "Enqueue slice_al (q\<lparr>InChan := make_chan 100\<rparr>) (Some p) = ?q3"
    by (simp add: Enqueue_def n(8) seq)
  then have recv: "RecvPacket_one env cfg slice_al slice_al (Some p) (q\<lparr>InChan := make_chan 100\<rparr>, s) = Some (Ok (?q3, s))" for env cfg s
    by (simp add: RecvPacket_one_def drain_window_done drain_ready_done n(16))
  have "chan_recv ?c = Ok (Some (Some p), make_chan 100)" by (simp add: chan_recv_def make_chan_def)
  then have "queue_goroutine demo_node 0 ?app2
      = Some (Ok (store_shared (shared_view ?app2) (?app2\<lparr>app_queues := (app_queues ?app2)(0 := ?q3)\<rparr>)))"
    by (simp add: queue_goroutine_def queue_simps recv n(2))
  moreover define app where "app = store_shared (shared_view ?app2) (?app2\<lparr>app_queues := (app_queues ?app2)(0 := ?q3)\<rparr>)"
  ultimately have "node_step demo_node (?app2, False) (Handled 0) (app, False)"
    using n(3) by (intro step_queue) (simp_all add: app_def)
  then have "node_trace demo_node (view_app, True) [Received (view_datagram 65535), Handled 0] (app, False)"
    using trace_snoc [OF trace_snoc [OF trace_nil step_receive [OF step1]]] by simp
  moreover have "waiting app 0 p" using n seq p(2) by (simp add: waiting_def app_def store_shared_def shared_view_def)
  moreover have "FlvWriters (app_queues app 0) = []" using n by (simp add: app_def)
  ultimately show ?thesis by blast
qed

text \<open>A client connects.\<close>

lemma demo_connects:
  assumes "waiting app r p" "app_ok app" "FlvWriters (app_queues app r) = []"
  shows "\<exists>app' x. node_step demo_node (app, f) (Connected x) (app', f) \<and> waiting app' r p
    \<and> FlvWriters (app_queues app' r) = [Some x] \<and> \<not> Closed (writer_at app' x) \<and> packetQueue (writer_at app' x) = make_chan 1024"
proof -
  have "hh_HasChannel (MyHttpHandler demo_node) (''live'' @ ''/'' @ ''a'') app"
    using assms(1) by (simp add: MyHttpHandler_def HasChannel_def key_ssrc_def waiting_def)
  from demo_edge.request_stream [OF assms(2) this] obtain x app' where
    c: "handleConn (MyHttpHandler demo_node) ''id'' \<lparr>hw_out = [], hw_broken = False\<rparr> ''url'' (''/live/a.flv'') app = Streaming x app'"
    by fastforce
  obtain w path i a t full where w: "fresh_writer a t full \<lparr>hw_out = [], hw_broken = False\<rparr> w"
      "RtpQueueMap app (key_ssrc app path) = Some i"
      "app' = (set_writer x w app)\<lparr>next_writer := x + 1, app_queues := (app_queues app)
         (i := (app_queues app i)\<lparr>FlvWriters := al_Add (nd_wl demo_node) (FlvWriters (app_queues app i)) (Some x)\<rparr>)\<rparr>"
    using handleConn_Streaming [OF c] by metis
  then have "i = r" using assms(1) by (auto simp: waiting_def split: if_splits)
  with w assms have "waiting app' r p" "FlvWriters (app_queues app' r) = [Some x]" "writer_at app' x = w"
    by (simp_all add: waiting_def queue_simps set_writer_def)
  with step_client [OF c] w(1) show ?thesis
    by (intro exI [of _ app'] exI [of _ x]) (simp add: fresh_writer_def maxQueueNum_def)
qed

text \<open>The second packet lets the first one out of the window.\<close>

definition headless :: "av_Packet \<Rightarrow> bool" where
  "headless p \<longleftrightarrow> av_IsAudio p \<and> \<not> av_IsMetadata p \<and> av_Header p = None"

lemma extract_tag_client:
  assumes "flvRecord q = NewFlvRecord" "accFlvTags q = 0" "cache q = NewCache" "hlsWriter q = Some h" "flvFile q = Some g"
    and "recording (files s g)"
    and "\<not> src_closed (sources s h)" "src_packetQueue (sources s h) = make_chan 512"
    and "FlvWriters q = [Some x]" "\<not> Closed (writers s x)" "packetQueue (writers s x) = make_chan 1024"
    and "Marker p = 1" "payload_bytes p = short_tag" "slice_ok (Payload p)"
  shows "\<exists>q' s'. extractFlv (nd_env demo_node) cfg slice_al (Some p) (q, s) = Ok (q', s') \<and> accFlvTags q' = 1
    \<and> \<not> Closed (writers s' x) \<and> \<not> src_closed (sources s' h)
    \<and> (\<exists>p. src_packetQueue (sources s' h) = (make_chan 512)\<lparr>ch_buf := [p]\<rparr> \<and> headless p)"
proof -
  obtain c where c: "cache_add NewCache (Payload p) = Ok c" "cache_inv c"
    using cache_add_readable [OF assms(14) _ cache_inv_NewCache] assms(13) short_tag_readable
    by (auto simp: payload_bytes_def)
  let ?q = "q\<lparr>flvRecord := \<lparr>flvTag = Some (Payload p), TagSize = TagSize NewFlvRecord, pos = 0, jumpToNextHead = False\<rparr>,
    accFlvTags := 1, cache := c\<rparr>"
  have room: "\<forall>r \<in> set [x]. has_room (writers s r)" using assms(10,11) by (simp add: has_room_def make_chan_def)
  obtain q0 where q0: "reassemble NewFlvRecord (Some p) = Ok (q0, Some (Payload p))"
    using assms(12) by (simp add: reassemble_def add_fragment_def NewFlvRecord_def Let_def)
  let ?ws = "\<lambda>r. if r \<in> set [x] then feed_writer c (Payload p) (writers s r) else writers s r"
  let ?q1 = "q\<lparr>flvRecord := q0, accFlvTags := 1, cache := c\<rparr>"
  have q1: "cache_shape (cache ?q1)" "al_Values slice_al (FlvWriters ?q1) = map Some [x]" "cache ?q1 = c"
    using cache_inv_shape [OF c(2)] assms(9) by simp_all
  have "distinct [x]" by simp
  from swl.fan_out_spec [OF q1(1,2) this room, of "Payload p", unfolded q1(3)]
  obtain l where l: "fan_out slice_al (Payload p) (?q1, s) = Ok ((?q1\<lparr>FlvWriters := l\<rparr>, s\<lparr>writers := ?ws\<rparr>), False)"
    by (elim exE conjE)
  have full: "\<not> full NewCache" by (simp add: NewCache_def)
  obtain pk where pk: "av_Parse (nd_env demo_node) (Payload p) True = Ok pk" "headless pk"
    by (simp add: demo_node_def node_env_def headless_def)
  obtain src where src: "Source_Write (sources s h) pk = Ok (src, None)" "\<not> src_closed src"
      "src_packetQueue src = (make_chan 512)\<lparr>ch_buf := [pk]\<rparr>"
    using assms(7,8) by (simp add: Source_Write_def chan_send_def make_chan_def)
  obtain fl where fl: "WriteTagDirect (files s g) (bytes (Payload p)) = (fl, None)"
    using WriteTagDirect_recording [OF assms(6)] by blast
  show ?thesis
    using assms(1-5,10) q0 c(1) l full pk src fl
    by (auto simp: extractFlv_def deliver_def count_tag_def remember_segment_def to_hls_def to_file_def reset_record_def Let_def
        feed_writer_def CheckError_def)
qed

text \<open>A source with a packet in its channel that the demuxer refuses.\<close>

definition fed_source :: "('l, 'm, 'f, 'w, 'x) App \<Rightarrow> nat \<Rightarrow> bool" where
  "fed_source app s \<longleftrightarrow> hs_running (source_at app s) \<and> \<not> src_closed (source_at app s)
     \<and> (\<exists>p. waiting_at app s = [p] \<and> headless p)"

lemma demo_delivers:
  assumes "waiting app r p" "FlvWriters (app_queues app r) = [Some x]" "\<not> Closed (writer_at app x)"
    and "packetQueue (writer_at app x) = make_chan 1024"
  shows "\<exists>app'. node_trace demo_node (app, False) [Received (view_datagram 0), Handled r] (app', False)
    \<and> accFlvTags (app_queues app' r) = 1 \<and> \<not> Closed (writer_at app' x) \<and> next_queue app' = Suc r
    \<and> hlsWriter (app_queues app' r) = Some 0 \<and> hw_next (app_hls app') = hw_next (app_hls app)
    \<and> fed_source app' 0"
proof -
  obtain p0 where p0: "Parse (udp_buffer (view_datagram 0)) = Ok (Some p0)" "same_packet p0 (node_packet 7 0)" "SSRC p0 = 7"
    using view_datagram [of 0] by blast
  have w: "app_conf app = view_conf" "RtpQueueMap app = [7 \<mapsto> r]" "r < next_queue app" "next_queue app = Suc r"
      "InChan (app_queues app r) = make_chan 100" "queue (app_queues app r) = [Some p]" "FirstSeq (app_queues app r) = 65535"
      "PaddingWindowSize (app_queues app r) = 100"
    using assms(1) by (simp_all add: waiting_def)
  let ?q = "app_queues app r" and ?c = "(make_chan 100)\<lparr>ch_buf := [Some p0]\<rparr>"
  let ?app1 = "app\<lparr>app_queues := (app_queues app)(r := ?q\<lparr>InChan := ?c\<rparr>)\<rparr>"
  have "handleNewPacket demo_node p0 app = Ok ?app1"
    by (simp add: handleNewPacket_def p0(3) w chan_send_def) (simp add: make_chan_def)
  note step1 = view_receive [OF w(1) p0(1) this, of False]
  let ?q0 = "?q\<lparr>InChan := make_chan 100\<rparr>" and ?s = "shared_view app"
  let ?q1 = "?q0\<lparr>accPackets := accPackets ?q + 1, queue := [Some p, Some p0]\<rparr>"
  have seq: "SequenceNumber p0 = 0" "SequenceNumber p = 65535" using p0(2) assms(1) by (simp_all add: same_packet_def node_packet waiting_def)
  have "relative_pos 0 65535 = 1" "\<not> FirstBeforeSecond 0 65535" by (simp_all add: relative_pos_def FirstBeforeSecond_def)
  then have enq: "Enqueue slice_al ?q0 (Some p0) = ?q1"
    by (simp add: Enqueue_def w seq Let_def list_set_def)
  let ?q2 = "?q1\<lparr>queue := [Some p0], FirstSeq := 0\<rparr>"
  have deq: "Dequeue env cfg slice_al (?q1, ?s) = Ok (Some p, ?q2, ?s)" for env and cfg
    by (simp add: Dequeue_def isFirstOk_def w list_remove_def)
  obtain q3 s3 pk where ext: "extractFlv (nd_env demo_node) view_conf slice_al (Some p) (?q2, ?s) = Ok (q3, s3)" "accFlvTags q3 = 1"
      "\<not> Closed (writers s3 x)" "\<not> src_closed (sources s3 0)"
      "src_packetQueue (sources s3 0) = (make_chan 512)\<lparr>ch_buf := [pk]\<rparr>" "headless pk"
    using extract_tag_client [of ?q2 0 0 ?s x p view_conf] assms
    by (auto simp: waiting_def same_packet_def node_packet shared_view_def NewSource_def Source.defs hls_maxQueueNum_def)
  have "same_stream ?q2 q3" using ensuresD [OF any_env.extractFlv_frame ext(1), of ?q2] by simp
  then have q3: "queue q3 = [Some p0]" by (simp add: same_stream_def)
  have "drain_ready (nd_env demo_node) view_conf slice_al slice_al (?q1, ?s) = Some (Ok (q3, s3))"
    by (subst drain_ready.simps) (simp only: deq ext(1) andthen_simps prod.case go.case, simp add: isFirstOk_def q3 drain_ready_done)
  then have recv: "RecvPacket_one (nd_env demo_node) view_conf slice_al slice_al (Some p0) (?q0, ?s) = Some (Ok (q3, s3))"
    by (simp add: RecvPacket_one_def enq drain_window_done w)
  have "chan_recv ?c = Ok (Some (Some p0), make_chan 100)" by (simp add: chan_recv_def make_chan_def)
  moreover have "shared_view ?app1 = ?s" by (simp add: shared_view_def)
  moreover define app' where "app' = store_shared s3 (?app1\<lparr>app_queues := (app_queues ?app1)(r := q3)\<rparr>)"
  ultimately have "queue_goroutine demo_node r ?app1 = Some (Ok app')"
    by (simp add: queue_goroutine_def queue_simps recv w(1))
  then have "node_step demo_node (?app1, False) (Handled r) (app', False)" using w(3) by (intro step_queue) simp_all
  then have "node_trace demo_node (app, False) [Received (view_datagram 0), Handled r] (app', False)"
    using trace_snoc [OF trace_snoc [OF trace_nil step_receive [OF step1]]] by simp
  moreover have "accFlvTags (app_queues app' r) = 1" "\<not> Closed (writer_at app' x)" "next_queue app' = Suc r"
      "hw_next (app_hls app') = hw_next (app_hls app)"
    using ext(2,3) w(4) by (simp_all add: app'_def)
  moreover have "hs_running (source_at app 0)" using assms(1) by (simp add: waiting_def NewSource_def)
  then have "fed_source app' 0"
    using ext(4-6) by (cases "source_at app 0") (simp add: fed_source_def app'_def store_shared_def make_chan_def Source.defs)
  moreover have "hlsWriter q3 = Some 0"
    using ensuresD [OF extractFlv_ident ext(1)] assms(1) by (simp add: waiting_def ident_def)
  then have "hlsWriter (app_queues app' r) = Some 0" by (simp add: app'_def)
  ultimately show ?thesis by blast
qed

text \<open>The whole run, with a client connected after the first packet.\<close>

lemma demo_run:
  obtains app app' x p evs evs' where "node_trace demo_node (view_app, True) evs (app, False)"
    "node_trace demo_node (app, False) evs' (app', False)"
    "\<forall>d. Received d \<in> set evs \<union> set evs' \<longrightarrow> sent_by node_packet view_conf d" "waiting app 0 p"
    "x \<in> set (queue_clients demo_node app 0)" "\<not> Closed (writer_at app' x)"
    "accFlvTags (app_queues app' 0) = 1" "next_queue app' = Suc 0" "hlsWriter (app_queues app' 0) = Some 0"
    "hw_next (app_hls app') = 1" "fed_source app' 0"
proof -
  obtain app0 p where t0: "node_trace demo_node (view_app, True) [Received (view_datagram 65535), Handled 0] (app0, False)"
      "waiting app0 0 p" "FlvWriters (app_queues app0 0) = []"
    using demo_begins by blast
  have "node_run demo_node view_conf app0 False" using t0(1) unfolding node_run_def view_app_def by blast
  then have "app_ok app0" using demo_edge.node_run_ok by blast
  from demo_connects [OF t0(2) this t0(3)] obtain app x where
    c: "node_step demo_node (app0, False) (Connected x) (app, False)" "waiting app 0 p" "FlvWriters (app_queues app 0) = [Some x]"
      "\<not> Closed (writer_at app x)" "packetQueue (writer_at app x) = make_chan 1024"
    by blast
  obtain app' where t2: "node_trace demo_node (app, False) [Received (view_datagram 0), Handled 0] (app', False)"
      "accFlvTags (app_queues app' 0) = 1" "\<not> Closed (writer_at app' x)" "next_queue app' = Suc 0"
      "hlsWriter (app_queues app' 0) = Some 0" "hw_next (app_hls app') = hw_next (app_hls app)" "fed_source app' 0"
    using demo_delivers [OF c(2-5)] by blast
  have "hw_next (app_hls app) = 1" using c(2) by (simp add: waiting_def)
  moreover have "x \<in> set (queue_clients demo_node app 0)" using c(3) by (simp add: queue_clients_def queue_simps)
  ultimately show thesis using that [OF trace_snoc [OF t0(1) c(1)] t2(1)] c(2) t2(2-7) view_datagram_sent by auto
qed

lemma demo_initial: "idle id 0 1 2 (quic (snd demo_stream))"
  by (simp add: idle_def demo_stream_def)

lemma waiting_facts:
  assumes "waiting app 0 p"
  shows "RtpQueueMap app 7 = Some 0" "al_Values (nd_al demo_node) (queue (app_queues app 0)) \<noteq> []"
    "fresh (flvRecord (app_queues app 0))" "FirstSeq (app_queues app 0) = 65535" "accFlvTags (app_queues app 0) = 0"
    "cache (app_queues app 0) = NewCache" "hlsWriter (app_queues app 0) = Some 0"
    "waiting_at app 0 = []" "\<not> src_closed (source_at app 0)"
  using assms by (simp_all add: waiting_def queue_simps fresh_def NewFlvRecord_def NewSource_def make_chan_def)

subsection \<open>The HLS source of the demonstration\<close>

text \<open>The demuxer refuses the tag of the run, and the source closes.\<close>

lemma demo_closes:
  assumes "fed_source app s" "s < hw_next (app_hls app)"
  shows "\<exists>src. node_step demo_node (app, f) (Segmented s) (set_source s src app, f) \<and> src_closed src"
proof -
  obtain p where p: "hs_running (source_at app s)" "\<not> src_closed (source_at app s)" "waiting_at app s = [p]" "headless p"
    using assms(1) by (auto simp: fed_source_def)
  let ?src = "(source_at app s)\<lparr>src_packetQueue := (src_packetQueue (source_at app s))\<lparr>ch_buf := []\<rparr>, src_closed := True, hs_running := False\<rparr>"
  have "nd_lg demo_node = demo_lg" by (simp add: demo_node_def)
  then have "source_goroutine (nd_lg demo_node) 0 (source_at app s) = Ok ?src"
    using p by (simp add: source_goroutine_def Source_SendPacket_round_def demo_lg_def Let_def chan_recv_def headless_def)
  from step_segment [OF assms(2) refl this] show ?thesis by (intro exI [of _ ?src]) simp
qed

theorem closed_source_ends_stream_witness:
  "\<exists>app. node_run demo_node view_conf app False \<and> src_closed (source_at app 0) \<and> accFlvTags (app_queues app 0) = 1
     \<and> src_Key (source_at app 0) = ChannelKey (app_queues app 0)
     \<and> (\<forall>app'. queue_goroutine demo_node 0 app = Some (Ok app') \<longrightarrow> accFlvTags (app_queues app' 0) = 1)"
proof (rule demo_run, goal_cases)
  case (1 app app' x p evs evs')
  obtain src where c: "node_step demo_node (app', False) (Segmented 0) (set_source 0 src app', False)" "src_closed src"
    using demo_closes [OF 1(11)] 1(10) by force
  have "node_run demo_node view_conf app False" using 1(1) unfolding node_run_def view_app_def by blast
  from node_run_step [OF node_run_trace [OF 1(2), of view_conf, simplified, OF this] c(1)]
  have run: "node_run demo_node view_conf (set_source 0 src app') False" .
  have "arraylist (nd_wl demo_node)" by (simp add: queue_simps sal.arraylist_axioms)
  from closed_source_ends_stream [OF this run, of 0 0] run 1(7-9) c(2) show ?case
    by (intro exI [of _ "set_source 0 src app'"]) (simp add: set_source_def)
qed

end
