(* ===== verification/Hls_Audio.thy ===== *)
theory Hls_Audio
  imports Hls_Segmenter
begin

text \<open>
  Audio in the segmenter: the alignment of time stamps to the grid of frames, and the grouping of
  frames before they are multiplexed.
\<close>

subsection \<open>Alignment\<close>

definition near :: "u64 \<Rightarrow> u64 \<Rightarrow> bool" where
  "near a b \<longleftrightarrow> \<bar>int (unat a) - int (unat b)\<bar> \<le> 180"

lemma near_iff: "(if e \<ge> d then e - d else d - e) \<le> syncms * h264_default_hz \<longleftrightarrow> near e d"
  for d e :: u64
proof -
  have k: "syncms * h264_default_hz = 180" "unat (180 :: u64) = 180"
    by (simp_all add: syncms_def h264_default_hz_def)
  show ?thesis unfolding k(1)
  proof (cases "e \<ge> d")
    case True
    then have "unat d \<le> unat e" by (simp add: word_le_nat_alt)
    with True show "(if e \<ge> d then e - d else d - e) \<le> 180 \<longleftrightarrow> near e d"
      by (simp add: near_def word_le_nat_alt unat_sub k(2) del: of_nat_unat) linarith
  next
    case False
    then have "d \<ge> e" "unat e \<le> unat d" by (simp_all add: word_le_nat_alt)
    with False show "(if e \<ge> d then e - d else d - e) \<le> 180 \<longleftrightarrow> near e d"
      by (simp add: near_def word_le_nat_alt unat_sub k(2) del: of_nat_unat) linarith
  qed
qed

lemma align_eq:
  "align a dts inc = (let est = frameBase a + frameNum a * ucast inc in
     if near est dts then (a\<lparr>frameNum := frameNum a + 1\<rparr>, est)
     else (a\<lparr>frameNum := 1, frameBase := dts\<rparr>, dts))"
  by (simp only: align_def Let_def near_iff)

fun align_all :: "align_state \<Rightarrow> u32 \<Rightarrow> u64 list \<Rightarrow> u64 list" where
  "align_all a inc [] = []"
| "align_all a inc (d # ds) = (case align a d inc of (a, d) \<Rightarrow> d # align_all a inc ds)"

lemma align_all_near: "list_all2 near (align_all a inc ds) ds"
  by (induction ds arbitrary: a) (simp_all add: align_eq Let_def near_def)

lemma align_all_grid:
  assumes "\<forall>i < length ds. near (frameBase a + (frameNum a + word_of_nat i) * ucast inc) (ds ! i)"
  shows "align_all a inc ds = map (\<lambda>i. frameBase a + (frameNum a + word_of_nat i) * ucast inc) [0..<length ds]"
  using assms
proof (induction ds arbitrary: a)
  case (Cons d ds)
  let ?a = "a\<lparr>frameNum := frameNum a + 1\<rparr>"
  have d: "near (frameBase a + frameNum a * ucast inc) d" using Cons.prems by auto
  have "near (frameBase ?a + (frameNum ?a + word_of_nat i) * ucast inc) (ds ! i)" if "i < length ds" for i
    using Cons.prems [rule_format, of "Suc i"] that by (simp add: add.assoc)
  then have "align_all ?a inc ds
      = map (\<lambda>i. frameBase a + (frameNum a + word_of_nat (Suc i)) * ucast inc) [0..<length ds]"
    using Cons.IH [of ?a] by (simp add: add.assoc)
  with d show ?case
    by (simp add: align_eq upt_conv_Cons map_Suc_upt [symmetric] comp_def del: upt_Suc of_nat_Suc)
qed simp

subsection \<open>Grouping\<close>

text \<open>The specification: six frames at a time, under the time stamp of the first.\<close>

type_synonym aac_frame = "u64 \<times> byte list"

function aac_groups :: "aac_frame list \<Rightarrow> aac_frame list list" where
  "aac_groups fs = (if length fs < 6 then [] else take 6 fs # aac_groups (drop 6 fs))"
  by pat_completeness auto
termination
  by (relation "measure length") auto

declare aac_groups.simps [simp del]

definition aac_rest :: "aac_frame list \<Rightarrow> aac_frame list" where
  "aac_rest fs = drop (length fs div 6 * 6) fs"

definition group_packet :: "aac_frame list \<Rightarrow> av_Packet" where
  "group_packet g = audio_Packet (ucast (fst (hd g) div h264_default_hz)) (concat (map snd g))"

fun mux_groups :: "'x livego \<Rightarrow> aac_frame list list \<Rightarrow> ('x HlsSource, unit) act" where
  "mux_groups lg [] = ret_act ()"
| "mux_groups lg (g # gs) = bind_act (Mux lg (group_packet g)) (\<lambda>_. mux_groups lg gs)"

text \<open>The source, given frames one at a time as \<open>SendPacket\<close> does.\<close>

fun feed_audio :: "'x livego \<Rightarrow> aac_frame list \<Rightarrow> ('x HlsSource, unit) act" where
  "feed_audio lg [] = ret_act ()"
| "feed_audio lg ((pts, d) # fs) =
     bind_act (\<lambda>s. tsMux lg (audio_Packet 0 d) (s\<lparr>hs_pts := pts\<rparr>)) (\<lambda>_. feed_audio lg fs)"

text \<open>The audio cache as the list of the frames in it.\<close>

definition holds :: "audioCache \<Rightarrow> aac_frame list \<Rightarrow> bool" where
  "holds a fs \<longleftrightarrow> ac_num a = word_of_nat (length fs) \<and> length fs < 256
     \<and> (fs \<noteq> [] \<longrightarrow> ac_pts a = fst (hd fs) \<and> ac_buf a = concat (map snd fs)
         \<and> ac_offset a = int (length (ac_buf a)))"

lemma word_of_nat_byte_0: "n < 256 \<Longrightarrow> (word_of_nat n :: byte) = 0 \<longleftrightarrow> n = 0"
  by (auto simp: word_unat_eq_iff unat_of_nat)

lemma holds_Cache:
  assumes "holds a fs" "length fs < 255"
  shows "holds (fst (Cache a d pts)) (fs @ [(pts, d)])"
proof (cases fs)
  case Nil
  with assms show ?thesis by (simp add: holds_def Cache_def)
next
  case (Cons f gs)
  then have "ac_num a \<noteq> 0" using assms word_of_nat_byte_0 [of "length fs"] by (simp add: holds_def)
  with assms Cons show ?thesis by (auto simp: holds_def Cache_def Let_def)
qed

lemma holds_GetFrame: "holds (fst (GetFrame a)) []"
  by (simp add: GetFrame_def holds_def)

text \<open>Multiplexing neither reads nor changes the audio cache and the presentation time.\<close>

definition set_audio :: "audioCache option \<Rightarrow> u64 \<Rightarrow> 'x HlsSource \<Rightarrow> 'x HlsSource" where
  "set_audio c q s = s\<lparr>hs_pts := q, hs_cache := c\<rparr>"

lemma Mux_frame: "Mux lg p (set_audio c q s) = apfst (set_audio c q) (Mux lg p s)"
  by (simp add: Mux_def set_audio_def split: go.splits)

lemma mux_groups_frame: "mux_groups lg gs (set_audio c q s) = apfst (set_audio c q) (mux_groups lg gs s)"
proof (induction gs arbitrary: s)
  case Nil
  show ?case by (simp add: ret_act_def)
next
  case (Cons g gs)
  show ?case
    by (cases "Mux lg (group_packet g) s")
      (simp add: bind_act_def Mux_frame Cons.IH split: go.split)
qed

lemma set_audio_set_audio [simp]: "set_audio c q (set_audio c' q' s) = set_audio c q s"
  by (simp add: set_audio_def)

lemma hs_cache_set_audio [simp]: "hs_cache (set_audio c q s) = c"
  by (simp add: set_audio_def)

text \<open>The states the two descriptions reach agree up to these fields.\<close>

definition agree :: "'x HlsSource \<times> unit go \<Rightarrow> 'x HlsSource \<times> unit go \<Rightarrow> bool" where
  "agree r r' \<longleftrightarrow> apfst (set_audio None 0) r = apfst (set_audio None 0) r'"

lemma agreeD: "agree (s, r) (s', r') \<Longrightarrow> r = r' \<and> hs_btswriter s = hs_btswriter s' \<and> hs_lib s = hs_lib s'"
  by (cases s; cases s') (simp add: agree_def set_audio_def)

lemma agree_mux: "agree r (mux_groups lg gs (set_audio c q s)) \<longleftrightarrow> agree r (mux_groups lg gs s)"
  by (cases "mux_groups lg gs s") (simp add: mux_groups_frame agree_def)

lemma tsMux_audio:
  assumes "hs_cache s = Some a"
  shows "tsMux lg (audio_Packet 0 d) (s\<lparr>hs_pts := pts\<rparr>)
    = muxAudio lg 6 (set_audio (Some (fst (Cache a d pts))) pts s)"
  using assms by (simp add: tsMux_def audio_Packet_def set_audio_def cache_max_frames_def)

lemma muxAudio_below:
  assumes "holds a fs" "length fs < 6"
  shows "muxAudio lg 6 (set_audio (Some a) q s) = (set_audio (Some a) q s, Ok None)"
  using assms by (simp add: muxAudio_def CacheNum_def holds_def word_less_nat_alt unat_of_nat)

lemma muxAudio_full:
  assumes "holds a fs" "length fs = 6"
  shows "muxAudio lg 6 (set_audio (Some a) q s)
    = Mux lg (group_packet fs) (set_audio (Some (fst (GetFrame a))) q s)"
proof -
  have "fs \<noteq> []" using assms(2) by auto
  with assms show ?thesis
    by (simp add: muxAudio_def CacheNum_def holds_def GetFrame_def group_packet_def set_audio_def)
qed

lemma aac_groups_full: "length g = 6 \<Longrightarrow> aac_groups (g @ fs) = g # aac_groups fs"
  by (subst aac_groups.simps) simp

lemma aac_rest_full: "length g = 6 \<Longrightarrow> aac_rest (g @ fs) = aac_rest fs"
  by (simp add: aac_rest_def div_add_self1)

lemma feed_audio_groups:
  assumes "hs_cache s = Some a" "holds a pend" "length pend < 6"
  shows "agree (feed_audio lg fs s) (mux_groups lg (aac_groups (pend @ fs)) s)
    \<and> (snd (feed_audio lg fs s) = Ok ()
        \<longrightarrow> (\<exists>a'. hs_cache (fst (feed_audio lg fs s)) = Some a' \<and> holds a' (aac_rest (pend @ fs))))"
  using assms
proof (induction fs arbitrary: s a pend)
  case Nil
  then show ?case by (simp add: aac_groups.simps [of pend] aac_rest_def agree_def ret_act_def)
next
  case (Cons f fs)
  obtain pts d where f: "f = (pts, d)" by (cases f)
  let ?a = "fst (Cache a d pts)"
  have h: "holds ?a (pend @ [f])" using holds_Cache Cons.prems f by simp
  show ?case
  proof (cases "length pend = 5")
    case False
    then have l: "length (pend @ [f]) < 6" using Cons.prems by simp
    have "feed_audio lg (f # fs) s = feed_audio lg fs (set_audio (Some ?a) pts s)"
      using Cons.prems(1) muxAudio_below [OF h l, of lg pts s] by (simp add: f bind_act_def tsMux_audio)
    with Cons.IH [OF _ h l, of "set_audio (Some ?a) pts s"] show ?thesis by (simp add: agree_mux)
  next
    case True
    then have l: "length (pend @ [f]) = 6" by simp
    have g: "aac_groups (pend @ f # fs) = (pend @ [f]) # aac_groups fs"
        "aac_rest (pend @ f # fs) = aac_rest fs"
      using aac_groups_full [OF l, of fs] aac_rest_full [OF l, of fs] by simp_all
    let ?b = "fst (GetFrame ?a)"
    obtain s1 r where m: "Mux lg (group_packet (pend @ [f])) s = (s1, r)" by force
    have feed: "feed_audio lg (f # fs) s
        = bind_act (Mux lg (group_packet (pend @ [f]))) (\<lambda>_. feed_audio lg fs) (set_audio (Some ?b) pts s)"
      using Cons.prems(1) muxAudio_full [OF h l, of lg pts s] by (simp add: f bind_act_def tsMux_audio)
    show ?thesis
    proof (cases r)
      case (Ok e)
      have "feed_audio lg (f # fs) s = feed_audio lg fs (set_audio (Some ?b) pts s1)"
        using m Ok by (simp add: feed bind_act_def Mux_frame)
      moreover have "mux_groups lg (aac_groups (pend @ f # fs)) s = mux_groups lg (aac_groups fs) s1"
        using m Ok by (simp add: g bind_act_def)
      ultimately show ?thesis
        using Cons.IH [OF _ holds_GetFrame, of "set_audio (Some ?b) pts s1" ?a] by (simp add: g(2) agree_mux)
    qed (use m in \<open>simp_all add: feed g bind_act_def Mux_frame agree_def\<close>)
  qed
qed

subsection \<open>Properties\<close>

text \<open>
  C30: Alignment of audio time stamps. Whatever the time stamps, none is moved by more than two
  milliseconds; and as long as the frames stay within two milliseconds of the grid that starts at
  the last resynchronisation, they come out exactly on the grid, in 64-bit arithmetic.
\<close>

theorem audio_alignment:
  fixes a :: align_state and inc :: u32 and ds :: "u64 list"
  shows "list_all2 near (align_all a inc ds) ds
    \<and> ((\<forall>i < length ds. near (frameBase a + (frameNum a + word_of_nat i) * ucast inc) (ds ! i))
       \<longrightarrow> align_all a inc ds = map (\<lambda>i. frameBase a + (frameNum a + word_of_nat i) * ucast inc) [0..<length ds])"
  using align_all_near align_all_grid by blast

theorem audio_alignment_witness:
  "align_all \<lparr>frameNum = 1, frameBase = 9000\<rparr> 2089 [11070, 13230, 15210] = [11089, 13178, 15267]"
proof -
  have "\<forall>i < length [11070, 13230, 15210 :: u64].
      near (9000 + (1 + word_of_nat i) * ucast (2089 :: u32)) ([11070, 13230, 15210] ! i)"
    by (auto simp: near_def less_Suc_eq)
  with audio_alignment [of "\<lparr>frameNum = 1, frameBase = 9000\<rparr>" 2089 "[11070, 13230, 15210]"] show ?thesis
    by simp
qed

text \<open>
  C18: Grouping of audio frames. A source whose audio cache is empty and that is given frames one
  by one does the same as multiplexing them in groups of six, each group joined into one packet
  under the time stamp of its first frame: the output, the state of the multiplexer and a panic
  of the library are the same. If all goes well, the cache holds the up to five remaining frames.
\<close>

theorem audio_grouping:
  assumes "hs_cache s = Some a" "ac_num a = 0"
  shows "agree (feed_audio lg fs s) (mux_groups lg (aac_groups fs) s)
    \<and> (snd (feed_audio lg fs s) = Ok ()
        \<longrightarrow> (\<exists>a'. hs_cache (fst (feed_audio lg fs s)) = Some a' \<and> holds a' (aac_rest fs)))"
  using feed_audio_groups [OF assms(1), of "[]" lg fs] assms(2) by (simp add: holds_def)

theorem audio_grouping_witness:
  "\<exists>s a. feed_audio demo_lg (map (\<lambda>i. (word_of_nat i, [word_of_nat i])) [0..<7])
        ((NewSource demo_lg 0 ''live/a'')\<lparr>hs_btswriter := Some []\<rparr>) = (s, Ok ())
     \<and> hs_btswriter s = Some [71, 0, 1, 2, 3, 4, 5] \<and> hs_cache s = Some a \<and> holds a [(6, [6])]"
proof -
  let ?fs = "map (\<lambda>i. (word_of_nat i, [word_of_nat i])) [0..<7] :: aac_frame list"
  let ?s = "(NewSource demo_lg 0 ''live/a'')\<lparr>hs_btswriter := Some []\<rparr>"
  have fs: "?fs = [(0, [0]), (1, [1]), (2, [2]), (3, [3]), (4, [4]), (5, [5]), (6, [6])]"
    by (simp add: upt_rec)
  have g: "aac_groups ?fs = [take 6 ?fs]" "aac_rest ?fs = [(6, [6])]"
    unfolding fs by (simp_all add: aac_groups.simps aac_rest_def)
  have "agree (feed_audio demo_lg ?fs ?s) (mux_groups demo_lg (aac_groups ?fs) ?s)
    \<and> (snd (feed_audio demo_lg ?fs ?s) = Ok ()
        \<longrightarrow> (\<exists>a'. hs_cache (fst (feed_audio demo_lg ?fs ?s)) = Some a' \<and> holds a' (aac_rest ?fs)))"
    by (rule audio_grouping [of _ newAudioCache]) (simp_all add: NewSource_def newAudioCache_def)
  moreover obtain s' where "mux_groups demo_lg (aac_groups ?fs) ?s = (s', Ok ())"
      "hs_btswriter s' = Some [71, 0, 1, 2, 3, 4, 5]"
    unfolding g(1) unfolding fs
    by (simp add: bind_act_def ret_act_def Mux_def demo_lg_def buf_write_def group_packet_def audio_Packet_def NewSource_def)
  ultimately show ?thesis
    unfolding g(2) by (cases "feed_audio demo_lg ?fs ?s") (auto dest: agreeD)
qed

end
