(* ===== verification/Http_Client.thy ===== *)
theory Http_Client
  imports Flv_Reassembly
begin

text \<open>
  The HTTP-FLV test client (\<open>src/http-client.go\<close>): it reads a stream tag by tag and reports the amount
  of data and the delay. The body of the response is the list of bytes that arrive until the
  connection ends.
\<close>

subsection \<open>Reading\<close>

record TagHeader =
  th_TagType :: byte
  th_DataSize :: u32
  th_Timestamp :: u32

text \<open>\<open>io.ReadFull\<close>: all bytes that were asked for, or an error.\<close>

definition ReadFull :: "nat \<Rightarrow> byte list \<Rightarrow> string + byte list \<times> byte list" where
  "ReadFull n body = (if n \<le> length body then Inr (take n body, drop n body)
     else Inl (if body = [] then ''EOF'' else ''unexpected EOF''))"

definition then_read :: "string + byte list \<times> byte list \<Rightarrow> (byte list \<Rightarrow> byte list \<Rightarrow> string + 'a) \<Rightarrow> string + 'a" where
  "then_read r f = (case r of Inl e \<Rightarrow> Inl e | Inr (b, rest) \<Rightarrow> f b rest)"

text \<open>The results that \<open>ReadTag\<close> returns beside an error are not used by its caller.\<close>

definition ReadTag :: "byte list \<Rightarrow> string + TagHeader \<times> byte list \<times> byte list" where
  "ReadTag body =
     then_read (ReadFull 1 body) (\<lambda>b body.
     let header = \<lparr>th_TagType = b ! 0, th_DataSize = 0, th_Timestamp = 0\<rparr> in
     then_read (ReadFull 3 body) (\<lambda>b body.
     let header = header\<lparr>th_DataSize := be24 (b ! 0) (b ! 1) (b ! 2)\<rparr> in
     then_read (ReadFull 4 body) (\<lambda>b body.
     let header = header\<lparr>th_Timestamp := flv_ts (b ! 0) (b ! 1) (b ! 2) (b ! 3)\<rparr> in
     then_read (ReadFull 3 body) (\<lambda>_ body.
     then_read (ReadFull (unat (th_DataSize header)) body) (\<lambda>dat body.
     then_read (ReadFull 4 body) (\<lambda>_ body.
       Inr (header, dat, body)))))))"

definition client_getDelay :: "TagHeader \<Rightarrow> int \<Rightarrow> int \<Rightarrow> int" where
  "client_getDelay header startAt now =
     (let lag = now - (startAt + int (unat (th_Timestamp header))) in if lag < 0 then 0 else lag)"

lemma ReadTag_shorter: "ReadTag body = Inr (h, dat, rest) \<Longrightarrow> length rest < length body"
  by (auto simp: ReadTag_def then_read_def ReadFull_def Let_def split: if_splits)

text \<open>
  The loop of \<open>httpFlv\<close>: \<open>nows\<close> are the readings of the clock, a report is the total in kilobytes
  with the current delay.
\<close>

function tag_loop :: "(nat \<Rightarrow> int) \<Rightarrow> int \<Rightarrow> nat \<Rightarrow> nat \<Rightarrow> int \<Rightarrow> byte list \<Rightarrow> ((TagHeader \<times> byte list) list \<times> (int \<times> int) list) go" where
  "tag_loop nows startAt interval i kb body =
     (case ReadTag body of
        Inl e \<Rightarrow> Ok ([], [])
      | Inr (header, dat, rest) \<Rightarrow>
        let lag = client_getDelay header startAt (nows i);
            kb = kb + int (length dat) div 1024 in
        if interval = 0 then Panic DivideByZero
        else andthen (tag_loop nows startAt interval (i + 1) kb rest) (\<lambda>(tags, reports).
          Ok ((header, dat) # tags, if i mod interval = 0 then (kb, lag) # reports else reports)))"
  by pat_completeness auto
termination
  by (relation "measure (\<lambda>(nows, st, iv, i, t, body). length body)") (auto dest!: ReadTag_shorter)

declare tag_loop.simps [simp del]

text \<open>\<open>Get\<close> and \<open>UpdatePublishers\<close> of the client repeat those of \<open>utils/util.go\<close>, for a fixed address.\<close>

definition client_Get :: "http_result \<Rightarrow> (string \<times> json) list option go" where
  "client_Get r = Get r"

definition client_UpdatePublishers :: "http_result \<Rightarrow> (u32 \<rightharpoonup> Publisher) go" where
  "client_UpdatePublishers r = UpdatePublishers r"

text \<open>\<open>response\<close> is the body of the answer to the request, \<open>None\<close> if there was none.\<close>

definition httpFlv :: "http_result \<Rightarrow> byte list option \<Rightarrow> (nat \<Rightarrow> int) \<Rightarrow> nat
    \<Rightarrow> ((TagHeader \<times> byte list) list \<times> (int \<times> int) list) go" where
  "httpFlv publishers response nows interval =
     andthen (client_UpdatePublishers publishers) (\<lambda>pubs.
     andthen (nonnil (pubs 1020304)) (\<lambda>pub.
     case response of
       None \<Rightarrow> Ok ([], [])
     | Some body \<Rightarrow>
       (case ReadFull HEADER_LEN body of
          Inl e \<Rightarrow> Ok ([], [])
        | Inr (flvHeader, body) \<Rightarrow>
          if flvHeader ! 0 \<noteq> 70 \<or> flvHeader ! 1 \<noteq> 76 \<or> flvHeader ! 2 \<noteq> 86 then Ok ([], [])
          else tag_loop nows (StartTime pub) interval 0 0 body)))"

subsection \<open>Tags\<close>

text \<open>What a tag is to the client: its header fields and its data.\<close>

definition tag_view :: "byte list \<Rightarrow> TagHeader \<times> byte list" where
  "tag_view t = (\<lparr>th_TagType = t ! 0, th_DataSize = be24 (t ! 1) (t ! 2) (t ! 3),
     th_Timestamp = flv_ts (t ! 4) (t ! 5) (t ! 6) (t ! 7)\<rparr>, drop 11 t)"

lemma ReadTag_tag:
  assumes "tag_ok t" "length z = 4"
  shows "ReadTag (t @ z @ rest) = Inr (fst (tag_view t), snd (tag_view t), rest)"
proof -
  have len: "11 \<le> length t" "unat (be24 (t ! 1) (t ! 2) (t ! 3)) = length t - 11" using assms(1) by (auto simp: tag_ok_def)
  obtain t0 t1 t2 t3 t4 t5 t6 t7 t8 t9 t10 dat where t: "t = t0 # t1 # t2 # t3 # t4 # t5 # t6 # t7 # t8 # t9 # t10 # dat"
    using len(1) by (auto simp: numeral_eq_Suc Suc_le_length_iff)
  have n: "unat (be24 t1 t2 t3) = length dat" using len(2) by (simp add: t)
  then show ?thesis
    by (simp add: ReadTag_def Let_def then_read_def ReadFull_def assms(2) tag_view_def t)
qed

lemma ReadTag_end: "ReadTag [] = Inl ''EOF''"
  by (simp add: ReadTag_def then_read_def ReadFull_def)

lemma tag_loop_tags:
  assumes "\<forall>t \<in> set ts. tag_ok t" "interval \<noteq> 0"
  shows "\<exists>reports. tag_loop nows st interval i kb (concat (map (\<lambda>t. t @ put32 (f t)) ts)) = Ok (map tag_view ts, reports)"
  using assms(1)
proof (induction ts arbitrary: i kb)
  case Nil
  then show ?case by (simp add: tag_loop.simps ReadTag_end)
next
  case (Cons t ts)
  let ?rest = "concat (map (\<lambda>t. t @ put32 (f t)) ts)"
  have r: "ReadTag (t @ put32 (f t) @ ?rest) = Inr (fst (tag_view t), snd (tag_view t), ?rest)"
    using Cons.prems by (intro ReadTag_tag) simp_all
  obtain reports where "tag_loop nows st interval (i + 1) (kb + int (length (snd (tag_view t))) div 1024) ?rest
      = Ok (map tag_view ts, reports)"
    using Cons.IH Cons.prems by fastforce
  with r assms(2) show ?case
    by (subst tag_loop.simps) (simp add: Let_def)
qed

text \<open>The total that the client reports after each tag.\<close>

fun kb_totals :: "int \<Rightarrow> (TagHeader \<times> byte list) list \<Rightarrow> int list" where
  "kb_totals kb [] = []"
| "kb_totals kb ((h, d) # ts) = (let kb = kb + int (length d) div 1024 in kb # kb_totals kb ts)"

lemma tag_loop_reports:
  "tag_loop nows st interval i kb body = Ok (tags, reports)
    \<Longrightarrow> set (map fst reports) \<subseteq> set (kb_totals kb tags)"
proof (induction nows st interval i kb body arbitrary: tags reports rule: tag_loop.induct)
  case (1 nows st interval i kb body)
  show ?case
  proof (cases "ReadTag body")
    case (Inl e)
    with 1 show ?thesis by (auto simp: tag_loop.simps [of nows st interval i kb body])
  next
    case (Inr hdr)
    obtain h d rest where hdr: "hdr = (h, d, rest)" by (cases hdr) auto
    let ?kb = "kb + int (length d) div 1024"
    have iv: "interval \<noteq> 0"
      using "1.prems" Inr hdr by (auto simp: tag_loop.simps [of nows st interval i kb body] Let_def split: if_splits)
    then obtain tags' reports' where r: "tag_loop nows st interval (i + 1) ?kb rest = Ok (tags', reports')"
        "tags = (h, d) # tags'" "reports = reports' \<or> (\<exists>lag. reports = (?kb, lag) # reports')"
      using "1.prems" Inr hdr
      by (auto simp: tag_loop.simps [of nows st interval i kb body] andthen_eq_Ok Let_def split: if_splits)
    have "set (map fst reports') \<subseteq> set (kb_totals ?kb tags')"
      using "1.IH" [OF Inr hdr [symmetric] refl refl refl iv r(1)] by simp
    with r(2) show ?thesis using r(3) by (elim disjE exE) (simp_all add: Let_def subset_insertI2)
  qed
qed

lemma ReadTag_size: "ReadTag body = Inr (h, d, rest) \<Longrightarrow> length d + length rest \<le> length body"
  by (auto simp: ReadTag_def then_read_def ReadFull_def Let_def split: if_splits)

lemma tag_loop_size:
  "tag_loop nows st interval i kb body = Ok (tags, reports) \<Longrightarrow> sum_list (map (length \<circ> snd) tags) \<le> length body"
proof (induction tags arbitrary: i kb body reports)
  case (Cons x tags)
  obtain h d rest where r: "ReadTag body = Inr (h, d, rest)"
    using Cons.prems by (cases "ReadTag body") (auto simp: tag_loop.simps [of nows st interval i kb body])
  then obtain reports' where "tag_loop nows st interval (i + 1) (kb + int (length d) div 1024) rest = Ok (tags, reports')" "x = (h, d)"
    using Cons.prems
    by (auto simp: tag_loop.simps [of nows st interval i kb body] andthen_eq_Ok Let_def split: if_splits)
  with Cons.IH [OF this(1)] ReadTag_size [OF r] show ?case by simp
qed simp

lemma kb_totals_bound:
  "k \<in> set (kb_totals kb ts) \<Longrightarrow> 1024 * (k - kb) \<le> int (sum_list (map (length \<circ> snd) ts)) \<and> kb \<le> k"
proof (induction kb ts rule: kb_totals.induct)
  case (2 kb h d ts)
  have "1024 * (int (length d) div 1024) \<le> int (length d)" by simp
  moreover from "2.prems" have "k = kb + int (length d) div 1024 \<or> k \<in> set (kb_totals (kb + int (length d) div 1024) ts)"
    by (auto simp: Let_def)
  ultimately show ?case using "2.IH" [OF refl] by (auto simp: algebra_simps)
qed simp

subsection \<open>Properties\<close>

definition demo_listing :: http_result where
  "demo_listing = Body (JObj [(''data'', JObj [(''publishers'', JArr [JObj
     [(''ssrc'', JNum 1020304), (''key'', JStr ''live/movie''), (''url'', JStr ''''), (''start_time'', JNum 500),
      (''stream_id'', JNum 1), (''video_total_bytes'', JNum 0), (''video_speed'', JNum 0),
      (''audio_total_bytes'', JNum 0), (''audio_speed'', JNum 0)]])])])"

lemma demo_listing_pub: "\<exists>pubs pub. UpdatePublishers demo_listing = Ok pubs \<and> pubs 1020304 = Some pub \<and> StartTime pub = 500"
  by (simp add: UpdatePublishers_def Get_def demo_listing_def as_map_def jfield_def as_slice_def read_publisher_def
      as_float64_def as_string_def truncate_float_def)

text \<open>
  C15: The client reads what the server writes. Whatever tags a writer of the server has been given,
  once its sender has put them on the response of a working connection, the client that reads
  this response finds exactly these tags, in order, each with its type, size, time stamp and
  data, and stops at the end.
\<close>

theorem client_reads_back:
  assumes "NewFLVWriter uid a t u \<lparr>hw_out = [], hw_broken = False\<rparr> = Ok w"
    and "\<forall>p \<in> set ps. slice_ok p \<and> tag_ok (bytes p)"
    and "client_UpdatePublishers listing = Ok pubs" "pubs 1020304 = Some pub" "interval \<noteq> 0"
  shows "\<exists>w' reports. SendPacket_rounds (length ps) (w\<lparr>packetQueue := (packetQueue w)\<lparr>ch_buf := ps\<rparr>\<rparr>) = Ok (w', None)
    \<and> httpFlv listing (Some (hw_out (ctx w'))) nows interval = Ok (map (tag_view \<circ> bytes) ps, reports)"
proof -
  have "\<forall>p \<in> set ps. slice_ok p \<and> 11 \<le> sl_len p"
    using assms(2) by (metis length_bytes tag_ok_def)
  then obtain w' where w': "SendPacket_rounds (length ps) (w\<lparr>packetQueue := (packetQueue w)\<lparr>ch_buf := ps\<rparr>\<rparr>) = Ok (w', None)"
      "hw_out (ctx w') = flv_file_header @ [0, 0, 0, 0] @ concat (map framed ps)"
    using client_output [OF assms(1)] by blast
  have "concat (map framed ps) = concat (map (\<lambda>t. t @ put32 (word_of_nat (length t))) (map bytes ps))"
    using assms(2) by (auto simp: framed_def comp_def intro!: arg_cong [of _ _ concat])
  moreover obtain reports where "tag_loop nows (StartTime pub) interval 0 0
      (concat (map (\<lambda>t. t @ put32 (word_of_nat (length t))) (map bytes ps))) = Ok (map tag_view (map bytes ps), reports)"
    using tag_loop_tags [of "map bytes ps" interval nows "StartTime pub" 0 0 "\<lambda>t. word_of_nat (length t)"] assms(2,5)
    by auto
  ultimately have "httpFlv listing (Some (hw_out (ctx w'))) nows interval = Ok (map (tag_view \<circ> bytes) ps, reports)"
    using assms(3,4) by (simp add: httpFlv_def nonnil_def w'(2) ReadFull_def HEADER_LEN_def flv_file_header_def)
  with w'(1) show ?thesis by blast
qed

theorem client_reads_back_witness:
  "\<exists>w' reports. SendPacket_rounds 1 (demo_writer\<lparr>packetQueue := (packetQueue demo_writer)\<lparr>ch_buf := [of_bytes short_tag]\<rparr>\<rparr>) = Ok (w', None)
    \<and> httpFlv demo_listing (Some (hw_out (ctx w'))) (\<lambda>_. 0) 100 = Ok ([tag_view short_tag], reports)"
proof -
  obtain pubs pub where "client_UpdatePublishers demo_listing = Ok pubs" "pubs 1020304 = Some pub"
    using demo_listing_pub by (auto simp: client_UpdatePublishers_def)
  moreover have "tag_ok short_tag" by (simp add: tag_ok_def short_tag_def be24_small)
  ultimately show ?thesis
    using client_reads_back [OF demo_created, of "[of_bytes short_tag]" demo_listing pubs pub 100 "\<lambda>_. 0"] by simp
qed

text \<open>
  The client's totals. Every total that the client reports is a lower bound of the data it has
  received so far: each tag counts with its whole kilobytes only.
\<close>

theorem client_report_bound:
  assumes "httpFlv listing (Some body) nows interval = Ok (tags, reports)" "(k, lag) \<in> set reports"
  shows "0 \<le> k \<and> 1024 * k \<le> int (sum_list (map (length \<circ> snd) tags)) \<and> sum_list (map (length \<circ> snd) tags) \<le> length body"
proof -
  have nonempty: "reports \<noteq> []" using assms(2) by auto
  obtain st h rest where r: "ReadFull HEADER_LEN body = Inr (h, rest)"
      "tag_loop nows st interval 0 0 rest = Ok (tags, reports)"
  proof (cases "ReadFull HEADER_LEN body")
    case (Inl e)
    with assms(1) nonempty show thesis by (auto simp: httpFlv_def andthen_eq_Ok)
  next
    case (Inr hr)
    then obtain h rest where "hr = (h, rest)" by (cases hr)
    with Inr assms(1) nonempty that show thesis by (auto simp: httpFlv_def andthen_eq_Ok split: if_splits)
  qed
  have "k \<in> set (kb_totals 0 tags)" using tag_loop_reports [OF r(2)] assms(2) by force
  from kb_totals_bound [OF this] have "0 \<le> k \<and> 1024 * k \<le> int (sum_list (map (length \<circ> snd) tags))" by simp
  moreover have "sum_list (map (length \<circ> snd) tags) \<le> length rest" by (rule tag_loop_size [OF r(2)])
  moreover have "length rest \<le> length body" using r(1) by (auto simp: ReadFull_def split: if_splits)
  ultimately show ?thesis by simp
qed

definition demo_big_tag :: "byte list" where
  "demo_big_tag = [9, 0, 4, 0, 0, 0, 0, 0, 0, 0, 0] @ replicate 1024 0"

theorem client_report_bound_witness:
  "\<exists>tags reports. httpFlv demo_listing (Some (flv_file_header @ [0, 0, 0, 0] @ demo_big_tag @ put32 1035)) (\<lambda>_. 900) 100
       = Ok (tags, reports) \<and> (1, 400) \<in> set reports \<and> 1024 \<le> sum_list (map (length \<circ> snd) tags)"
proof -
  obtain pubs pub where p: "client_UpdatePublishers demo_listing = Ok pubs" "pubs 1020304 = Some pub" "StartTime pub = 500"
    using demo_listing_pub by (auto simp: client_UpdatePublishers_def)
  have t: "tag_ok demo_big_tag" by (simp add: tag_ok_def demo_big_tag_def unat_be24)
  have "ReadTag (demo_big_tag @ put32 1035 @ []) = Inr (fst (tag_view demo_big_tag), snd (tag_view demo_big_tag), [])"
    by (rule ReadTag_tag [OF t]) simp
  then have "tag_loop (\<lambda>_. 900) 500 100 0 0 (demo_big_tag @ put32 1035)
      = Ok ([tag_view demo_big_tag], [(1, 400)])"
    by (subst tag_loop.simps, subst tag_loop.simps)
      (simp add: ReadTag_end Let_def tag_view_def demo_big_tag_def client_getDelay_def flv_ts_def)
  then have h: "httpFlv demo_listing (Some (flv_file_header @ [0, 0, 0, 0] @ demo_big_tag @ put32 1035)) (\<lambda>_. 900) 100
      = Ok ([tag_view demo_big_tag], [(1, 400)])"
    using p by (simp add: httpFlv_def nonnil_def ReadFull_def HEADER_LEN_def flv_file_header_def)
  from client_report_bound [OF h, of 1 400] h show ?thesis by auto
qed

end
