(* ===== verification/Config_Init.thy ===== *)
theory Config_Init
  imports Config Go_Strings
begin

text \<open>
  How the configuration comes about (\<open>src/configure/config.go\<close>): the compiled-in values, then the file
  \<open>conf.yaml\<close>, then the command line. The YAML library and the operating system are parameters, as
  are Go's readers of numbers; the command-line parser is that of Go's package \<open>flag\<close>, as far as the
  program uses it.
\<close>

subsection \<open>Flags\<close>

datatype flag_value = FBool bool | FInt int | FFloat rat | FStr string

text \<open>
  The flags that \<open>init\<close> registers: the field behind each name, read and written through a value of its
  type. Registration stores the default, which is the value the field already has.
\<close>

definition get_flag :: "string \<Rightarrow> Config \<Rightarrow> flag_value option" where
  "get_flag name c =
     (if name = ''h'' then Some (FBool (h_flag c))
      else if name = ''udp_addr'' then Some (FStr (UDP_SOCKET_ADDR c))
      else if name = ''api_addr'' then Some (FStr (API_ADDR c))
      else if name = ''quic_addr'' then Some (FStr (QUIC_ADDR c))
      else if name = ''padding_size'' then Some (FInt (RTP_QUEUE_PADDING_WINDOW_SIZE c))
      else if name = ''disable_quic'' then Some (FBool (DISABLE_QUIC c))
      else if name = ''chan_size'' then Some (FInt (RTP_QUEUE_CHAN_SIZE c))
      else if name = ''record_dir'' then Some (FStr (RECORD_DIR c))
      else if name = ''pack_loss'' then Some (FFloat (PACKET_LOSS_RATE c))
      else if name = ''flv_addr'' then Some (FStr (HTTP_FLV_ADDR c))
      else if name = ''enable_hls'' then Some (FBool (ENABLE_HLS c))
      else if name = ''hls_addr'' then Some (FStr (HLS_ADDR c))
      else if name = ''enable_record'' then Some (FBool (ENABLE_RECORD c))
      else if name = ''cert_file'' then Some (FStr (CERT_FILE c))
      else if name = ''key_file'' then Some (FStr (KEY_FILE c))
      else if name = ''log_level'' then Some (FStr (LOG_LEVEL c))
      else if name = ''enable_log_file'' then Some (FBool (ENABLE_LOG_FILE c))
      else if name = ''protect'' then Some (FBool (PROTECT c))
      else None)"

definition set_flag :: "string \<Rightarrow> flag_value \<Rightarrow> Config \<Rightarrow> Config" where
  "set_flag name v c = (case v of
     FBool b \<Rightarrow>
       (if name = ''h'' then c\<lparr>h_flag := b\<rparr>
        else if name = ''disable_quic'' then c\<lparr>DISABLE_QUIC := b\<rparr>
        else if name = ''enable_hls'' then c\<lparr>ENABLE_HLS := b\<rparr>
        else if name = ''enable_record'' then c\<lparr>ENABLE_RECORD := b\<rparr>
        else if name = ''enable_log_file'' then c\<lparr>ENABLE_LOG_FILE := b\<rparr>
        else if name = ''protect'' then c\<lparr>PROTECT := b\<rparr> else c)
   | FInt i \<Rightarrow>
       (if name = ''padding_size'' then c\<lparr>RTP_QUEUE_PADDING_WINDOW_SIZE := i\<rparr>
        else if name = ''chan_size'' then c\<lparr>RTP_QUEUE_CHAN_SIZE := i\<rparr> else c)
   | FFloat x \<Rightarrow> (if name = ''pack_loss'' then c\<lparr>PACKET_LOSS_RATE := x\<rparr> else c)
   | FStr s \<Rightarrow>
       (if name = ''udp_addr'' then c\<lparr>UDP_SOCKET_ADDR := s\<rparr>
        else if name = ''api_addr'' then c\<lparr>API_ADDR := s\<rparr>
        else if name = ''quic_addr'' then c\<lparr>QUIC_ADDR := s\<rparr>
        else if name = ''record_dir'' then c\<lparr>RECORD_DIR := s\<rparr>
        else if name = ''flv_addr'' then c\<lparr>HTTP_FLV_ADDR := s\<rparr>
        else if name = ''hls_addr'' then c\<lparr>HLS_ADDR := s\<rparr>
        else if name = ''cert_file'' then c\<lparr>CERT_FILE := s\<rparr>
        else if name = ''key_file'' then c\<lparr>KEY_FILE := s\<rparr>
        else if name = ''log_level'' then c\<lparr>LOG_LEVEL := s\<rparr> else c))"

subsection \<open>The command line\<close>

text \<open>\<open>strconv.ParseBool\<close>; the readers of integers and fractions are parameters.\<close>

definition ParseBool :: "string \<Rightarrow> bool option" where
  "ParseBool s =
     (if s \<in> {''1'', ''t'', ''T'', ''TRUE'', ''true'', ''True''} then Some True
      else if s \<in> {''0'', ''f'', ''F'', ''FALSE'', ''false'', ''False''} then Some False
      else None)"

record strconv =
  ParseInt :: "string \<Rightarrow> int option"
  ParseFloat :: "string \<Rightarrow> rat option"

definition read_value :: "strconv \<Rightarrow> flag_value \<Rightarrow> string \<Rightarrow> flag_value option" where
  "read_value sc kind s = (case kind of
     FBool _ \<Rightarrow> map_option FBool (ParseBool s)
   | FInt _ \<Rightarrow> map_option FInt (ParseInt sc s)
   | FFloat _ \<Rightarrow> map_option FFloat (ParseFloat sc s)
   | FStr _ \<Rightarrow> Some (FStr s))"

text \<open>One argument: the flags end, the program exits with a status, or a flag is set.\<close>

datatype flag_step = FlagsEnd | FlagExit int | FlagSet string flag_value "string list"

definition set_step :: "strconv \<Rightarrow> string \<Rightarrow> flag_value \<Rightarrow> string \<Rightarrow> string list \<Rightarrow> flag_step" where
  "set_step sc name kind value rest =
     (case read_value sc kind value of None \<Rightarrow> FlagExit 2 | Some v \<Rightarrow> FlagSet name v rest)"

text \<open>A flag by its name, with what follows the name in the argument, and the arguments after it.\<close>

definition set_named :: "strconv \<Rightarrow> string \<Rightarrow> string \<Rightarrow> string list \<Rightarrow> flag_step" where
  "set_named sc name tail rest = (case get_flag name Conf of
     None \<Rightarrow> FlagExit (if name = ''help'' then 0 else 2)
   | Some kind \<Rightarrow>
     if tail \<noteq> [] then set_step sc name kind (tl tail) rest
     else (case kind of
         FBool _ \<Rightarrow> FlagSet name (FBool True) rest
       | _ \<Rightarrow> (case rest of [] \<Rightarrow> FlagExit 2 | value # rest \<Rightarrow> set_step sc name kind value rest)))"

definition parseOne :: "strconv \<Rightarrow> string list \<Rightarrow> flag_step" where
  "parseOne sc args = (case args of
     [] \<Rightarrow> FlagsEnd
   | s # rest \<Rightarrow>
     if length s < 2 \<or> s ! 0 \<noteq> CHR ''-'' then FlagsEnd
     else if s = ''--'' then FlagsEnd
     else
       let body = (if s ! 1 = CHR ''-'' then drop 2 s else drop 1 s) in
       if body = [] \<or> body ! 0 = CHR ''-'' \<or> body ! 0 = CHR ''='' then FlagExit 2
       else set_named sc (hd body # takeWhile (\<lambda>x. x \<noteq> CHR ''='') (tl body))
              (dropWhile (\<lambda>x. x \<noteq> CHR ''='') (tl body)) rest)"

lemma set_step_shorter: "set_step sc name kind s rest = FlagSet n v r \<Longrightarrow> r = rest"
  by (simp add: set_step_def split: option.splits)

lemma set_named_shorter: "set_named sc name tail rest = FlagSet n v r \<Longrightarrow> length r \<le> length rest"
  by (auto simp: set_named_def dest!: set_step_shorter split: option.splits if_splits flag_value.splits list.splits)

lemma parseOne_shorter: "parseOne sc args = FlagSet name v rest \<Longrightarrow> length rest < length args"
  by (cases args) (auto simp: parseOne_def Let_def dest!: set_named_shorter split: if_splits)

text \<open>\<open>flag.Parse\<close>: the configuration, or the status with which the program exits.\<close>

function flag_Parse :: "strconv \<Rightarrow> string list \<Rightarrow> Config \<Rightarrow> int + Config" where
  "flag_Parse sc args c = (case parseOne sc args of
     FlagsEnd \<Rightarrow> Inr c
   | FlagExit code \<Rightarrow> Inl code
   | FlagSet name v rest \<Rightarrow> flag_Parse sc rest (set_flag name v c))"
  by pat_completeness auto
termination
  by (relation "measure (\<lambda>(sc, args, c). length args)") (auto dest: parseOne_shorter)

declare flag_Parse.simps [simp del]

subsection \<open>The configuration file\<close>

datatype stat_result = Exists | NotExist | StatError string

record 'w Os =
  os_ReadFile :: "string \<Rightarrow> 'w \<Rightarrow> string + byte list"
  os_WriteFile :: "string \<Rightarrow> byte list \<Rightarrow> 'w \<Rightarrow> string option \<times> 'w"
  os_OpenFile :: "string \<Rightarrow> 'w \<Rightarrow> string option \<times> 'w"
  os_Stat :: "string \<Rightarrow> 'w \<Rightarrow> stat_result"
  os_Mkdir :: "string \<Rightarrow> 'w \<Rightarrow> string option \<times> 'w"
  yaml_Marshal :: "Config \<Rightarrow> string + byte list"
  yaml_Unmarshal :: "byte list \<Rightarrow> Config \<Rightarrow> string option \<times> Config"
  os_strconv :: strconv

definition checkError :: "string option \<Rightarrow> unit go" where
  "checkError err = (case err of None \<Rightarrow> Ok () | Some e \<Rightarrow> Panic (Explicit e))"

definition writeToXml :: "'w Os \<Rightarrow> string \<Rightarrow> Config \<Rightarrow> 'w \<Rightarrow> 'w go" where
  "writeToXml os src c w = (case yaml_Marshal os c of
     Inl e \<Rightarrow> Panic (Explicit e)
   | Inr dat \<Rightarrow> (case os_WriteFile os src dat w of (err, w) \<Rightarrow> andthen (checkError err) (\<lambda>_. Ok w)))"

definition readFromXml :: "'w Os \<Rightarrow> string \<Rightarrow> Config \<Rightarrow> 'w \<Rightarrow> (Config \<times> 'w) go" where
  "readFromXml os src c w = (case os_ReadFile os src w of
     Inl e \<Rightarrow> andthen (writeToXml os src c w) (\<lambda>w. Ok (c, w))
   | Inr content \<Rightarrow> (case yaml_Unmarshal os content c of (err, c) \<Rightarrow> andthen (checkError err) (\<lambda>_. Ok (c, w))))"

subsection \<open>Initialisation\<close>

datatype LogLevel = DebugLevel | InfoLevel | ErrorLevel | TraceLevel

datatype LogOut = Stdout | LogFile string

record 'w Initialised =
  in_Conf :: Config
  in_Level :: LogLevel
  in_Out :: LogOut
  in_world :: 'w

definition log_level :: "string \<Rightarrow> LogLevel" where
  "log_level l = (if l = ''debug'' then DebugLevel else if l = ''info'' then InfoLevel
     else if l = ''error'' then ErrorLevel else TraceLevel)"

definition open_log :: "'w Os \<Rightarrow> Config \<Rightarrow> 'w \<Rightarrow> LogOut \<times> 'w" where
  "open_log os c w = (if ENABLE_LOG_FILE c
     then (case os_OpenFile os ''main.log'' w of (err, w) \<Rightarrow> (if err = None then LogFile ''main.log'' else Stdout, w))
     else (Stdout, w))"

definition make_record_dir :: "'w Os \<Rightarrow> Config \<Rightarrow> 'w \<Rightarrow> 'w go" where
  "make_record_dir os c w = (if os_Stat os (RECORD_DIR c) w = NotExist
     then (case os_Mkdir os (RECORD_DIR c) w of (err, w) \<Rightarrow> andthen (checkError err) (\<lambda>_. Ok w))
     else Ok w)"

text \<open>How \<open>InitConfig\<close> ends: true with the settings, false after help, or the process exits.\<close>

datatype 'w init_end = Started "'w Initialised" | HelpShown Config 'w | Exited int

definition InitConfig :: "'w Os \<Rightarrow> string list \<Rightarrow> 'w \<Rightarrow> 'w init_end go" where
  "InitConfig os args w =
     andthen (readFromXml os ''./conf.yaml'' Conf w) (\<lambda>(c, w).
     case flag_Parse (os_strconv os) args c of
       Inl code \<Rightarrow> Ok (Exited code)
     | Inr c \<Rightarrow>
       if h_flag c then Ok (HelpShown c w)
       else (case open_log os c w of (out, w) \<Rightarrow>
         andthen (make_record_dir os c w) (\<lambda>w.
           Ok (Started \<lparr>in_Conf = c, in_Level = log_level (LOG_LEVEL c), in_Out = out, in_world = w\<rparr>))))"

subsection \<open>Tables of flags\<close>

definition same_kind :: "flag_value \<Rightarrow> flag_value \<Rightarrow> bool" where
  "same_kind u v = (case (u, v) of
     (FBool _, FBool _) \<Rightarrow> True | (FInt _, FInt _) \<Rightarrow> True | (FFloat _, FFloat _) \<Rightarrow> True | (FStr _, FStr _) \<Rightarrow> True
   | _ \<Rightarrow> False)"

definition fits :: "string \<Rightarrow> flag_value \<Rightarrow> bool" where
  "fits name v = (case get_flag name Conf of None \<Rightarrow> False | Some kind \<Rightarrow> same_kind kind v)"

text \<open>What is used of the fields behind the flags: each can be set, and is independent of the others.\<close>

locale flag_table =
  fixes get :: "string \<Rightarrow> 'c \<Rightarrow> flag_value option" and put :: "string \<Rightarrow> flag_value \<Rightarrow> 'c \<Rightarrow> 'c"
    and fit :: "string \<Rightarrow> flag_value \<Rightarrow> bool"
  assumes get_put: "fit name v \<Longrightarrow> get name (put name v c) = Some v"
    and get_other: "name \<noteq> other \<Longrightarrow> get other (put name v c) = get other c"
begin

lemma get_all:
  assumes "\<forall>(n, v) \<in> set xs. fit n v"
  shows "get name (foldl (\<lambda>c (n, v). put n v c) c xs)
    = (case map_of (rev xs) name of Some v \<Rightarrow> Some v | None \<Rightarrow> get name c)"
  using assms
proof (induction xs rule: rev_induct)
  case (snoc x xs)
  obtain n v where x: "x = (n, v)" by (cases x)
  show ?case
    using snoc by (cases "n = name") (simp_all add: x get_put get_other)
qed simp

end

lemma get_flag_upd:
  "other \<noteq> ''h'' \<Longrightarrow> get_flag other (c\<lparr>h_flag := b\<rparr>) = get_flag other c"
  "other \<noteq> ''udp_addr'' \<Longrightarrow> get_flag other (c\<lparr>UDP_SOCKET_ADDR := s\<rparr>) = get_flag other c"
  "other \<noteq> ''api_addr'' \<Longrightarrow> get_flag other (c\<lparr>API_ADDR := s\<rparr>) = get_flag other c"
  "other \<noteq> ''quic_addr'' \<Longrightarrow> get_flag other (c\<lparr>QUIC_ADDR := s\<rparr>) = get_flag other c"
  "other \<noteq> ''padding_size'' \<Longrightarrow> get_flag other (c\<lparr>RTP_QUEUE_PADDING_WINDOW_SIZE := i\<rparr>) = get_flag other c"
  "other \<noteq> ''disable_quic'' \<Longrightarrow> get_flag other (c\<lparr>DISABLE_QUIC := b\<rparr>) = get_flag other c"
  "other \<noteq> ''chan_size'' \<Longrightarrow> get_flag other (c\<lparr>RTP_QUEUE_CHAN_SIZE := i\<rparr>) = get_flag other c"
  "other \<noteq> ''record_dir'' \<Longrightarrow> get_flag other (c\<lparr>RECORD_DIR := s\<rparr>) = get_flag other c"
  "other \<noteq> ''pack_loss'' \<Longrightarrow> get_flag other (c\<lparr>PACKET_LOSS_RATE := x\<rparr>) = get_flag other c"
  "other \<noteq> ''flv_addr'' \<Longrightarrow> get_flag other (c\<lparr>HTTP_FLV_ADDR := s\<rparr>) = get_flag other c"
  "other \<noteq> ''enable_hls'' \<Longrightarrow> get_flag other (c\<lparr>ENABLE_HLS := b\<rparr>) = get_flag other c"
  "other \<noteq> ''hls_addr'' \<Longrightarrow> get_flag other (c\<lparr>HLS_ADDR := s\<rparr>) = get_flag other c"
  "other \<noteq> ''enable_record'' \<Longrightarrow> get_flag other (c\<lparr>ENABLE_RECORD := b\<rparr>) = get_flag other c"
  "other \<noteq> ''cert_file'' \<Longrightarrow> get_flag other (c\<lparr>CERT_FILE := s\<rparr>) = get_flag other c"
  "other \<noteq> ''key_file'' \<Longrightarrow> get_flag other (c\<lparr>KEY_FILE := s\<rparr>) = get_flag other c"
  "other \<noteq> ''log_level'' \<Longrightarrow> get_flag other (c\<lparr>LOG_LEVEL := s\<rparr>) = get_flag other c"
  "other \<noteq> ''enable_log_file'' \<Longrightarrow> get_flag other (c\<lparr>ENABLE_LOG_FILE := b\<rparr>) = get_flag other c"
  "other \<noteq> ''protect'' \<Longrightarrow> get_flag other (c\<lparr>PROTECT := b\<rparr>) = get_flag other c"
  by (simp_all add: get_flag_def)

lemma set_flag_other:
  assumes "name \<noteq> other"
  shows "get_flag other (set_flag name v c) = get_flag other c"
  using assms by (cases v) (auto simp: set_flag_def get_flag_upd)

lemma set_flag_same:
  assumes "fits name v"
  shows "get_flag name (set_flag name v c) = Some v"
proof -
  obtain k where "get_flag name Conf = Some k" "same_kind k v"
    using assms by (auto simp: fits_def split: option.splits)
  then show ?thesis
    by (cases v) (auto simp: set_flag_def get_flag_def same_kind_def split: if_splits)
qed

interpretation conf_table: flag_table get_flag set_flag fits
  by unfold_locales (simp_all add: set_flag_same set_flag_other)

text \<open>The assignments that the command line makes, in order.\<close>

function assignments :: "strconv \<Rightarrow> string list \<Rightarrow> (string \<times> flag_value) list" where
  "assignments sc args = (case parseOne sc args of
     FlagSet name v rest \<Rightarrow> (name, v) # assignments sc rest | _ \<Rightarrow> [])"
  by pat_completeness auto
termination
  by (relation "measure (\<lambda>(sc, args). length args)") (auto dest: parseOne_shorter)

declare assignments.simps [simp del]

lemma read_value_kind: "read_value sc kind s = Some v \<Longrightarrow> same_kind kind v"
  by (cases kind) (auto simp: read_value_def same_kind_def)

lemma set_step_fits:
  "set_step sc name kind s rest = FlagSet n v r \<Longrightarrow> get_flag name Conf = Some kind \<Longrightarrow> fits n v"
  using read_value_kind by (auto simp: set_step_def fits_def split: option.splits)

lemma set_named_fits:
  assumes "set_named sc name tail rest = FlagSet n v r"
  shows "fits n v"
proof -
  obtain kind where k: "get_flag name Conf = Some kind" using assms by (auto simp: set_named_def split: option.splits)
  show ?thesis
  proof (cases "tail = [] \<and> (\<exists>b. kind = FBool b)")
    case True
    with assms k show ?thesis by (auto simp: set_named_def fits_def same_kind_def)
  next
    case False
    with assms k obtain s r' where "set_step sc name kind s r' = FlagSet n v r"
      by (cases kind) (auto simp: set_named_def split: if_splits list.splits)
    then show ?thesis using set_step_fits k by blast
  qed
qed

lemma parseOne_fits: "parseOne sc args = FlagSet name v rest \<Longrightarrow> fits name v"
  by (cases args) (auto simp: parseOne_def Let_def dest!: set_named_fits split: if_splits)

lemma assignments_fit: "\<forall>(n, v) \<in> set (assignments sc args). fits n v"
proof (induction sc args rule: assignments.induct)
  case (1 sc args)
  show ?case
  proof (cases "parseOne sc args")
    case (FlagSet name v rest)
    with 1 parseOne_fits [OF FlagSet] show ?thesis by (simp add: assignments.simps [of sc args])
  qed (simp_all add: assignments.simps [of sc args])
qed

lemma flag_Parse_assigns:
  "flag_Parse sc args c = Inr c' \<Longrightarrow> c' = foldl (\<lambda>c (n, v). set_flag n v c) c (assignments sc args)"
proof (induction sc args c rule: flag_Parse.induct)
  case (1 sc args c)
  then show ?case
    by (simp add: flag_Parse.simps [of sc args c] assignments.simps [of sc args] split: flag_step.splits)
qed

lemma InitConfig_options:
  assumes "InitConfig os args w = Ok (Started r)"
  shows "\<not> h_flag (in_Conf r) \<and> (\<exists>c w1. readFromXml os ''./conf.yaml'' Conf w = Ok (c, w1)
    \<and> (\<forall>name. get_flag name (in_Conf r) = (case map_of (rev (assignments (os_strconv os) args)) name of
          Some v \<Rightarrow> Some v | None \<Rightarrow> get_flag name c)))"
proof -
  obtain c w1 where c: "readFromXml os ''./conf.yaml'' Conf w = Ok (c, w1)"
    using assms by (auto simp: InitConfig_def andthen_eq_Ok)
  then have p: "flag_Parse (os_strconv os) args c = Inr (in_Conf r) \<and> \<not> h_flag (in_Conf r)"
    using assms by (auto simp: InitConfig_def andthen_eq_Ok split: sum.splits if_splits prod.splits)
  from flag_Parse_assigns [OF conjunct1 [OF p]] have "in_Conf r = foldl (\<lambda>c (n, v). set_flag n v c) c (assignments (os_strconv os) args)" .
  then show ?thesis using conf_table.get_all [OF assignments_fit] c p by simp
qed

subsection \<open>Properties\<close>

text \<open>
  C24: Priority of the sources of configuration. If initialisation succeeds, every option that can be
  given on the command line has the value of its last occurrence there; if it does not occur, the
  value after reading the file, which starts from the compiled-in values.
\<close>

theorem config_priority:
  assumes "InitConfig os args w = Ok (Started r)" "readFromXml os ''./conf.yaml'' Conf w = Ok (c, w1)"
  shows "get_flag name (in_Conf r) = (case map_of (rev (assignments (os_strconv os) args)) name of
      Some v \<Rightarrow> Some v | None \<Rightarrow> get_flag name c)"
  using InitConfig_options [OF assms(1)] assms(2) by simp

text \<open>
  The configuration file of a first start. If the file cannot be read, the current values are
  written to it and kept; given a YAML library that reads back what it writes, a later start that
  finds this file ends up with the same configuration, whatever the compiled-in values are then
  (up to the help flag, which is not stored).
\<close>

theorem config_file_roundtrip:
  assumes "os_ReadFile os src w = Inl e" "readFromXml os src c w = Ok (c', w')"
    and "\<forall>w dat w1. os_WriteFile os src dat w = (None, w1) \<longrightarrow> os_ReadFile os src w1 = Inr dat"
    and "\<forall>dat. yaml_Marshal os c = Inr dat \<longrightarrow> (\<forall>d. yaml_Unmarshal os dat d = (None, c\<lparr>h_flag := h_flag d\<rparr>))"
  shows "c' = c \<and> readFromXml os src d w' = Ok (c\<lparr>h_flag := h_flag d\<rparr>, w')"
proof -
  have c: "c' = c" "writeToXml os src c w = Ok w'"
    using assms(1,2) by (auto simp: readFromXml_def andthen_eq_Ok)
  then obtain dat where dat: "yaml_Marshal os c = Inr dat" "os_WriteFile os src dat w = (None, w')"
    by (auto simp: writeToXml_def checkError_def andthen_eq_Ok split: sum.splits prod.splits option.splits)
  then have "os_ReadFile os src w' = Inr dat" "yaml_Unmarshal os dat d = (None, c\<lparr>h_flag := h_flag d\<rparr>)"
    using assms(3,4) by blast+
  with c(1) show ?thesis by (simp add: readFromXml_def checkError_def)
qed

subsection \<open>A small system\<close>

text \<open>One file, an empty file system otherwise, and a YAML library that knows the compiled-in values.\<close>

definition demo_os :: "byte list option Os" where
  "demo_os = \<lparr>os_ReadFile = (\<lambda>p w. case w of None \<Rightarrow> Inl ''no such file'' | Some b \<Rightarrow> Inr b),
     os_WriteFile = (\<lambda>p b w. (None, Some b)), os_OpenFile = (\<lambda>p w. (None, w)), os_Stat = (\<lambda>p w. NotExist),
     os_Mkdir = (\<lambda>p w. (None, w)), yaml_Marshal = (\<lambda>c. Inr [1]),
     yaml_Unmarshal = (\<lambda>b d. (None, Conf\<lparr>h_flag := h_flag d\<rparr>)),
     os_strconv = \<lparr>ParseInt = \<lambda>s. Some (int (number s)), ParseFloat = \<lambda>s. None\<rparr>\<rparr>"

theorem config_priority_witness:
  "\<exists>r. InitConfig demo_os [''-chan_size'', ''7'', ''-protect=false''] None = Ok (Started r)
     \<and> get_flag ''chan_size'' (in_Conf r) = Some (FInt 7) \<and> get_flag ''padding_size'' (in_Conf r) = Some (FInt 100)"
proof -
  let ?args = "[''-chan_size'', ''7'', ''-protect=false'']"
  have one: "parseOne sc ?args = set_step sc ''chan_size'' (FInt 100) ''7'' [''-protect=false'']"
      "parseOne sc [''-protect=false''] = set_step sc ''protect'' (FBool True) ''false'' []" "parseOne sc [] = FlagsEnd" for sc
    by (simp_all add: parseOne_def set_named_def get_flag_def Conf_def)
  have n: "number ''7'' = 7" by (simp add: number_def)
  have read: "readFromXml demo_os ''./conf.yaml'' Conf None = Ok (Conf, Some [1])"
    by (simp add: readFromXml_def writeToXml_def demo_os_def checkError_def)
  have sc: "ParseInt (os_strconv demo_os) = (\<lambda>s. Some (int (number s)))" by (simp add: demo_os_def)
  have a: "assignments (os_strconv demo_os) ?args = [(''chan_size'', FInt 7), (''protect'', FBool False)]"
    by (simp add: assignments.simps one set_step_def read_value_def ParseBool_def sc n)
  have "flag_Parse (os_strconv demo_os) ?args Conf = Inr (Conf\<lparr>RTP_QUEUE_CHAN_SIZE := 7, PROTECT := False\<rparr>)"
    by (simp add: flag_Parse.simps one set_step_def read_value_def ParseBool_def sc n set_flag_def)
  moreover have "\<not> h_flag Conf" "\<not> ENABLE_LOG_FILE Conf" "os_Stat demo_os p w = NotExist" "os_Mkdir demo_os p w = (None, w)" for p w
    by (simp_all add: Conf_def demo_os_def)
  ultimately obtain r where r: "InitConfig demo_os ?args None = Ok (Started r)"
    by (simp add: InitConfig_def read open_log_def make_record_dir_def checkError_def)
  from config_priority [OF r read, of "''chan_size''"] config_priority [OF r read, of "''padding_size''"] r show ?thesis
    by (simp add: a) (simp add: get_flag_def Conf_def)
qed

theorem config_file_roundtrip_witness:
  "readFromXml demo_os ''./conf.yaml'' (Conf\<lparr>PROTECT := False\<rparr>) (Some [1]) = Ok (Conf, Some [1])"
proof -
  have "readFromXml demo_os ''./conf.yaml'' Conf None = Ok (Conf, Some [1])"
    by (simp add: readFromXml_def writeToXml_def demo_os_def checkError_def)
  from config_file_roundtrip [OF _ this, of "''no such file''" "Conf\<lparr>PROTECT := False\<rparr>"] show ?thesis
    by (simp add: demo_os_def Conf_def)
qed

end
