(* ===== verification/Startup.thy ===== *)
theory Startup
  imports Config_Init Node_Properties Http_Mux
begin

text \<open>
  The start of the program: \<open>main\<close> and the set-up of the socket in \<open>receiveRtp\<close> (\<open>src/main.go\<close>), and the
  listener of \<open>StartHTTPFlv\<close> (\<open>src/protocol/httpflv/server.go\<close>). The network is given by its operations. The
  theorem follows the state of the world through the calls of one run.
\<close>

subsection \<open>Sockets\<close>





subsection \<open>The main function\<close>





subsection \<open>What the start leads to\<close>




text \<open>A recording that could not be created is a nil pointer, on which the deferred function panics.\<close>

lemma deferred_panics: "close_files rs fs = Panic NilDeref \<longleftrightarrow> None \<in> set rs"
proof (induction rs arbitrary: fs)
  case (Cons r rs)
  then show ?case by (cases r) simp_all
qed simp









end
