(* ===== verification/Spec2Isabelle.thy ===== *)
theory Spec2Isabelle
  imports Demo_Viewer Hls_Server Hls_Audio Http_Client Startup
begin

text \<open>
  Verification of the edge node \<open>Rtp_Http_Flv\<close>: a Go program that receives live streams as RTP over
  UDP from a cloud node, puts the packets back into order, asks for lost ones over QUIC,
  reassembles FLV tags from their payloads, and serves every stream over HTTP-FLV, HLS and as a
  recording.

  \<^bold>\<open>How the program works.\<close> \<open>main.go\<close> reads UDP datagrams, parses them (\<open>parser/rtp\<close>) and sends each packet
  to the queue of its stream (\<open>cache/RtpQueue.go\<close>), one per SSRC. The queue's goroutine \<open>RecvPacket\<close>
  stores a packet in the slot of its sequence number (\<open>Enqueue\<close>), takes slots out (\<open>Dequeue\<close>), first
  all beyond the padding window, present or not, then all up to the first gap, and passes each to
  \<open>extractFlv\<close>. A missing slot is requested from the cloud (\<open>runQuic\<close>, \<open>protocol/quic\<close>); under
  congestion, with the option \<open>PROTECT\<close>, a run of missing slots is skipped (\<open>reshape\<close>).
  \<open>extractFlv\<close> collects payloads in a record (\<open>cache/FlvRecord.go\<close>) and hands a complete tag to the
  cache of initialisation segments (\<open>cache/cache.go\<close>), to the clients' writers
  (\<open>protocol/httpflv/writer.go\<close>), to the HLS source and to the recording file (\<open>utils/flv.go\<close>). The HLS
  source (\<open>protocol/hls\<close>) cuts segments, of which a server offers the last three; the HTTP-FLV server
  (\<open>protocol/httpflv/server.go\<close>) registers clients through the handler in \<open>main.go\<close>.

  \<^bold>\<open>Conventions\<close> (theory \<open>Go_Prelude\<close>). A call that can panic or block returns \<open>'a go\<close>, with the values
  \<open>Ok\<close>, \<open>Panic\<close> and \<open>Blocked\<close>. Machine integers are words, \<open>int\<close> is unbounded where the program only
  counts. Byte slices are a view of memory up to their capacity with a length, so slicing beyond
  the length but within the capacity succeeds as in Go. Channels are bounded buffers. Pointers that
  are shared (writers, sources, files) are indices into a store. Goroutines are modelled one at a
  time; locks, which only serialise them, are not represented.

  \<^bold>\<open>Theories\<close>, with the part of \<open>src/\<close> each models:
  \<^item> \<open>Array_List\<close>: the library \<open>gods/lists/arraylist\<close> as a locale of documented laws.
  \<^item> \<open>Utils\<close> (\<open>utils/util.go\<close>): sequence number comparison, complete-tag test, integer output.
  \<^item> \<open>Rtp\<close> (\<open>container/rtp\<close>, \<open>parser/rtp\<close>): the packet and its parser; an RFC 3550 encoder as its
    specification.
  \<^item> \<open>Flv_Tag\<close> (\<open>container/flv\<close>): tags, media headers, demuxing.
  \<^item> \<open>Flv_Writer\<close> (\<open>protocol/httpflv/writer.go\<close>): a client's queue, its sender and its end.
  \<^item> \<open>Segment_Cache\<close> (\<open>cache/cache.go\<close>, \<open>cache/FlvRecord.go\<close>): initialisation segments, reassembly record.
  \<^item> \<open>Config\<close> (\<open>configure/config.go\<close>): configuration record and defaults.
  \<^item> \<open>Quic_Client\<close> (\<open>protocol/quic\<close>): connection and request/response framing over an arbitrary QUIC
    library.
  \<^item> \<open>Flv_File\<close> (\<open>utils/flv.go\<close>), \<open>Publishers\<close> (\<open>utils/util.go\<close>): recording and stream list.
  \<^item> \<open>Go_Strings\<close>, \<open>Http\<close>: strings, paths, decimal numbers and HTTP answers of Go's library.
  \<^item> \<open>Config_Init\<close> (\<open>configure/config.go\<close>): flags, configuration file, initialisation, over a YAML library
    and an operating system given by their operations.
  \<^item> \<open>Hls_Source\<close>, \<open>Hls_Segmenter\<close> (\<open>protocol/hls/source.go\<close>, \<open>align.go\<close>, \<open>audio_cache.go\<close>, \<open>status.go\<close>): the
    channel of a source and the segmenter behind it. Its operations return their state beside the
    outcome, as \<open>SendPacket\<close> recovers panics. The demuxer, codec parser and multiplexer are those of
    the package \<open>livego\<close> and a parameter.
  \<^item> \<open>Hls_Cache\<close> (\<open>cache.go\<close>, \<open>item.go\<close>), \<open>Hls_Server\<close> (\<open>hls.go\<close>): segments, playlist, table of sources, requests.
  \<^item> \<open>Http_Flv_Server\<close> (\<open>protocol/httpflv/server.go\<close>): the request handlers over the interface
    \<open>HttpHandler\<close>, whose contract is the locale \<open>flv_handler\<close>.
  \<^item> \<open>Http_Mux\<close> (\<open>Serve\<close> of both servers): clean paths and the multiplexer of Go's \<open>net/http\<close>, the two tables of
    handlers, and which handler a request reaches.
  \<^item> \<open>Edge_Node\<close> (\<open>main.go\<close>, \<open>cache/App.go\<close>): tables, stream creation, dispatch, handlers, receive loop,
    liveness check. \<open>Startup\<close> (\<open>main.go\<close>): \<open>main\<close>, the sockets, and the deferred closing of recordings.
    \<open>Http_Client\<close> (\<open>http-client.go\<close>): the test client.
  \<^item> \<open>Rtp_Queue\<close> (\<open>cache/RtpQueue.go\<close>): all functions of the queue, in the order of the file. The loops
    of \<open>RecvPacket\<close> are \<open>partial_function (option)\<close>: a loop that does not end has the value \<open>None\<close>. The
    loops over empty slots carry the size of the list as fuel, which their lemmas show to be enough.

  \<^bold>\<open>Results.\<close>
  \<^item> \<open>Queue_Window\<close>: the abstract window (head number and slots), \<open>Enqueue\<close> as its implementation, the
    window invariant, the contracts of the retransmission service (\<open>quic_env\<close>, \<open>retransmission\<close>) and
    the effect of \<open>Dequeue\<close>, retransmission and skipping on the window.
  \<^item> \<open>Queue_Order\<close>: the specification of runs (\<open>window_run\<close>), the goroutine step by step
    (\<open>stream_run\<close>), that \<open>RecvPacket\<close> performs such steps, and the simulation between the two.
  \<^item> \<open>Queue_Guarantees\<close>, \<open>Queue_Properties\<close>: consecutive delivery, no accepted packet is lost, order
    within an activation, termination, bounds, and safety of \<open>PrintInfo\<close>. Under protection, which is
    the default, termination and order within an activation assume a window of at most 5536 slots
    (\<open>near\<close>), the distance up to which the comparison of sequence numbers is reliable; without
    protection there is no such bound. A conclusion under \<open>ensures\<close> is about normal results and says
    nothing of a panic or of a call that blocks.
  \<^item> \<open>Quic_Service\<close>: what a connection to the cloud node does (\<open>cloud_io\<close>: every operation may fail, writes
    may be partial and reads short) and what \<open>GetByQuic\<close> returns then; the node on which nothing
    fails (\<open>cloud_node\<close>); nodes in memory that keep these contracts, one with short reads.
    \<open>Demo_Stream\<close>: a concrete stream for the witnesses.
  \<^item> \<open>Flv_Reassembly\<close>: faithful reassembly under arbitrary losses, recovery, and the panic on an
    oversized first fragment.
  \<^item> \<open>Fan_Out\<close>: distribution of a tag to the clients. \<open>Stream_Output\<close> connects queue and reassembly,
    \<open>Client_Delivery\<close> queue and clients: what a run of the goroutine adds to each client's data.
  \<^item> \<open>Hls_Segments\<close>: the life of a source as a step relation (\<open>source_run\<close>) with the list of all segments
    cut and of the seconds of the clock in which they were cut, their invariant, that no output is lost
    at a cut, and the stall after a panic. Nothing is assumed of the clock; two segments cut in the
    same second have the same name. \<open>Hls_Audio\<close>: alignment of time stamps and grouping of frames.
    \<open>Hls_Cache\<close>, \<open>Hls_Server\<close>, \<open>Http_Mux\<close>: the cache as a window, the table of sources, and what is served.
    A name is looked up in the cache exactly as in the window as long as no two of the last five
    segments have the same name, and the served segments are characterised under that condition.
  \<^item> \<open>Queue_Identity\<close>, \<open>Node_Tables\<close>, \<open>Node_Properties\<close>: what a queue's goroutine leaves alone, the
    activities of the node as a labelled step relation (\<open>node_step\<close>, its runs \<open>node_trace\<close> and
    \<open>node_run\<close>), the invariant of the node's tables, the interpretation of \<open>flv_handler\<close> by the node,
    dispatch, and safety of requests.
  \<^item> \<open>Node_Clients\<close>: each client belongs to one stream, and every step leaves what clients of other
    streams have been given as it is. \<open>Node_Delivery\<close>: the invariant of the queues while packets of a
    sender arrive (locale \<open>sending\<close>), and the progress of a stream between two states of the node.
  \<^item> \<open>Hls_Delivery\<close>: what the goroutine of a queue hands to its HLS source and to its recording, along a
    run. \<open>Node_Recordings\<close>: the invariant of the recordings of the node (the file of a recorded stream that shares
    its name with no other holds the header and the tags completed) and what a file is given between two
    states (\<open>file_gets\<close>). Descriptors of the same path share their bytes, and creating a recording truncates
    the file for all of them. \<open>Hls_Node\<close>: the invariant of the sources of the node (each is on a run of the segmenter for its key, each stream
    writes to the source of its key), what a source is given between two states (\<open>hls_gets\<close>), that every
    open source of the node's table is served over HLS, and that a closed source ends its stream.
  \<^item> \<open>Startup\<close>: the start of the program makes its calls to the network one after the other in the world of
    the run, and leads to an initial state of the node with the configuration of file and command line.
  \<^item> \<open>Demo_Viewer\<close>: a run of a small node with HLS and a recording. This theory states the end-to-end properties: of one
    queue (\<open>end_to_end\<close>), of the node with all its clients (\<open>viewer_receives_tags\<close>), of the node with
    its HLS sources (\<open>hls_receives_tags\<close>) and with its recordings (\<open>recording_receives_tags\<close>).
  \<^item> \<open>Http_Client\<close>: the client reads back what the server's writer sends. \<open>Config_Init\<close>: priority of the
    sources of configuration, and the file of a first start.

  \<^bold>\<open>Assumptions on code outside the repository\<close> appear as locale predicates in the statements:
  \<open>packet_list\<close>, \<open>writer_list\<close> and \<open>arraylist\<close> (array list laws), \<open>cloud_io\<close>, \<open>cloud_node\<close> and
  \<open>retransmission\<close> (QUIC library and cloud node), and \<open>sending\<close>, which combines them for a node whose
  retransmission service always answers. Each has an instance. The package \<open>livego\<close> is unconstrained.

  \<^bold>\<open>Not modelled.\<close> The sockets behind the network operations, the protocol side of HTTP (header parsing,
  CONNECT requests), TLS and the scheduling of goroutines are the environment. Of \<open>http-client.go\<close>,
  the construction of the HTTP client, the flags and the start of the threads are left out; they only
  pass parameters to the library. The interfaces and most constants of \<open>container/flv/av.go\<close> are not
  used by the program, and \<open>usage\<close> in \<open>config.go\<close> only prints. A node's steps are interleaved at the
  granularity of one datagram, one packet of a queue, one packet of a client's sender, one packet of an
  HLS source, one request or one check; data races within a step, such as a source closed in the
  middle of a round, are not represented. In particular \<open>handleNewStream\<close> and a round of a queue's goroutine
  are atomic: a request cannot see a stream that is only half registered, and a round that blocks on a
  full client leaves no partial effect. File names are compared as strings, so two paths that name
  the same file through a link count as different. A panic outside a recovering function ends the process, so
  that no step follows it. Logging is left out, except for the lines \<open>print\<close> produces.
\<close>

section \<open>End to end\<close>

text \<open>
  C2: The pipeline from packets to tags is lossless. Let \<open>src\<close> be the packets of a sender, by
  sequence number, and let those from the head of the window on make up the tags \<open>tags\<close>. If what arrives, what
  waits in the window and what the retransmission service returns carries what the sender sent, the service
  always answers, protection is off, the padding window is at least one, the window is not empty and
  no tag is half assembled, then whenever the goroutine has dealt with a sequence of arrivals, in
  whatever order, with whatever losses and repetitions, it has taken the sender's packets out of
  the window one by one in sequence, and has completed the tags they make up, byte for byte, each
  exactly once and in order; the queue's tag counter has grown by their number.
\<close>

theorem end_to_end:
  assumes "packet_list al" "retransmission env cfg ssrc good True (\<lambda>p. same_packet p (src (SequenceNumber p)))"
    and "stream_ok al ssrc good (q, s)" "\<not> PROTECT cfg" "1 \<le> PaddingWindowSize q"
    and "al_Values al (queue q) \<noteq> []" "fresh (flvRecord q)"
    and source: "\<forall>p. Some p \<in> set (al_Values al (queue q)) \<union> set as \<longrightarrow> same_packet p (src (SequenceNumber p))"
    and tags: "list_all2 packets_of tags pss"
      "concat pss = map (\<lambda>i. src (FirstSeq q + word_of_nat i)) [0..<N]"
    and run: "RecvPacket env cfg al wl as (q, s) = Some (Ok (q', s'))"
  shows "\<exists>es ps ts. stream_run env cfg al wl (q, s) es (q', s') \<and> arrivals es = as
    \<and> map snd (emitted es) = map Some ps
    \<and> list_all2 same_packet ps (map (\<lambda>i. src (FirstSeq q + word_of_nat i)) [0..<length ps])
    \<and> FirstSeq q' = FirstSeq q + word_of_nat (length ps)
    \<and> feed (flvRecord q) (map Some ps) = Ok (flvRecord q', ts)
    \<and> accFlvTags q' = accFlvTags q + int (length ts)
    \<and> (length ps \<le> N \<longrightarrow> prefix (map bytes ts) tags) \<and> (length ps = N \<longrightarrow> map bytes ts = tags)"
proof -
  note st = streamI [OF assms(1,2)]
  let ?m = "promises cfg (PaddingWindowSize q) True (\<lambda>p. same_packet p (src (SequenceNumber p)))"
  obtain es where es: "stream_run env cfg al wl (q, s) es (q', s')" "arrivals es = as"
    using RecvPacket_run [OF run] by blast
  have wr: "window_run ?m (window_of al q) es (window_of al q')"
    using stream.simulation [OF st es(1) assms(3)] by simp
  obtain ps where out: "map snd (emitted es) = map Some ps"
      "list_all2 same_packet ps (map (\<lambda>i. src (FirstSeq q + word_of_nat i)) [0..<length ps])"
      "FirstSeq q' = FirstSeq q + word_of_nat (length ps)"
    using window_run_source [OF wr, of src] assms(4-6) source es(2) by (auto simp: window_of_def)
  obtain ts where ts: "feed (flvRecord q) (map Some ps) = Ok (flvRecord q', ts)"
      "accFlvTags q' = accFlvTags q + int (length ts)"
    using stream_run_feed [OF es(1) assms(4)] out(1) by auto
  have "(length ps \<le> N \<longrightarrow> prefix (map bytes ts) tags) \<and> (length ps = N \<longrightarrow> map bytes ts = tags)"
    using feed_source_prefix [OF assms(7) tags out(2) ts(1)] by (auto intro: prefix_order.antisym)
  with es out ts show ?thesis
    by (intro exI [of _ es] exI [of _ ps] exI [of _ ts]) auto
qed

lemma node_source:
  "retransmission node_env (Conf\<lparr>PROTECT := False\<rparr>) 7 (idle id 0 1 2) True (\<lambda>p. same_packet p (node_pack (SequenceNumber p)))"
proof (rule retransmission_mono [OF node_retransmission [of "Conf\<lparr>PROTECT := False\<rparr>" 7]])
  fix p
  assume "Parse (of_bytes (node_store 7 (SequenceNumber p))) = Ok (Some p)"
  then have "p = node_pack (SequenceNumber p)" using node_pack(1) by simp
  then show "same_packet p (node_pack (SequenceNumber p))" by (metis node_pack(5) same_packet_refl)
qed (simp add: Conf_def)

theorem end_to_end_witness:
  "\<exists>q' s' es p r ts. RecvPacket node_env (Conf\<lparr>PROTECT := False\<rparr>) slice_al slice_al [Some (node_pack 0)] demo_audio
       = Some (Ok (q', s'))
     \<and> arrivals es = [Some (node_pack 0)] \<and> map snd (emitted es) = [Some p] \<and> same_packet p (node_pack 65535)
     \<and> feed NewFlvRecord (map snd (emitted es)) = Ok (r, ts) \<and> map bytes ts = [short_tag]"
proof -
  obtain q' s' where r: "RecvPacket node_env (Conf\<lparr>PROTECT := False\<rparr>) slice_al slice_al [Some (node_pack 0)] demo_audio
      = Some (Ok (q', s'))" "accFlvTags q' = 1"
    using demo_audio_recv by blast
  have d: "demo_audio = (fst demo_audio, snd demo_audio)" "PaddingWindowSize (fst demo_audio) = 1"
      "FirstSeq (fst demo_audio) = 65535" "queue (fst demo_audio) = [Some (node_pack 65535)]"
      "flvRecord (fst demo_audio) = NewFlvRecord" "accFlvTags (fst demo_audio) = 0"
    by (simp_all add: demo_audio_def) (simp_all add: demo_stream_def)
  obtain es ps ts where e: "arrivals es = [Some (node_pack 0)]" "map snd (emitted es) = map Some ps"
      "list_all2 same_packet ps (map (\<lambda>i. node_pack (65535 + word_of_nat i)) [0..<length ps])"
      "feed NewFlvRecord (map Some ps) = Ok (flvRecord q', ts)" "accFlvTags q' = int (length ts)"
    using end_to_end [OF spl.packet_list_axioms node_source, of "fst demo_audio" "snd demo_audio"
        "[Some (node_pack 0)]" "[short_tag]" "[[node_pack 65535]]" 1 slice_al q' s'] r(1) demo_audio_ok
    by (simp add: d(2-) packets_of_node node_pack del: RecvPacket.simps feed.simps) (metis (no_types))
  have "map bytes ts = replicate (length ps) short_tag"
    using feed_node [of ps "map (\<lambda>i. 65535 + word_of_nat i) [0..<length ps]"] e(3,4) by (auto simp: comp_def)
  moreover from arg_cong [OF this, of length] have "length ps = 1" using e(5) r(2) by simp
  ultimately show ?thesis
    using e r(1) by (cases ps) (auto intro!: exI [of _ q'] exI [of _ s'] exI [of _ es])
qed

text \<open>
  C1: What a viewer gets is what the sender sent, for a node without protection (it is on by default),
  with a cloud host configured, the option INIT off and a padding window of at least one. Let the
  retransmission service answer every request with the sender's packet, and let every datagram
  received carry packets of its stream's sender. Take two states of a run of the node, with any
  interleaving of datagrams of all streams, requests, checks, sender goroutines and disconnects in
  between, and in the first of them a stream whose window is not empty and that has no tag half
  assembled. A client of that stream that is still open in the second state has in between been
  given the initialisation segments, if it had not had them and there was a tag, and then exactly
  the tags that the sender put into its packets from the head of the window on, byte for byte and
  each followed by its size, in order, with none missing, repeated or foreign: all tags of the
  packets that have left the window.
\<close>

theorem viewer_receives_tags:
  assumes "sending nd cfg good src" "good (quic sh)"
    and "node_trace nd (main_App nd cfg sh qs heap, True) evs (app, f)" "node_trace nd (app, f) evs' (app', f')"
    and "\<forall>d. Received d \<in> set evs \<union> set evs' \<longrightarrow> sent_by src cfg d"
    and "RtpQueueMap app ssrc = Some r" "al_Values (nd_al nd) (queue (app_queues app r)) \<noteq> []"
    and "fresh (flvRecord (app_queues app r))" "x \<in> set (queue_clients nd app r)" "\<not> Closed (writer_at app' x)"
    and "list_all2 packets_of tags pss"
      "concat pss = map (\<lambda>i. src ssrc (FirstSeq (app_queues app r) + word_of_nat i)) [0..<N]"
  shows "\<exists>n k c. FirstSeq (app_queues app' r) = FirstSeq (app_queues app r) + word_of_nat n
    \<and> accFlvTags (app_queues app' r) = accFlvTags (app_queues app r) + int k
    \<and> (n \<le> N \<longrightarrow> k \<le> length tags) \<and> (N \<le> n \<longrightarrow> length tags \<le> k)
    \<and> (k \<le> length tags \<longrightarrow> client_view (writer_at app' x) = client_view (writer_at app x)
        @ (if Init (writer_at app x) \<or> k = 0 then [] else concat (map framed (initial_segments c)))
        @ concat (map on_wire (take k tags)))
    \<and> (0 < k \<and> k \<le> length tags \<longrightarrow> (\<exists>t. slice_ok t \<and> bytes t = hd tags \<and> remembers (cache (app_queues app r)) t c))"
proof -
  let ?q = "app_queues app r" and ?q' = "app_queues app' r" and ?w = "writer_at app x"
  obtain n ts where v: "FirstSeq ?q' = FirstSeq ?q + word_of_nat n" "accFlvTags ?q' = accFlvTags ?q + int (length ts)"
      "n \<le> N \<longrightarrow> length ts \<le> length tags" "N \<le> n \<longrightarrow> length tags \<le> length ts" "\<forall>t \<in> set ts. slice_ok t"
      "length ts \<le> length tags \<longrightarrow> map bytes ts = take (length ts) tags" "gets nd r app ts app'"
    using sending.sender_progress [OF assms(1-8,11,12)] by (elim exE conjE)
  obtain c where c: "ts \<noteq> [] \<longrightarrow> remembers (cache ?q) (hd ts) c" "gets_from nd r app c ts app' x"
    using v(7) assms(9,10) unfolding gets_def by blast
  have "map framed ts = map on_wire (map bytes ts)" using v(5) framed_on_wire by simp
  then have "client_view (writer_at app' x) = client_view ?w
      @ (if Init ?w \<or> length ts = 0 then [] else concat (map framed (initial_segments c)))
      @ concat (map on_wire (take (length ts) tags))" if "length ts \<le> length tags"
    using c(2) v(6) that by (simp add: gets_from_def first_segments_def)
  moreover have "\<exists>t. slice_ok t \<and> bytes t = hd tags \<and> remembers (cache ?q) t c"
    if "0 < length ts" "length ts \<le> length tags"
  proof -
    have "bytes (hd ts) = hd tags" using v(6) that by (cases ts; cases tags) auto
    with v(5) that(1) c(1) show ?thesis by (intro exI [of _ "hd ts"]) auto
  qed
  ultimately show ?thesis
    using v(1-4) by (intro exI [of _ n] exI [of _ "length ts"] exI [of _ c]) blast
qed

lemma short_tag_segments:
  assumes "slice_ok t" "bytes t = short_tag" "remembers NewCache t c"
  shows "initial_segments c = []"
proof -
  have "\<not> full NewCache" "seg (audioSeq NewCache) = None" "seg (videoSeq NewCache) = None"
    by (simp_all add: NewCache_def seg_def zero_SegmentPacket_def)
  moreover have "tag_readable (bytes t)" "\<not> aac_seq_header short_tag" "\<not> avc_seq_header short_tag"
    using assms(2) short_tag_readable by (simp_all add: aac_seq_header_def avc_seq_header_def short_tag_def)
  ultimately have "seg (audioSeq c) = None \<and> seg (videoSeq c) = None \<and> cache_inv c"
    using cache_add_readable [OF assms(1) _ cache_inv_NewCache] assms(2,3) by (auto simp: remembers_def)
  then show ?thesis by (auto simp: initial_segments_def seg_def cache_inv_def cache_shape_def split: if_splits)
qed

theorem viewer_receives_tags_witness:
  "\<exists>app app' x evs evs'. node_trace demo_node (view_app, True) evs (app, False)
     \<and> node_trace demo_node (app, False) evs' (app', False)
     \<and> client_view (writer_at app' x) = client_view (writer_at app x) @ on_wire short_tag"
proof (rule demo_run, goal_cases)
  case (1 app app' x p evs evs')
  note w = waiting_facts [OF 1(4)]
  from viewer_receives_tags [OF demo_sending demo_initial 1(1) [unfolded view_app_def] 1(2,3) w(1-3) 1(5,6),
      of "[short_tag]" "[[node_packet 7 65535]]" 1] w 1(7) packets_of_node [of 65535]
  obtain c where "client_view (writer_at app' x) = client_view (writer_at app x)
        @ (if Init (writer_at app x) then [] else concat (map framed (initial_segments c))) @ on_wire short_tag"
      "\<exists>t. slice_ok t \<and> bytes t = short_tag \<and> remembers NewCache t c"
    by auto
  with short_tag_segments 1(1,2) show ?case
    by (intro exI [of _ app] exI [of _ app'] exI [of _ x]) auto
qed

text \<open>
  C3: What the HLS source gets is what the sender sent, for a node without protection (it is on by
  default), with a cloud host configured, the option INIT off and a padding window of at least one,
  a retransmission service that answers every request with the sender's packet, and datagrams that
  carry packets of their senders. Take two states of a run of the node, in the first of them a
  stream whose window is not empty and that has no tag half assembled, and whose key no other stream
  has. In the second state the channel of its HLS source contains what it contained before, followed
  by exactly the parsed tags of the sender from the head of the window on, in order, less what the
  source's goroutine has taken out at the front; a source that was closed is given no tag.
\<close>

theorem hls_receives_tags:
  assumes "sending nd cfg good src" "good (quic sh)"
    and "node_trace nd (main_App nd cfg sh qs heap, True) evs (app, f)" "node_trace nd (app, f) evs' (app', f')"
    and "\<forall>d. Received d \<in> set evs \<union> set evs' \<longrightarrow> sent_by src cfg d"
    and "RtpQueueMap app ssrc = Some r" "al_Values (nd_al nd) (queue (app_queues app r)) \<noteq> []"
    and "fresh (flvRecord (app_queues app r))" "hlsWriter (app_queues app r) = Some s"
    and "\<forall>i < next_queue app'. i \<noteq> r \<longrightarrow> ChannelKey (app_queues app' i) \<noteq> ChannelKey (app_queues app' r)"
    and "list_all2 packets_of tags pss"
      "concat pss = map (\<lambda>i. src ssrc (FirstSeq (app_queues app r) + word_of_nat i)) [0..<N]"
  shows "\<exists>n ts ps j. FirstSeq (app_queues app' r) = FirstSeq (app_queues app r) + word_of_nat n
    \<and> accFlvTags (app_queues app' r) = accFlvTags (app_queues app r) + int (length ts)
    \<and> (n \<le> N \<longrightarrow> length ts \<le> length tags) \<and> (N \<le> n \<longrightarrow> length tags \<le> length ts)
    \<and> (length ts \<le> length tags \<longrightarrow> map bytes ts = take (length ts) tags)
    \<and> list_all2 (\<lambda>t p. av_Parse (nd_env nd) t True = Ok p) ts ps
    \<and> j \<le> length (waiting_at app s @ ps) \<and> waiting_at app' s = drop j (waiting_at app s @ ps)
    \<and> (src_closed (source_at app s) \<longrightarrow> ts = [])"
proof -
  let ?q = "app_queues app r" and ?q' = "app_queues app' r"
  obtain n ts where v: "FirstSeq ?q' = FirstSeq ?q + word_of_nat n" "accFlvTags ?q' = accFlvTags ?q + int (length ts)"
      "n \<le> N \<longrightarrow> length ts \<le> length tags" "N \<le> n \<longrightarrow> length tags \<le> length ts"
      "length ts \<le> length tags \<longrightarrow> map bytes ts = take (length ts) tags" "hls_gets nd r app ts app'" "node_inv nd app'"
      "r < next_queue app"
    using sending.sender_progress [OF assms(1-8,11,12)] by (elim exE conjE)
  have q: "r < next_queue app'" "hlsWriter ?q' = Some s" using v(6,8) assms(9) by (simp_all add: hls_gets_def)
  have key: "src_Key (source_at app' s) = ChannelKey (app_queues app' i)"
    if "i < next_queue app'" "hlsWriter (app_queues app' i) = Some s" for i
    using v(7) that by (simp add: node_inv_def hls_inv_def)
  have alone: "hlsWriter (app_queues app' i) \<noteq> Some s" if "i < next_queue app'" "i \<noteq> r" for i
    using key [OF that(1)] key [OF q] assms(10) that by auto
  have "(src_closed (source_at app s) \<longrightarrow> ts = [])
      \<and> (\<exists>j ps. list_all2 (\<lambda>t p. av_Parse (nd_env nd) t True = Ok p) ts ps
        \<and> j \<le> length (waiting_at app s @ ps) \<and> waiting_at app' s = drop j (waiting_at app s @ ps))"
    using v(6) assms(9) alone unfolding hls_gets_def by simp
  then obtain j ps where "list_all2 (\<lambda>t p. av_Parse (nd_env nd) t True = Ok p) ts ps"
      "j \<le> length (waiting_at app s @ ps)" "waiting_at app' s = drop j (waiting_at app s @ ps)"
      "src_closed (source_at app s) \<longrightarrow> ts = []"
    by blast
  with v(1-5) show ?thesis
    by (intro exI [of _ n] exI [of _ ts] exI [of _ ps] exI [of _ j]) simp
qed

theorem hls_receives_tags_witness:
  "\<exists>app app' evs evs' t p. node_trace demo_node (view_app, True) evs (app, False)
     \<and> node_trace demo_node (app, False) evs' (app', False) \<and> waiting_at app 0 = []
     \<and> bytes t = short_tag \<and> av_Parse (nd_env demo_node) t True = Ok p \<and> waiting_at app' 0 = [p]"
proof (rule demo_run, goal_cases)
  case (1 app app' x p evs evs')
  note w = waiting_facts [OF 1(4)]
  have "\<forall>i < next_queue app'. i \<noteq> 0 \<longrightarrow> ChannelKey (app_queues app' i) \<noteq> ChannelKey (app_queues app' 0)"
    using 1(8) by simp
  from hls_receives_tags [OF demo_sending demo_initial 1(1) [unfolded view_app_def] 1(2,3) w(1-3) w(7) this,
      of "[short_tag]" "[[node_packet 7 65535]]" 1] w(4-6,8) 1(7) packets_of_node [of 65535]
  obtain ts ps j where t: "length ts = 1" "map bytes ts = [short_tag]" "j \<le> length ps" "waiting_at app' 0 = drop j ps"
      "list_all2 (\<lambda>t p. av_Parse (nd_env demo_node) t True = Ok p) ts ps"
    by auto
  then obtain t q where "ts = [t]" "ps = [q]" by (cases ts; cases ps) auto
  moreover have "waiting_at app' 0 \<noteq> []" using 1(11) by (auto simp: fed_source_def)
  ultimately have "bytes t = short_tag" "av_Parse (nd_env demo_node) t True = Ok q" "waiting_at app' 0 = [q]"
    using t by (cases j; simp)+
  with 1(1,2) w(8) show ?case by blast
qed

text \<open>
  C4: What a recording contains is what the sender sent, for a node without protection (it is on by
  default), with a cloud host configured, the option INIT off and a padding window of at least one,
  a retransmission service that answers every request with the sender's packet, and datagrams that
  carry packets of their senders. Take two states of a run of the node, in the first of them a
  recorded stream whose window is not empty and that has no tag half assembled. If no other stream has
  the same file name, which is the part of the key after the first slash (creating its recording
  would truncate the file), then in the second state the file contains what it contained before,
  followed by exactly the sender's tags from the head of the window on, byte for byte and each
  followed by its size, in order. As a whole it consists of the file header and as many such tags
  as the stream has completed since it was created.
\<close>

theorem recording_receives_tags:
  assumes "sending nd cfg good src" "good (quic sh)"
    and "node_trace nd (main_App nd cfg sh qs heap, True) evs (app, f)" "node_trace nd (app, f) evs' (app', f')"
    and "\<forall>d. Received d \<in> set evs \<union> set evs' \<longrightarrow> sent_by src cfg d"
    and "RtpQueueMap app ssrc = Some r" "al_Values (nd_al nd) (queue (app_queues app r)) \<noteq> []"
    and "fresh (flvRecord (app_queues app r))" "flvFile (app_queues app r) = Some s"
    and "\<forall>i < next_queue app'. i \<noteq> r \<longrightarrow> record_name (ChannelKey (app_queues app' i)) \<noteq> record_name (ChannelKey (app_queues app' r))"
    and "list_all2 packets_of tags pss"
      "concat pss = map (\<lambda>i. src ssrc (FirstSeq (app_queues app r) + word_of_nat i)) [0..<N]"
  shows "\<exists>n k ts. FirstSeq (app_queues app' r) = FirstSeq (app_queues app r) + word_of_nat n
    \<and> accFlvTags (app_queues app' r) = accFlvTags (app_queues app r) + int k
    \<and> (n \<le> N \<longrightarrow> k \<le> length tags) \<and> (N \<le> n \<longrightarrow> length tags \<le> k)
    \<and> (k \<le> length tags \<longrightarrow> fs_data (fd (file_at app' s)) = fs_data (fd (file_at app s)) @ concat (map on_wire (take k tags)))
    \<and> fs_data (fd (file_at app' s)) = HEADER_BYTES @ concat (map on_wire ts)
    \<and> accFlvTags (app_queues app' r) = int (length ts)"
proof -
  let ?q = "app_queues app r" and ?q' = "app_queues app' r"
  obtain n ts where v: "FirstSeq ?q' = FirstSeq ?q + word_of_nat n" "accFlvTags ?q' = accFlvTags ?q + int (length ts)"
      "n \<le> N \<longrightarrow> length ts \<le> length tags" "N \<le> n \<longrightarrow> length tags \<le> length ts"
      "length ts \<le> length tags \<longrightarrow> map bytes ts = take (length ts) tags" "file_gets r app ts app'" "node_inv nd app'"
      "r < next_queue app" "hls_gets nd r app ts app'"
    using sending.sender_progress [OF assms(1-8,11,12)] by (elim exE conjE)
  have frame: "rec_frame = on_wire" by (simp add: rec_frame_def on_wire_def fun_eq_iff)
  have new: "fs_data (fd (file_at app' s)) = fs_data (fd (file_at app s)) @ concat (map on_wire (map bytes ts))"
    using v(6) assms(9,10) by (simp add: file_gets_def frame alone_def)
  have "flvFile ?q' = Some s" using v(6) assms(9) by (simp add: file_gets_def)
  moreover have "r < next_queue app'" using v(8,9) by (simp add: hls_gets_def)
  ultimately have "records_tags ?q' (file_at app' s)"
    using v(7) assms(10) by (simp add: node_inv_def files_inv_def alone_def)
  then obtain us where us: "fs_data (fd (file_at app' s)) = HEADER_BYTES @ concat (map on_wire us)" "accFlvTags ?q' = int (length us)"
    by (auto simp: records_tags_def frame)
  have "length ts \<le> length tags \<longrightarrow> fs_data (fd (file_at app' s)) = fs_data (fd (file_at app s)) @ concat (map on_wire (take (length ts) tags))"
    using new v(5) by (simp del: map_map)
  with v(1-4) us show ?thesis by blast
qed

theorem recording_receives_tags_witness:
  "\<exists>app app' evs evs'. node_trace demo_node (view_app, True) evs (app, False)
     \<and> node_trace demo_node (app, False) evs' (app', False)
     \<and> fs_data (fd (file_at app' 0)) = HEADER_BYTES @ on_wire short_tag"
proof (rule demo_run, goal_cases)
  case (1 app app' x p evs evs')
  note w = waiting_facts [OF 1(4)]
  have r: "flvFile (app_queues app 0) = Some 0" using 1(4) by (simp add: waiting_def)
  have alone: "\<forall>i < next_queue app'. i \<noteq> 0 \<longrightarrow> record_name (ChannelKey (app_queues app' i)) \<noteq> record_name (ChannelKey (app_queues app' 0))"
    using 1(8) by simp
  obtain us where us: "fs_data (fd (file_at app 0)) = HEADER_BYTES @ concat (map rec_frame us)" "length us = 0"
  proof -
    have "node_run demo_node view_conf app False" using 1(1) unfolding node_run_def view_app_def by blast
    from demo_edge.node_run_inv [OF this] have "files_inv app" by (simp add: node_inv_def)
    moreover have "0 < next_queue app" using 1(4) by (simp add: waiting_def)
    moreover have "alone app 0" using 1(4) by (simp add: waiting_def alone_def)
    ultimately have "records_tags (app_queues app 0) (file_at app 0)" using r by (simp add: files_inv_def)
    with w(5) that show thesis by (auto simp: records_tags_def)
  qed
  from recording_receives_tags [OF demo_sending demo_initial 1(1) [unfolded view_app_def] 1(2,3) w(1-3) r alone,
      of "[short_tag]" "[[node_packet 7 65535]]" 1] w(4,5) 1(7) packets_of_node [of 65535] us
  have "fs_data (fd (file_at app' 0)) = HEADER_BYTES @ on_wire short_tag" by auto
  with 1(1,2) show ?case by blast
qed

end
